(* ===== verification/Bridge_Prelude.thy ===== *)
theory Bridge_Prelude
  imports Main "HOL-Library.Word" "HOL-Library.Monad_Syntax"
begin

text \<open>
  Shared vocabulary of the development: the machine integers of the firmware, the panic monad, the
  array and slice accesses of Rust with their bounds checks, the append-at-cursor writer that
  \<^verbatim>\<open>format_frame\<close> and the page builders use, and the contract of a hexadecimal digit codec, which
  the firmware implements four times.

  A value of type \<open>'a run\<close> is a Rust computation that may panic: \<open>None\<close> is the panic (an index or a
  slice out of range), or undefined behaviour, \<open>Some x\<close> a normal return of \<open>x\<close>.  A Rust \<^verbatim>\<open>Option<T>\<close> returned by such a
  computation is a second, inner option.
\<close>

unbundle bit_operations_syntax

subsection \<open>Machine types and collections of facts\<close>

type_synonym u8 = "8 word"
type_synonym u16 = "16 word"
type_synonym u32 = "32 word"
type_synonym u64 = "64 word"
type_synonym bytes = "8 word list"

type_synonym 'a run = "'a option"

named_theorems run_simps \<open>equations that evaluate panicking primitives whose bounds hold\<close>
named_theorems hex_simps \<open>equations of the hexadecimal digit codecs\<close>

abbreviation asc :: "char \<Rightarrow> u8" where
  "asc c \<equiv> of_char c"

definition ascii :: "string \<Rightarrow> bytes" where
  "ascii s = map of_char s"

lemma ascii_simps [simp]:
  "ascii [] = []"
  "ascii (c # s) = asc c # ascii s"
  by (simp_all add: ascii_def)

lemma length_ascii [simp]: "length (ascii s) = length s"
  by (simp add: ascii_def)

lemma ascii_append: "ascii (s @ t) = ascii s @ ascii t"
  by (simp add: ascii_def)

lemma replicate_numeral_unfold:
  "replicate (numeral k) x = x # replicate (pred_numeral k) x"
  by (simp add: numeral_eq_Suc)

subsection \<open>Checked accesses\<close>

text \<open>\<^verbatim>\<open>xs[i]\<close>, \<^verbatim>\<open>xs[i] = v\<close>, \<^verbatim>\<open>&xs[a..b]\<close> and \<^verbatim>\<open>dst[..n].copy_from_slice(src)\<close>.\<close>

definition idx :: "'a list \<Rightarrow> nat \<Rightarrow> 'a run" where
  "idx xs i = (if i < length xs then Some (xs ! i) else None)"

definition upd :: "'a list \<Rightarrow> nat \<Rightarrow> 'a \<Rightarrow> 'a list run" where
  "upd xs i v = (if i < length xs then Some (xs[i := v]) else None)"

definition slice :: "'a list \<Rightarrow> nat \<Rightarrow> nat \<Rightarrow> 'a list run" where
  "slice xs a b = (if a \<le> b \<and> b \<le> length xs then Some (take (b - a) (drop a xs)) else None)"

definition copy_prefix :: "'a list \<Rightarrow> nat \<Rightarrow> 'a list \<Rightarrow> 'a list run" where
  "copy_prefix dst n src =
     (if n \<le> length dst \<and> length src = n then Some (src @ drop n dst) else None)"

lemma idx_Some [run_simps]: "i < length xs \<Longrightarrow> idx xs i = Some (xs ! i)"
  by (simp add: idx_def)

lemma idx_eq_Some: "idx xs i = Some x \<longleftrightarrow> i < length xs \<and> x = xs ! i"
  by (auto simp: idx_def)

lemma upd_Some [run_simps]: "i < length xs \<Longrightarrow> upd xs i v = Some (xs[i := v])"
  by (simp add: upd_def)

lemma slice_Some [run_simps]:
  "a \<le> b \<Longrightarrow> b \<le> length xs \<Longrightarrow> slice xs a b = Some (take (b - a) (drop a xs))"
  by (simp add: slice_def)

lemma copy_prefix_Some [run_simps]:
  "n \<le> length dst \<Longrightarrow> length src = n \<Longrightarrow> copy_prefix dst n src = Some (src @ drop n dst)"
  by (simp add: copy_prefix_def)

text \<open>The \<^verbatim>\<open>?\<close> operator on an \<^verbatim>\<open>Option\<close> inside a function that returns an \<^verbatim>\<open>Option\<close>.\<close>

definition try_opt :: "'a option \<Rightarrow> ('a \<Rightarrow> 'b option run) \<Rightarrow> 'b option run" where
  "try_opt x k = (case x of None \<Rightarrow> Some None | Some v \<Rightarrow> k v)"

lemma try_opt_simps [simp]:
  "try_opt None k = Some None"
  "try_opt (Some v) k = k v"
  by (simp_all add: try_opt_def)

lemma try_opt_not_panic:
  "(\<And>v. x = Some v \<Longrightarrow> k v \<noteq> None) \<Longrightarrow> try_opt x k \<noteq> None"
  by (auto simp: try_opt_def split: option.splits)

lemma try_opt_eq_SomeSome:
  "try_opt x k = Some (Some y) \<longleftrightarrow> (\<exists>v. x = Some v \<and> k v = Some (Some y))"
  by (auto simp: try_opt_def split: option.splits)

subsection \<open>Writing at a cursor\<close>

text \<open>
  The pair is the buffer and the cursor: \<^verbatim>\<open>out[n] = b; n += 1;\<close>.  The list form \<open>puts\<close> is the
  specification against which the loops of the firmware are proved.
\<close>

type_synonym cursor = "bytes \<times> nat"

definition put :: "u8 \<Rightarrow> cursor \<Rightarrow> cursor run" where
  "put b st = (case st of (out, n) \<Rightarrow> do { out' \<leftarrow> upd out n b; Some (out', n + 1) })"

fun puts :: "bytes \<Rightarrow> cursor \<Rightarrow> cursor run" where
  "puts [] st = Some st"
| "puts (b # bs) st = do { st' \<leftarrow> put b st; puts bs st' }"

lemma put_simps:
  "put b (out, n) = (if n < length out then Some (out[n := b], n + 1) else None)"
  by (simp add: put_def upd_def)

lemma puts_Nil: "puts [] = Some"
  by (simp add: fun_eq_iff)

lemma puts_Cons: "puts (b # bs) = (\<lambda>st. put b st \<bind> puts bs)"
  by (simp add: fun_eq_iff)

lemma puts_append: "puts (xs @ ys) st = puts xs st \<bind> puts ys"
proof (induction xs arbitrary: st)
  case (Cons x xs)
  then have "puts (xs @ ys) = (\<lambda>st. puts xs st \<bind> puts ys)" by auto
  then show ?case by simp
qed simp

lemma puts_append_fun: "puts (xs @ ys) = (\<lambda>st. puts xs st \<bind> puts ys)"
  by (simp add: fun_eq_iff puts_append)

lemma puts_Some:
  "n + length xs \<le> length out \<Longrightarrow>
   puts xs (out, n) = Some (take n out @ xs @ drop (n + length xs) out, n + length xs)"
proof (induction xs arbitrary: out n)
  case Nil
  then show ?case by simp
next
  case (Cons x xs)
  then have "take (Suc n) (out[n := x]) = take n out @ [x]"
    by (simp add: take_Suc_conv_app_nth)
  with Cons show ?case by (simp add: put_simps)
qed

lemma puts_None: "length out < n + length xs \<Longrightarrow> n \<le> length out \<Longrightarrow> puts xs (out, n) = None"
  by (induction xs arbitrary: out n) (auto simp: put_simps)

subsection \<open>Nibbles\<close>

lemma unat_lt2p_8: "unat (v::u8) < 256"
  using unsigned_less [where ?'b = 8 and ?'a = nat, of v] by simp

lemma nibble_cases:
  assumes "(v::u8) < 16"
  obtains "v = 0" | "v = 1" | "v = 2" | "v = 3" | "v = 4" | "v = 5" | "v = 6" | "v = 7"
    | "v = 8" | "v = 9" | "v = 10" | "v = 11" | "v = 12" | "v = 13" | "v = 14" | "v = 15"
proof -
  have "unat v < 16" using assms by (simp add: word_less_nat_alt)
  then obtain n where "v = word_of_nat n" "n < 16"
    by (cases v) (auto simp: unat_of_nat)
  moreover from \<open>n < 16\<close> have "n \<in> set [0..<16]" by simp
  ultimately show thesis using that by (auto simp: upt_rec)
qed

lemma low_nibble_lt [simp]: "(v::u8) AND 15 < 16"
  using word_and_le1 [of v 15] by (simp add: word_le_nat_alt word_less_nat_alt)

lemma high_nibble_lt [simp]: "drop_bit 4 (v::u8) < 16"
proof -
  have "unat v < 256" using unat_lt2p_8 [of v] .
  then have "drop_bit 4 (unat v) < 16" by (simp add: drop_bit_eq_div)
  then have "unat (drop_bit 4 v) < 16" by (simp only: unat_drop_bit_eq)
  then show ?thesis by (simp add: word_less_nat_alt)
qed

lemma nibble_mask: "(v::u8) < 16 \<Longrightarrow> v AND 15 = v"
  by (erule nibble_cases) simp_all

lemma high_nibble_mask [simp]: "drop_bit 4 (v::u8) AND 15 = drop_bit 4 v"
  by (rule nibble_mask) simp

lemma and_15_take_bit: "(b::u8) AND 15 = take_bit 4 b"
  by (simp add: take_bit_eq_mask mask_eq_exp_minus_1)

definition join_nibbles :: "u8 \<Rightarrow> u8 \<Rightarrow> u8" where
  \<comment> \<open>\<^verbatim>\<open>(hi << 4) | lo\<close>\<close>
  "join_nibbles hi lo = push_bit 4 hi OR lo"

lemma nibbles_join: "join_nibbles (drop_bit 4 b) (b AND 15) = b"
  unfolding and_15_take_bit join_nibbles_def by (rule bit_word_eqI) (auto simp: bit_simps not_less)

subsection \<open>The contract of a hexadecimal digit codec\<close>

text \<open>
  Four decoders (\<^verbatim>\<open>slcan::nibble\<close>, \<^verbatim>\<open>autoconnect::hexval\<close>, \<^verbatim>\<open>http::hex_nibble\<close> and the digits of
  \<^verbatim>\<open>parse_hex\<close>) and three encoders (\<^verbatim>\<open>slcan::hex_digit\<close>, \<^verbatim>\<open>transport::hex_nibble\<close> and the
  \<^verbatim>\<open>{:02X}\<close> format) live in the sources.  The locale states what one decoder promises of one
  encoder; the multi-digit facts are proved once from it.
\<close>

definition to_upper :: "u8 \<Rightarrow> u8" where
  "to_upper c = (if 0x61 \<le> c \<and> c \<le> 0x7a then c - 32 else c)"

definition hex_digits :: "(u8 \<Rightarrow> u8) \<Rightarrow> nat \<Rightarrow> 'a::len word \<Rightarrow> bytes" where
  "hex_digits enc n v = map (\<lambda>k. enc (ucast (drop_bit (4 * k) v))) (rev [0..<n])"

fun hex_acc :: "(u8 \<Rightarrow> u8 option) \<Rightarrow> bytes \<Rightarrow> u32 \<Rightarrow> u32 option" where
  "hex_acc dec [] v = Some v"
| "hex_acc dec (b # bs) v =
     (case dec b of None \<Rightarrow> None | Some d \<Rightarrow> hex_acc dec bs (push_bit 4 v OR ucast d))"

lemma hex_digits_0 [simp]: "hex_digits enc 0 v = []"
  by (simp add: hex_digits_def)

lemma hex_digits_Suc:
  "hex_digits enc (Suc n) v = enc (ucast (drop_bit (4 * n) v)) # hex_digits enc n v"
  by (simp add: hex_digits_def)

lemma length_hex_digits [simp]: "length (hex_digits enc n v) = n"
  by (simp add: hex_digits_def)

lemma hex_digits_snoc:
  "hex_digits enc (Suc n) v = hex_digits enc n (drop_bit 4 v) @ [enc (ucast v)]"
  by (induction n) (simp_all add: hex_digits_Suc add.commute)

lemma hex_acc_append:
  "hex_acc dec (xs @ ys) v = hex_acc dec xs v \<bind> hex_acc dec ys"
  by (induction xs arbitrary: v) (auto split: option.splits)

lemma hex_acc_digits: "hex_acc dec bs v = Some w \<Longrightarrow> \<forall>b \<in> set bs. dec b \<noteq> None"
  by (induction bs arbitrary: v) (auto split: option.splits)

text \<open>Two digits per byte: the reference encoder and decoder of byte strings.\<close>

definition hex_pairs :: "(u8 \<Rightarrow> u8) \<Rightarrow> bytes \<Rightarrow> bytes" where
  "hex_pairs enc bs = concat (map (\<lambda>b. [enc (drop_bit 4 b), enc b]) bs)"

fun unhex_pairs :: "(u8 \<Rightarrow> u8 option) \<Rightarrow> bytes \<Rightarrow> bytes option" where
  "unhex_pairs dec (c # d # cs) =
     (case dec c of None \<Rightarrow> None
      | Some hi \<Rightarrow> (case dec d of None \<Rightarrow> None
                   | Some lo \<Rightarrow> map_option ((#) (join_nibbles hi lo)) (unhex_pairs dec cs)))"
| "unhex_pairs dec [] = Some []"
| "unhex_pairs dec [c] = None"

lemma hex_pairs_simps [simp]:
  "hex_pairs enc [] = []"
  "hex_pairs enc (b # bs) = enc (drop_bit 4 b) # enc b # hex_pairs enc bs"
  by (simp_all add: hex_pairs_def)

lemma length_hex_pairs [simp]: "length (hex_pairs enc bs) = 2 * length bs"
  by (induction bs) simp_all

lemma length_unhex_pairs: "unhex_pairs dec cs = Some bs \<Longrightarrow> length cs = 2 * length bs"
  by (induction cs arbitrary: bs rule: unhex_pairs.induct) (auto split: option.splits)

locale hex_codec =
  fixes dec :: "u8 \<Rightarrow> u8 option" and enc :: "u8 \<Rightarrow> u8"
  assumes dec_enc: "dec (enc v) = Some (v AND 15)"
    and dec_lt: "dec c = Some v \<Longrightarrow> v < 16"
    and enc_dec: "dec c = Some v \<Longrightarrow> enc v = to_upper c"
    and enc_mask: "enc (v AND 15) = enc v"
begin

text \<open>Two digits carry one byte.\<close>

lemma dec_enc_high: "dec (enc (drop_bit 4 b)) = Some (drop_bit 4 b)"
  by (simp add: dec_enc nibble_mask)

lemmas byte_digits = dec_enc_high dec_enc nibbles_join

lemma byte_canonical:
  assumes "dec c = Some h" "dec d = Some l"
  shows "enc (drop_bit 4 (join_nibbles h l)) = to_upper c"
    and "enc (join_nibbles h l) = to_upper d"
proof -
  have h: "take_bit 4 h = h" and l: "take_bit 4 l = l"
    using assms nibble_mask [OF dec_lt] by (auto simp flip: and_15_take_bit)
  have "drop_bit 4 (push_bit 4 h OR l) = drop_bit 4 (push_bit 4 (take_bit 4 h) OR take_bit 4 l)"
    by (simp add: h l)
  also have "\<dots> = take_bit 4 h" by (rule bit_word_eqI) (auto simp: bit_simps)
  finally show "enc (drop_bit 4 (join_nibbles h l)) = to_upper c"
    unfolding join_nibbles_def using assms enc_dec by (simp only: h)
  have "(push_bit 4 h OR l) AND 15 = take_bit 4 (push_bit 4 h OR take_bit 4 l)"
    by (simp add: l and_15_take_bit)
  also have "\<dots> = take_bit 4 l" by (rule bit_word_eqI) (auto simp: bit_simps)
  finally show "enc (join_nibbles h l) = to_upper d"
    unfolding join_nibbles_def using assms enc_dec enc_mask [of "push_bit 4 h OR l"] by (simp add: l)
qed

lemma unhex_hex_pairs: "unhex_pairs dec (hex_pairs enc bs) = Some bs"
  by (induction bs) (simp_all add: byte_digits)

lemma hex_unhex_pairs: "unhex_pairs dec cs = Some bs \<Longrightarrow> hex_pairs enc bs = map to_upper cs"
  by (induction cs arbitrary: bs rule: induct_list012)
    (auto simp: byte_canonical split: option.splits)

text \<open>Reading back the \<open>n\<close> low digits of a word gives its low \<open>4 * n\<close> bits.\<close>

lemma hex_acc_enc:
  "hex_acc dec (hex_digits enc n (v::u32)) a = Some (push_bit (4 * n) a OR take_bit (4 * n) v)"
proof (induction n arbitrary: a)
  case 0
  then show ?case by simp
next
  case (Suc n)
  have "push_bit (4 * n) (push_bit 4 a OR ucast ((ucast (drop_bit (4 * n) v) :: u8) AND 15))
        OR take_bit (4 * n) v = push_bit (4 + 4 * n) a OR take_bit (4 + 4 * n) v"
    unfolding and_15_take_bit
    by (rule bit_word_eqI) (auto simp: bit_simps not_less add.commute [of 4])
  with Suc show ?case by (simp add: hex_digits_Suc dec_enc)
qed

lemma hex_acc_bound: "hex_acc dec bs 0 = Some v \<Longrightarrow> take_bit (4 * length bs) v = v"
proof (induction bs arbitrary: v rule: rev_induct)
  case Nil
  then show ?case by simp
next
  case (snoc b bs)
  then obtain w d where w: "hex_acc dec bs 0 = Some w" and d: "dec b = Some d"
    and v: "v = push_bit 4 w OR ucast d"
    by (auto simp: hex_acc_append bind_eq_Some_conv split: option.splits)
  have d': "take_bit 4 d = d" using d nibble_mask [OF dec_lt] by (simp flip: and_15_take_bit)
  have "take_bit (4 * length bs) w = w" using snoc.IH w by blast
  then have "v = push_bit 4 (take_bit (4 * length bs) w) OR ucast (take_bit 4 d)"
    by (simp add: v d')
  then show ?case by (auto intro!: bit_word_eqI simp: bit_simps)
qed

text \<open>Printing what was read gives the upper-case form of the digits read.\<close>

lemma hex_acc_canonical:
  "hex_acc dec bs 0 = Some v \<Longrightarrow> length bs \<le> 8 \<Longrightarrow> hex_digits enc (length bs) v = map to_upper bs"
proof (induction bs arbitrary: v rule: rev_induct)
  case Nil
  then show ?case by simp
next
  case (snoc b bs)
  then obtain w d where w: "hex_acc dec bs 0 = Some w" and d: "dec b = Some d"
    and v: "v = push_bit 4 w OR ucast d"
    by (auto simp: hex_acc_append bind_eq_Some_conv split: option.splits)
  have d': "take_bit 4 d = d" using d nibble_mask [OF dec_lt] by (simp flip: and_15_take_bit)
  have w': "take_bit (4 * length bs) w = w" using hex_acc_bound w by blast
  have "drop_bit 4 v = drop_bit 4 (push_bit 4 (take_bit (4 * length bs) w) OR ucast (take_bit 4 d))"
    by (simp add: v w' d')
  also have "\<dots> = take_bit (4 * length bs) w"
    using snoc.prems(2) by (intro bit_word_eqI) (auto simp: bit_simps)
  finally have "drop_bit 4 v = w" by (simp add: w')
  moreover have "(ucast v :: u8) AND 15 = take_bit 4 d"
    unfolding v and_15_take_bit by (rule bit_word_eqI) (auto simp: bit_simps)
  then have "enc (ucast v) = to_upper b"
    using enc_mask [of "ucast v"] enc_dec [OF d] by (simp add: d')
  ultimately show ?case using snoc w by (simp add: hex_digits_snoc)
qed

end

end
