(* ===== verification/Slcan.thy ===== *)
theory Slcan
  imports Bridge_Prelude
begin

text \<open>
  The ASCII line protocol of \<^verbatim>\<open>src/slcan.rs\<close>: the neutral CAN frame, the parser of transmit
  commands and the formatter of received frames, with every index into a line or an output buffer
  checked as Rust checks it.
\<close>

section \<open>Model\<close>

definition BELL :: u8 where "BELL = 0x07"
definition CR :: u8 where "CR = 0x0d"
definition MAX_FRAME_ASCII :: nat where "MAX_FRAME_ASCII = 32"

text \<open>\<open>f_data\<close> is the array \<^verbatim>\<open>[u8; 8]\<close>: a list of length 8.\<close>

record CanFrame =
  f_id :: u32
  f_ext :: bool
  f_rtr :: bool
  f_dlc :: u8
  f_data :: bytes

definition CanFrame_default :: CanFrame where
  "CanFrame_default = \<lparr>f_id = 0, f_ext = False, f_rtr = False, f_dlc = 0, f_data = replicate 8 0\<rparr>"

definition nibble :: "u8 \<Rightarrow> u8 option" where
  "nibble c =
     (if asc CHR ''0'' \<le> c \<and> c \<le> asc CHR ''9'' then Some (c - asc CHR ''0'')
      else if asc CHR ''a'' \<le> c \<and> c \<le> asc CHR ''f'' then Some (c - asc CHR ''a'' + 10)
      else if asc CHR ''A'' \<le> c \<and> c \<le> asc CHR ''F'' then Some (c - asc CHR ''A'' + 10)
      else None)"

definition hex_digit :: "u8 \<Rightarrow> u8" where
  "hex_digit v0 =
     (let v = v0 AND 0x0f
      in if v < 10 then asc CHR ''0'' + v else asc CHR ''A'' + (v - 10))"

text \<open>The loop of \<^verbatim>\<open>parse_hex\<close> with its accumulator.\<close>

fun parse_hex_loop :: "u32 \<Rightarrow> bytes \<Rightarrow> u32 option" where
  "parse_hex_loop v [] = Some v"
| "parse_hex_loop v (b # bs) =
     (case nibble b of
        None \<Rightarrow> None
      | Some d \<Rightarrow> parse_hex_loop (push_bit 4 v OR ucast d) bs)"

definition parse_hex :: "bytes \<Rightarrow> u32 option" where
  "parse_hex bs = parse_hex_loop 0 bs"

text \<open>The flags and id length selected by the first byte of a line.\<close>

definition tx_kind :: "u8 \<Rightarrow> (bool \<times> bool \<times> nat) option" where
  "tx_kind c =
     (if c = asc CHR ''t'' then Some (False, False, 3)
      else if c = asc CHR ''T'' then Some (True, False, 8)
      else if c = asc CHR ''r'' then Some (False, True, 3)
      else if c = asc CHR ''R'' then Some (True, True, 8)
      else None)"

text \<open>The data loop of \<^verbatim>\<open>parse_tx\<close>: \<open>m\<close> rounds left, \<open>k\<close> the next data index, \<open>i\<close> the position.\<close>

fun parse_data :: "bytes \<Rightarrow> nat \<Rightarrow> nat \<Rightarrow> nat \<Rightarrow> bytes \<Rightarrow> bytes option run" where
  "parse_data line i k 0 d = Some (Some d)"
| "parse_data line i k (Suc m) d =
     do { c \<leftarrow> idx line i;
          try_opt (nibble c) (\<lambda>hi.
            do { c' \<leftarrow> idx line (i + 1);
                 try_opt (nibble c') (\<lambda>lo.
                   do { d' \<leftarrow> upd d k (join_nibbles hi lo);
                        parse_data line (i + 2) (k + 1) m d' }) }) }"

definition parse_tx :: "bytes \<Rightarrow> CanFrame option run" where
  "parse_tx line =
     (case line of
        [] \<Rightarrow> Some None
      | c # _ \<Rightarrow>
          (case tx_kind c of
             None \<Rightarrow> Some None
           | Some (ext, rtr, idlen) \<Rightarrow>
               let f = CanFrame_default\<lparr>f_ext := ext, f_rtr := rtr\<rparr>; i = 1 in
               if length line < i + idlen + 1 then Some None
               else do {
                 ids \<leftarrow> slice line i (i + idlen);
                 try_opt (parse_hex ids) (\<lambda>fid.
                   let f = f\<lparr>f_id := fid\<rparr>; i = i + idlen in
                   do {
                     c \<leftarrow> idx line i;
                     try_opt (nibble c) (\<lambda>dlc.
                       if 8 < dlc then Some None
                       else
                         let f = f\<lparr>f_dlc := dlc\<rparr>; i = i + 1 in
                         if \<not> rtr then
                           if length line < i + unat dlc * 2 then Some None
                           else do {
                             d \<leftarrow> parse_data line i 0 (unat dlc) (f_data f);
                             try_opt d (\<lambda>d. Some (Some (f\<lparr>f_data := d\<rparr>)))
                           }
                         else Some (Some f)) }) }))"

text \<open>The three loops of \<^verbatim>\<open>format_frame\<close>: the hex digits at the given shifts, the data bytes.\<close>

fun put_shifts :: "'a::len word \<Rightarrow> nat list \<Rightarrow> cursor \<Rightarrow> cursor run" where
  "put_shifts v [] st = Some st"
| "put_shifts v (s # ss) st =
     do { st' \<leftarrow> put (hex_digit (ucast (drop_bit s v))) st; put_shifts v ss st' }"

fun put_data :: "bytes \<Rightarrow> nat \<Rightarrow> nat \<Rightarrow> cursor \<Rightarrow> cursor run" where
  "put_data d k 0 st = Some st"
| "put_data d k (Suc m) st =
     do { x \<leftarrow> idx d k;
          st \<leftarrow> put (hex_digit (drop_bit 4 x)) st;
          x \<leftarrow> idx d k;
          st \<leftarrow> put (hex_digit x) st;
          put_data d (k + 1) m st }"

definition frame_tag :: "CanFrame \<Rightarrow> u8" where
  "frame_tag f =
     (case (f_ext f, f_rtr f) of
        (False, False) \<Rightarrow> asc CHR ''t''
      | (True, False) \<Rightarrow> asc CHR ''T''
      | (False, True) \<Rightarrow> asc CHR ''r''
      | (True, True) \<Rightarrow> asc CHR ''R'')"

definition format_frame :: "CanFrame \<Rightarrow> u16 option \<Rightarrow> bytes \<Rightarrow> cursor run" where
  "format_frame f timestamp out =
     do { st \<leftarrow> put (frame_tag f) (out, 0);
          st \<leftarrow> (if f_ext f then put_shifts (f_id f) [28, 24, 20, 16, 12, 8, 4, 0] st
                else put_shifts (f_id f) [8, 4, 0] st);
          st \<leftarrow> put (hex_digit (f_dlc f)) st;
          st \<leftarrow> (if \<not> f_rtr f then put_data (f_data f) 0 (unat (f_dlc f)) st else Some st);
          st \<leftarrow> (case timestamp of
                  Some ts \<Rightarrow> put_shifts ts [12, 8, 4, 0] st
                | None \<Rightarrow> Some st);
          put CR st }"

section \<open>The digit codec\<close>

lemma nibble_hex_digit: "nibble (hex_digit v) = Some (v AND 15)"
proof -
  have "v AND 15 < 16" by simp
  then show ?thesis
    by (rule nibble_cases) (simp_all add: hex_digit_def nibble_def)
qed

lemma nibble_lt: "nibble c = Some v \<Longrightarrow> v < 16"
  by (auto simp: nibble_def split: if_splits) unat_arith+

lemma hex_digit_nibble: "nibble c = Some v \<Longrightarrow> hex_digit v = to_upper c"
proof -
  assume n: "nibble c = Some v"
  then have "v AND 15 = v" using nibble_lt nibble_mask by blast
  with n show ?thesis
    by (auto simp: nibble_def hex_digit_def to_upper_def split: if_splits) (unat_arith)+
qed

lemma hex_digit_mask: "hex_digit (v AND 15) = hex_digit v"
  by (simp add: hex_digit_def and.assoc)

interpretation slcan_hex: hex_codec nibble hex_digit
  by unfold_locales (auto simp: nibble_hex_digit nibble_lt hex_digit_nibble hex_digit_mask)

lemma parse_hex_eq: "parse_hex bs = hex_acc nibble bs 0"
proof -
  have "parse_hex_loop v bs = hex_acc nibble bs v" for v
    by (induction bs arbitrary: v) (auto split: option.splits)
  then show ?thesis by (simp add: parse_hex_def)
qed

section \<open>The formatter against its reference rendering\<close>

definition wf_frame :: "CanFrame \<Rightarrow> bool" where
  "wf_frame f \<longleftrightarrow> unat (f_dlc f) \<le> 8 \<and> length (f_data f) = 8"

definition payload :: "CanFrame \<Rightarrow> bytes" where
  "payload f = (if f_rtr f then [] else take (unat (f_dlc f)) (f_data f))"

definition id_len :: "CanFrame \<Rightarrow> nat" where
  "id_len f = (if f_ext f then 8 else 3)"

definition frame_ascii :: "CanFrame \<Rightarrow> u16 option \<Rightarrow> bytes" where
  "frame_ascii f ts =
     frame_tag f # hex_digits hex_digit (id_len f) (f_id f) @ hex_digit (f_dlc f)
       # hex_pairs hex_digit (payload f)
       @ (case ts of None \<Rightarrow> [] | Some t \<Rightarrow> hex_digits hex_digit 4 t) @ [CR]"

lemma length_payload: "wf_frame f \<Longrightarrow> length (payload f) = (if f_rtr f then 0 else unat (f_dlc f))"
  by (simp add: payload_def wf_frame_def)

lemma length_frame_ascii:
  "wf_frame f \<Longrightarrow>
   length (frame_ascii f ts) =
     3 + id_len f + (if f_rtr f then 0 else 2 * unat (f_dlc f)) + (if ts = None then 0 else 4)"
  by (simp add: frame_ascii_def length_payload split: option.splits)

lemma put_shifts_puts:
  "put_shifts v ss = puts (map (\<lambda>s. hex_digit (ucast (drop_bit s v))) ss)"
proof (induction ss)
  case (Cons s ss)
  show ?case by (rule ext) (simp add: Cons)
qed (simp add: fun_eq_iff)

lemma hex_digits_shifts:
  "map (\<lambda>s. hex_digit (ucast (drop_bit s v))) [8, 4, 0] = hex_digits hex_digit 3 v"
  "map (\<lambda>s. hex_digit (ucast (drop_bit s v))) [12, 8, 4, 0] = hex_digits hex_digit 4 v"
  "map (\<lambda>s. hex_digit (ucast (drop_bit s v))) [28, 24, 20, 16, 12, 8, 4, 0] = hex_digits hex_digit 8 v"
  by (simp_all add: hex_digits_def upt_rec)

lemma put_data_puts:
  "k + m \<le> length d \<Longrightarrow> put_data d k m = puts (hex_pairs hex_digit (take m (drop k d)))"
proof (induction m arbitrary: k)
  case (Suc m)
  then have "take (Suc m) (drop k d) = d ! k # take m (drop (Suc k) d)"
    by (simp add: take_Suc_conv_app_nth Cons_nth_drop_Suc [symmetric])
  with Suc show ?case by (intro ext) (simp add: run_simps puts_Cons)
qed (simp add: fun_eq_iff)

lemma format_frame_puts:
  assumes "wf_frame f"
  shows "format_frame f ts out = puts (frame_ascii f ts) (out, 0)"
proof -
  have data: "(if \<not> f_rtr f then put_data (f_data f) 0 (unat (f_dlc f)) st else Some st)
      = puts (hex_pairs hex_digit (payload f)) st" for st
    using assms by (simp add: put_data_puts payload_def wf_frame_def)
  have stamp: "(case ts of None \<Rightarrow> Some st | Some t \<Rightarrow> put_shifts t [12, 8, 4, 0] st)
      = puts (case ts of None \<Rightarrow> [] | Some t \<Rightarrow> hex_digits hex_digit 4 t) st" for st
    by (simp only: put_shifts_puts hex_digits_shifts split: option.split) simp
  have ids: "(if f_ext f then put_shifts (f_id f) [28, 24, 20, 16, 12, 8, 4, 0] st
       else put_shifts (f_id f) [8, 4, 0] st) = puts (hex_digits hex_digit (id_len f) (f_id f)) st" for st
    by (simp only: put_shifts_puts hex_digits_shifts id_len_def split: if_splits) simp
  show ?thesis
    unfolding format_frame_def data stamp ids frame_ascii_def
    by (simp add: puts_Nil puts_Cons puts_append_fun)
qed

section \<open>The parser against a reference parser\<close>

text \<open>The grammar of a transmit line, written on lists without positions or checked indices.\<close>

definition parse_tx_ref :: "bytes \<Rightarrow> CanFrame option" where
  "parse_tx_ref line =
     (case line of [] \<Rightarrow> None | c # cs \<Rightarrow>
        do { (ext, rtr, n) \<leftarrow> tx_kind c;
             if length cs < n + 1 then None else do {
               fid \<leftarrow> hex_acc nibble (take n cs) 0;
               dlc \<leftarrow> nibble (cs ! n);
               if 8 < dlc then None
               else if rtr then
                 Some \<lparr>f_id = fid, f_ext = ext, f_rtr = rtr, f_dlc = dlc, f_data = replicate 8 0\<rparr>
               else if length cs < n + 1 + 2 * unat dlc then None
               else do {
                 bs \<leftarrow> unhex_pairs nibble (take (2 * unat dlc) (drop (n + 1) cs));
                 Some \<lparr>f_id = fid, f_ext = ext, f_rtr = rtr, f_dlc = dlc,
                       f_data = bs @ replicate (8 - unat dlc) 0\<rparr> } } })"

lemma take_double_Suc:
  "i + 2 * Suc m \<le> length xs \<Longrightarrow>
   take (2 * Suc m) (drop i xs) = xs ! i # xs ! (i + 1) # take (2 * m) (drop (i + 2) xs)"
  by (simp add: Cons_nth_drop_Suc [symmetric] take_Suc_conv_app_nth)

lemma parse_data_unhex:
  "i + 2 * m \<le> length line \<Longrightarrow> k + m \<le> length d \<Longrightarrow>
   parse_data line i k m d =
     Some (map_option (\<lambda>bs. take k d @ bs @ drop (k + m) d)
            (unhex_pairs nibble (take (2 * m) (drop i line))))"
proof (induction m arbitrary: i k d)
  case (Suc m)
  have "take (Suc k) (d[k := v]) = take k d @ [v]" for v
    using Suc.prems by (simp add: take_Suc_conv_app_nth)
  then have step: "parse_data line (i + 2) (Suc k) m (d[k := v]) =
     Some (map_option (\<lambda>bs. take k d @ v # bs @ drop (Suc (k + m)) d)
            (unhex_pairs nibble (take (2 * m) (drop (i + 2) line))))" for v
    using Suc.IH [of "i + 2" "Suc k" "d[k := v]"] Suc.prems by simp
  have "idx line i = Some (line ! i)" "idx line (Suc i) = Some (line ! Suc i)"
    using Suc.prems by (simp_all add: run_simps)
  then show ?case
    using Suc.prems step
    by (auto simp: take_double_Suc run_simps option.map_comp comp_def simp del: mult_Suc_right
        split: option.splits)
qed simp

lemma parse_tx_eq: "parse_tx line = Some (parse_tx_ref line)"
proof (cases line)
  case (Cons c cs)
  show ?thesis
  proof (cases "tx_kind c")
    case None
    with Cons show ?thesis by (simp add: parse_tx_def parse_tx_ref_def)
  next
    case (Some kind)
    obtain ext rtr n where kind: "kind = (ext, rtr, n)" by (cases kind)
    show ?thesis
    proof (cases "length cs < n + 1")
      case True
      with Cons Some kind show ?thesis by (simp add: parse_tx_def parse_tx_ref_def)
    next
      case False
      then have "slice (c # cs) 1 (1 + n) = Some (take n cs)" "idx (c # cs) (1 + n) = Some (cs ! n)"
        by (simp_all add: run_simps)
      moreover have "unat dlc \<le> 8" if "\<not> 8 < dlc" for dlc :: u8
        using that by (simp add: word_less_nat_alt not_less)
      moreover have "parse_data (c # cs) (1 + n + 1) 0 m (replicate 8 0) =
          Some (map_option (\<lambda>bs. bs @ replicate (8 - m) 0)
            (unhex_pairs nibble (take (2 * m) (drop (n + 1) cs))))"
        if "n + 1 + 2 * m \<le> length cs" "m \<le> 8" for m
        using that parse_data_unhex [of "1 + n + 1" m "c # cs" 0 "replicate 8 0"] by simp
      ultimately show ?thesis
        using False Cons Some kind
        by (auto simp: parse_tx_def parse_tx_ref_def parse_hex_eq CanFrame_default_def Let_def
            try_opt_def not_less mult.commute split: option.splits)
    qed
  qed
qed (simp add: parse_tx_def parse_tx_ref_def)

section \<open>Properties\<close>

text \<open>
  A frame is canonical when its id fits the id field of its kind and the bytes past the payload are
  the zeroes of the default frame: the frames that \<^verbatim>\<open>parse_tx\<close> can return.
\<close>

definition canonical_frame :: "CanFrame \<Rightarrow> bool" where
  "canonical_frame f \<longleftrightarrow>
     wf_frame f \<and> (\<not> f_ext f \<longrightarrow> f_id f < 0x1000) \<and>
     f_data f = payload f @ replicate (8 - length (payload f)) 0"

lemma canonical_id: "canonical_frame f \<Longrightarrow> take_bit (4 * id_len f) (f_id f) = f_id f"
proof -
  assume "canonical_frame f"
  then have "unat (f_id f) < 2 ^ (4 * id_len f)"
    using unsigned_less [where ?'b = 32 and ?'a = nat, of "f_id f"]
    by (auto simp: canonical_frame_def id_len_def word_less_nat_alt)
  then have "take_bit (4 * id_len f) (unat (f_id f)) = unat (f_id f)"
    by (simp add: take_bit_nat_eq_self)
  then have "unat (take_bit (4 * id_len f) (f_id f)) = unat (f_id f)"
    by (simp add: unsigned_take_bit_eq)
  then show ?thesis by (rule unsigned_word_eqI)
qed

lemma tx_kind_tag: "tx_kind (frame_tag f) = Some (f_ext f, f_rtr f, id_len f)"
  by (cases "f_ext f"; cases "f_rtr f") (simp_all add: tx_kind_def frame_tag_def id_len_def)

lemma nibble_dlc: "wf_frame f \<Longrightarrow> nibble (hex_digit (f_dlc f)) = Some (f_dlc f)"
  by (simp add: nibble_hex_digit nibble_mask wf_frame_def word_less_nat_alt)

lemma parse_frame_ascii:
  assumes "canonical_frame f"
  shows "parse_tx_ref (butlast (frame_ascii f None)) = Some f"
proof -
  have wf: "wf_frame f" using assms by (simp add: canonical_frame_def)
  have "hex_acc nibble (hex_digits hex_digit (id_len f) (f_id f)) 0 = Some (f_id f)"
    by (simp add: slcan_hex.hex_acc_enc canonical_id [OF assms])
  moreover have "\<not> 8 < f_dlc f" using wf by (simp add: wf_frame_def word_less_nat_alt)
  moreover have "payload f = [] \<Longrightarrow> f_data f = replicate 8 0"
    using assms by (simp add: canonical_frame_def)
  moreover have "\<not> f_rtr f \<Longrightarrow> payload f @ replicate (8 - unat (f_dlc f)) 0 = f_data f"
    using assms length_payload [OF wf] by (simp add: canonical_frame_def)
  moreover have "f_rtr f \<Longrightarrow> payload f = []" by (simp add: payload_def)
  ultimately show ?thesis
    using length_payload [OF wf]
    by (auto simp: frame_ascii_def parse_tx_ref_def tx_kind_tag nibble_dlc [OF wf] nth_append
        slcan_hex.unhex_hex_pairs butlast_append)
qed

lemma format_frame_result:
  assumes "wf_frame f" "length (frame_ascii f ts) \<le> length out"
  shows "format_frame f ts out =
    Some (frame_ascii f ts @ drop (length (frame_ascii f ts)) out, length (frame_ascii f ts))"
  using puts_Some [of 0 "frame_ascii f ts" out] assms by (simp add: format_frame_puts)

lemma length_frame_ascii_le:
  "wf_frame f \<Longrightarrow> length (frame_ascii f ts) \<le> 31"
  by (auto simp: length_frame_ascii id_len_def wf_frame_def)

text \<open>
  C5.  Formatting a frame without timestamp into a buffer of the size the callers use and parsing
  the line up to (without) its CR gives the frame back, for every frame the parser can produce.
\<close>

theorem format_parse_roundtrip:
  assumes "canonical_frame f" "MAX_FRAME_ASCII \<le> length out"
  shows "\<exists>out' n. format_frame f None out = Some (out', n) \<and> parse_tx (take (n - 1) out') = Some (Some f)"
proof -
  have wf: "wf_frame f" using assms(1) by (simp add: canonical_frame_def)
  have "format_frame f None out = Some (frame_ascii f None @ drop (length (frame_ascii f None)) out,
      length (frame_ascii f None))"
    using format_frame_result [OF wf] length_frame_ascii_le [OF wf, of None] assms(2)
    by (simp add: MAX_FRAME_ASCII_def)
  moreover have "take (length (frame_ascii f None) - 1) (frame_ascii f None @ xs)
      = butlast (frame_ascii f None)" for xs
    by (simp add: butlast_conv_take)
  ultimately show ?thesis using parse_frame_ascii [OF assms(1)] by (simp add: parse_tx_eq)
qed

theorem format_parse_roundtrip_witness:
  "\<exists>out' n. format_frame \<lparr>f_id = 0x123, f_ext = False, f_rtr = False, f_dlc = 2,
       f_data = [0xDE, 0xAD, 0, 0, 0, 0, 0, 0]\<rparr> None (replicate 32 0) = Some (out', n) \<and>
     parse_tx (take (n - 1) out') = Some (Some \<lparr>f_id = 0x123, f_ext = False, f_rtr = False,
       f_dlc = 2, f_data = [0xDE, 0xAD, 0, 0, 0, 0, 0, 0]\<rparr>)"
  by (rule format_parse_roundtrip)
    (simp_all add: canonical_frame_def wf_frame_def payload_def MAX_FRAME_ASCII_def replicate_numeral_unfold)


lemma hex_digit_range: "asc CHR ''0'' \<le> hex_digit v \<and> hex_digit v \<le> asc CHR ''F''"
proof -
  have "v AND 15 < 16" by simp
  then show ?thesis by (rule nibble_cases) (simp_all add: hex_digit_def)
qed

lemma hex_digit_not_control [simp]: "hex_digit v \<noteq> CR" "hex_digit v \<noteq> BELL" "hex_digit v \<noteq> 0x0a"
  using hex_digit_range [of v] by (auto simp: CR_def BELL_def)

lemma frame_tag_not_control [simp]: "frame_tag f \<noteq> CR" "frame_tag f \<noteq> BELL" "frame_tag f \<noteq> 0x0a"
  by (cases "f_ext f"; cases "f_rtr f"; simp add: frame_tag_def CR_def BELL_def)+

lemmas not_control_sym [simp] =
  hex_digit_not_control [THEN not_sym] frame_tag_not_control [THEN not_sym]

lemma set_hex_pairs: "set (hex_pairs hex_digit bs) \<subseteq> range hex_digit"
  by (induction bs) auto

lemma set_hex_digits: "set (hex_digits hex_digit n v) \<subseteq> range hex_digit"
  by (auto simp: hex_digits_def)

lemma frame_ascii_body:
  obtains body where "frame_ascii f ts = body @ [CR]"
    "CR \<notin> set body \<and> BELL \<notin> set body \<and> 0x0a \<notin> set body"
proof -
  have digit: "b \<noteq> CR \<and> b \<noteq> BELL \<and> b \<noteq> 0x0a" if "b \<in> range hex_digit" for b
    using that by auto
  have frame_ascii: "frame_ascii f ts = (frame_tag f # hex_digits hex_digit (id_len f) (f_id f)
      @ hex_digit (f_dlc f) # hex_pairs hex_digit (payload f)
      @ (case ts of None \<Rightarrow> [] | Some t \<Rightarrow> hex_digits hex_digit 4 t)) @ [CR]"
    by (simp add: frame_ascii_def)
  show thesis
    by (rule that [OF frame_ascii])
      (auto dest!: set_hex_digits [THEN subsetD] set_hex_pairs [THEN subsetD] digit split: option.splits)
qed

text \<open>
  C31.  The formatter never panics on a well-formed frame and a buffer of \<^verbatim>\<open>MAX_FRAME_ASCII\<close> bytes,
  with or without a timestamp: it writes one line, at most 31 bytes long, whose only CR is its last
  byte and which holds no BELL and no LF, so a host that splits the stream at CR sees one frame.
\<close>

theorem format_frame_one_line:
  assumes "wf_frame f" "MAX_FRAME_ASCII \<le> length out"
  shows "\<exists>out' n body. format_frame f ts out = Some (out', n) \<and> length out' = length out \<and>
     n = 3 + id_len f + (if f_rtr f then 0 else 2 * unat (f_dlc f)) + (if ts = None then 0 else 4) \<and>
     n \<le> 31 \<and> take n out' = body @ [CR] \<and> CR \<notin> set body \<and> BELL \<notin> set body \<and> 0x0a \<notin> set body"
proof -
  obtain body where "frame_ascii f ts = body @ [CR]"
    "CR \<notin> set body \<and> BELL \<notin> set body \<and> 0x0a \<notin> set body"
    by (rule frame_ascii_body)
  then show ?thesis
    using format_frame_result [OF assms(1), of ts out] length_frame_ascii_le [OF assms(1), of ts]
      length_frame_ascii [OF assms(1), of ts] assms(2)
    by (simp add: MAX_FRAME_ASCII_def)
qed

theorem format_frame_one_line_witness:
  "\<exists>out' n body. format_frame \<lparr>f_id = 0x1FFFFFFF, f_ext = True, f_rtr = False, f_dlc = 8,
       f_data = replicate 8 0x0d\<rparr> (Some 59999) (replicate 32 0) = Some (out', n) \<and>
     length out' = 32 \<and> n = 31 \<and> n \<le> 31 \<and> take n out' = body @ [CR] \<and>
     CR \<notin> set body \<and> BELL \<notin> set body \<and> 0x0a \<notin> set body"
  using format_frame_one_line [of "\<lparr>f_id = 0x1FFFFFFF, f_ext = True, f_rtr = False, f_dlc = 8,
       f_data = replicate 8 0x0d\<rparr>" "replicate 32 0" "Some 59999"]
  by (simp add: wf_frame_def id_len_def MAX_FRAME_ASCII_def)

lemma tx_kind_tag_inv: "tx_kind c = Some (f_ext f, f_rtr f, n) \<Longrightarrow> frame_tag f = c \<and> id_len f = n"
  by (auto simp: tx_kind_def frame_tag_def id_len_def split: if_splits)

lemma take_bit_id_lt: "take_bit 12 (v::u32) = v \<Longrightarrow> v < 0x1000"
proof -
  assume "take_bit 12 v = v"
  then have "unat v = take_bit 12 (unat v)" by (metis unsigned_take_bit_eq nat_le_linear)
  then have "unat v < 2 ^ 12" by (metis take_bit_nat_less_exp)
  then show ?thesis by (simp add: word_less_nat_alt)
qed


lemma parse_tx_refE:
  assumes "parse_tx_ref line = Some f"
  obtains c cs ext rtr n dlc where "line = c # cs" "tx_kind c = Some (ext, rtr, n)"
    "n + 1 \<le> length cs" "hex_acc nibble (take n cs) 0 = Some (f_id f)"
    "nibble (cs ! n) = Some dlc" "\<not> 8 < dlc" "f_ext f = ext" "f_rtr f = rtr" "f_dlc f = dlc"
    "rtr \<and> f_data f = replicate 8 0 \<or> \<not> rtr \<and> n + 1 + 2 * unat dlc \<le> length cs \<and>
      (\<exists>bs. unhex_pairs nibble (take (2 * unat dlc) (drop (n + 1) cs)) = Some bs \<and>
            f_data f = bs @ replicate (8 - unat dlc) 0)"
proof -
  obtain c cs ext rtr n where line: "line = c # cs" and kind: "tx_kind c = Some (ext, rtr, n)"
    using assms by (cases line) (auto simp: parse_tx_ref_def bind_eq_Some_conv)
  show thesis
    using assms line kind that
    by (fastforce simp: parse_tx_ref_def bind_eq_Some_conv not_less split: if_splits)
qed

lemma parse_tx_ref_canonical:
  assumes "parse_tx_ref line = Some f"
  shows "canonical_frame f" and "length (frame_ascii f None) \<le> length line + 1"
    and "frame_ascii f None =
      hd line # map to_upper (take (length (frame_ascii f None) - 2) (tl line)) @ [CR]"
proof -
  obtain c cs ext rtr n dlc where line: "line = c # cs"
    and kind: "tx_kind c = Some (ext, rtr, n)" and len: "n + 1 \<le> length cs"
    and ids: "hex_acc nibble (take n cs) 0 = Some (f_id f)"
    and dlc: "nibble (cs ! n) = Some dlc" and dlc8: "\<not> 8 < dlc"
    and flags: "f_ext f = ext" "f_rtr f = rtr" "f_dlc f = dlc"
    and bytes: "rtr \<and> f_data f = replicate 8 0 \<or> \<not> rtr \<and> n + 1 + 2 * unat dlc \<le> length cs \<and>
      (\<exists>bs. unhex_pairs nibble (take (2 * unat dlc) (drop (n + 1) cs)) = Some bs \<and>
            f_data f = bs @ replicate (8 - unat dlc) 0)"
    by (rule parse_tx_refE [OF assms])
  have tag: "frame_tag f = c" "id_len f = n" using tx_kind_tag_inv [of c f n] kind flags by simp_all
  have n8: "n \<le> 8" using tag by (auto simp: id_len_def split: if_splits)
  have d8: "unat dlc \<le> 8" using dlc8 by (simp add: word_less_nat_alt)
  have pay: "length (payload f) = (if rtr then 0 else unat dlc) \<and>
      n + 1 + 2 * length (payload f) \<le> length cs \<and>
      hex_pairs hex_digit (payload f) = map to_upper (take (2 * length (payload f)) (drop (n + 1) cs)) \<and>
      f_data f = payload f @ replicate (8 - length (payload f)) 0"
    using bytes len d8 flags slcan_hex.hex_unhex_pairs length_unhex_pairs
    by (fastforce simp: payload_def)
  have wf: "wf_frame f" using pay d8 flags by (auto simp: wf_frame_def)
  have "hex_digits hex_digit n (f_id f) = map to_upper (take n cs)"
    using slcan_hex.hex_acc_canonical [OF ids] len n8 by simp
  moreover have "hex_digit dlc = to_upper (cs ! n)" using hex_digit_nibble [OF dlc] by simp
  moreover have "take (n + 1 + 2 * length (payload f)) cs =
      take n cs @ cs ! n # take (2 * length (payload f)) (drop (n + 1) cs)"
    using len take_add [of "n + 1" "2 * length (payload f)" cs] by (simp add: take_Suc_conv_app_nth)
  moreover have total: "length (frame_ascii f None) = n + 3 + 2 * length (payload f)"
    by (simp add: frame_ascii_def tag)
  ultimately show "frame_ascii f None =
      hd line # map to_upper (take (length (frame_ascii f None) - 2) (tl line)) @ [CR]"
    using pay flags by (simp add: frame_ascii_def tag line)
  show "length (frame_ascii f None) \<le> length line + 1" using pay total by (simp add: line)
  have "\<not> f_ext f \<Longrightarrow> n = 3" using tag by (simp add: id_len_def)
  then have "\<not> f_ext f \<Longrightarrow> f_id f < 0x1000"
    using slcan_hex.hex_acc_bound [OF ids] len take_bit_id_lt by simp
  then show "canonical_frame f" using pay wf by (simp add: canonical_frame_def)
qed


text \<open>
  Bytes after a complete frame are ignored: a line that is accepted stays accepted, with the
  same frame, whatever follows it before the CR.
\<close>

lemma parse_tx_ignores_trailing:
  assumes "parse_tx line = Some (Some f)"
  shows "parse_tx (line @ junk) = Some (Some f)"
proof -
  have "parse_tx_ref line = Some f" using assms by (simp add: parse_tx_eq)
  then show ?thesis
  proof (rule parse_tx_refE)
    fix c cs ext rtr n dlc
    assume "line = c # cs" "tx_kind c = Some (ext, rtr, n)" "n + 1 \<le> length cs"
      "hex_acc nibble (take n cs) 0 = Some (f_id f)" "nibble (cs ! n) = Some dlc" "\<not> 8 < dlc"
      "f_ext f = ext" "f_rtr f = rtr" "f_dlc f = dlc"
      "rtr \<and> f_data f = replicate 8 0 \<or> \<not> rtr \<and> n + 1 + 2 * unat dlc \<le> length cs \<and>
        (\<exists>bs. unhex_pairs nibble (take (2 * unat dlc) (drop (n + 1) cs)) = Some bs \<and>
              f_data f = bs @ replicate (8 - unat dlc) 0)"
    then show ?thesis by (auto simp: parse_tx_eq parse_tx_ref_def nth_append)
  qed
qed

text \<open>The case of the hexadecimal digits does not matter.\<close>

lemma nibble_to_upper [simp]: "nibble (to_upper c) = nibble c"
proof (cases "0x61 \<le> c \<and> c \<le> 0x7a")
  case True
  then have "unat (c - 32) = unat c - 32" "97 \<le> unat c" "unat c \<le> 122"
    by (simp_all add: word_le_nat_alt unat_sub)
  with True show ?thesis by (auto simp: nibble_def to_upper_def word_le_nat_alt)
qed (auto simp: to_upper_def)

lemma hex_acc_to_upper [simp]: "hex_acc nibble (map to_upper cs) v = hex_acc nibble cs v"
  by (induction cs arbitrary: v) (simp_all split: option.split)

lemma unhex_pairs_to_upper [simp]: "unhex_pairs nibble (map to_upper cs) = unhex_pairs nibble cs"
  by (induction "nibble" cs rule: unhex_pairs.induct) (simp_all split: option.split)

lemma parse_tx_ref_to_upper: "parse_tx_ref (c # map to_upper cs) = parse_tx_ref (c # cs)"
proof (cases "tx_kind c")
  case (Some k)
  obtain ext rtr n where k: "k = (ext, rtr, n)" by (cases k)
  show ?thesis
  proof (cases "length cs < n + 1")
    case False
    then have "map to_upper cs ! n = to_upper (cs ! n)" by simp
    then show ?thesis using Some k
      by (cases "hex_acc nibble (take n cs) 0"; cases "nibble (cs ! n)") (simp_all add: parse_tx_ref_def take_map drop_map)
  qed (simp add: parse_tx_ref_def Some k)
qed (simp add: parse_tx_ref_def)

lemma parse_tx_ref_text:
  assumes "parse_tx_ref line = Some f"
  shows "\<exists>c cs junk. line = c # cs @ junk \<and> c # map to_upper cs @ [CR] = frame_ascii f None"
proof -
  note printed = parse_tx_ref_canonical [OF assms]
  obtain c r where line: "line = c # r" using assms by (cases line) (simp_all add: parse_tx_ref_def)
  let ?n = "length (frame_ascii f None) - 2"
  have "line = c # take ?n r @ drop ?n r" by (simp add: line)
  moreover have "c # map to_upper (take ?n r) @ [CR] = frame_ascii f None" using printed(3) by (simp add: line)
  ultimately show ?thesis by blast
qed

text \<open>
  C17.  The parser accepts exactly the transmit commands.  On any line it returns and never panics, and
  it gives a frame exactly if the frame is canonical (its id fits its digits, its length is at most 8,
  unused data bytes are zero) and the line begins with the text of that frame: type letter, id, length
  and data digits, the digits in either case.  Whatever follows that text is ignored.  So every line of
  the format is accepted, nothing else is, and the frame is the one the line says.
\<close>

theorem parse_tx_exact:
  "parse_tx line \<noteq> None \<and>
   (\<forall>f. parse_tx line = Some (Some f) \<longleftrightarrow>
      canonical_frame f \<and> (\<exists>c cs junk. line = c # cs @ junk \<and> c # map to_upper cs @ [CR] = frame_ascii f None))"
proof -
  have "parse_tx_ref line = Some f"
    if f: "canonical_frame f" and l: "line = c # cs @ junk" "c # map to_upper cs @ [CR] = frame_ascii f None" for f c cs junk
  proof -
    have "butlast (frame_ascii f None) = c # map to_upper cs" by (simp add: l(2) [symmetric] butlast_append)
    then have "parse_tx_ref (c # cs) = Some f" using parse_frame_ascii [OF f] parse_tx_ref_to_upper by simp
    then show ?thesis using parse_tx_ignores_trailing [of "c # cs" f junk] by (simp add: parse_tx_eq l(1))
  qed
  moreover have "canonical_frame f" if "parse_tx_ref line = Some f" for f using parse_tx_ref_canonical(1) [OF that] .
  ultimately show ?thesis using parse_tx_ref_text [of line] unfolding parse_tx_eq by blast
qed

end
