(* ===== verification/Can.thy ===== *)
theory Can
  imports Slcan
begin

text \<open>
  The shared CAN controller of \<^verbatim>\<open>src/can.rs\<close>: bit-rate table, open/close with a use count, bounded
  transmit, status byte, receive polling.

  The TWAI driver of esp-hal and the frame and id types of embedded-can are not part of the
  repository.  They are the fields of a record of functions, \<open>twai_hal\<close>, an argument of every
  definition that calls them; what the firmware relies on is the predicate \<open>hal_ok\<close>.
\<close>

section \<open>Model\<close>

record TimingConfig =
  baud_rate_prescaler :: nat
  sync_jump_width :: nat
  tseg_1 :: nat
  tseg_2 :: nat
  triple_sample :: bool

datatype BaudRate = B125K | B250K | B500K | B1000K | Custom TimingConfig

datatype TwaiMode = Normal | ListenOnly

datatype CanId = Standard u16 | Extended u32

datatype nb_result = NbOk | WouldBlock | OtherError

text \<open>\<open>'t\<close> is the state of a started controller, \<open>'f\<close> an \<^verbatim>\<open>EspTwaiFrame\<close>.\<close>

record ('t, 'f) twai_hal =
  twai_start :: "BaudRate \<Rightarrow> TwaiMode \<Rightarrow> 't"
  twai_transmit :: "'t \<Rightarrow> 'f \<Rightarrow> nb_result \<times> 't"
  twai_receive :: "'t \<Rightarrow> 'f option \<times> 't"
  receive_error_count :: "'t \<Rightarrow> u8"
  transmit_error_count :: "'t \<Rightarrow> u8"
  is_bus_off :: "'t \<Rightarrow> bool"
  StandardId_new :: "u16 \<Rightarrow> u16 option"
  ExtendedId_new :: "u32 \<Rightarrow> u32 option"
  Frame_new :: "CanId \<Rightarrow> bytes \<Rightarrow> 'f option"
  Frame_new_remote :: "CanId \<Rightarrow> nat \<Rightarrow> 'f option"
  frame_id :: "'f \<Rightarrow> CanId"
  frame_is_remote :: "'f \<Rightarrow> bool"
  frame_dlc :: "'f \<Rightarrow> nat"
  frame_data :: "'f \<Rightarrow> bytes"

text \<open>The counters (all \<^verbatim>\<open>AtomicU32\<close>, so \<^verbatim>\<open>fetch_add\<close> wraps) and the manager.\<close>

record counters =
  RX_COUNT :: u32
  TX_COUNT :: u32
  SER_IN :: u32
  SER_OUT :: u32
  TCP_IN :: u32
  TCP_OUT :: u32

definition counters_init :: counters where
  "counters_init = \<lparr>RX_COUNT = 0, TX_COUNT = 0, SER_IN = 0, SER_OUT = 0, TCP_IN = 0, TCP_OUT = 0\<rparr>"

record 't CanManager =
  twai :: "'t option"
  baud :: BaudRate
  open_count :: u32

definition DEFAULT_BAUD :: BaudRate where "DEFAULT_BAUD = B500K"

definition CanManager_new :: "'t CanManager" where
  "CanManager_new = \<lparr>twai = None, baud = DEFAULT_BAUD, open_count = 0\<rparr>"

definition baud_from_s :: "u8 \<Rightarrow> BaudRate option" where
  "baud_from_s digit =
     (if digit = asc CHR ''2'' then
        Some (Custom \<lparr>baud_rate_prescaler = 80, sync_jump_width = 3, tseg_1 = 15, tseg_2 = 4,
                      triple_sample = False\<rparr>)
      else if digit = asc CHR ''3'' then
        Some (Custom \<lparr>baud_rate_prescaler = 40, sync_jump_width = 3, tseg_1 = 15, tseg_2 = 4,
                      triple_sample = False\<rparr>)
      else if digit = asc CHR ''4'' then Some B125K
      else if digit = asc CHR ''5'' then Some B250K
      else if digit = asc CHR ''6'' then Some B500K
      else if digit = asc CHR ''7'' then
        Some (Custom \<lparr>baud_rate_prescaler = 4, sync_jump_width = 3, tseg_1 = 16, tseg_2 = 8,
                      triple_sample = False\<rparr>)
      else if digit = asc CHR ''8'' then Some B1000K
      else None)"

definition set_bitrate :: "u8 \<Rightarrow> 't CanManager \<Rightarrow> bool \<times> 't CanManager" where
  "set_bitrate digit m =
     (if open_count m \<noteq> 0 then (False, m)
      else case baud_from_s digit of
             Some b \<Rightarrow> (True, m\<lparr>baud := b\<rparr>)
           | None \<Rightarrow> (False, m))"

definition open_twai :: "('t, 'f) twai_hal \<Rightarrow> BaudRate \<Rightarrow> bool \<Rightarrow> 't" where
  "open_twai H b listen_only =
     (let mode = (if listen_only then ListenOnly else Normal) in twai_start H b mode)"

definition can_open :: "('t, 'f) twai_hal \<Rightarrow> bool \<Rightarrow> 't CanManager \<Rightarrow> 't CanManager" where
  "can_open H listen_only m =
     (let m = (if open_count m = 0 then m\<lparr>twai := Some (open_twai H (baud m) listen_only)\<rparr> else m)
      in m\<lparr>open_count := open_count m + 1\<rparr>)"

definition can_close :: "'t CanManager \<Rightarrow> 't CanManager" where
  "can_close m =
     (if 0 < open_count m then
        let m = m\<lparr>open_count := open_count m - 1\<rparr>
        in if open_count m = 0 then m\<lparr>twai := None\<rparr> else m
      else m)"

definition to_esp :: "('t, 'f) twai_hal \<Rightarrow> CanFrame \<Rightarrow> 'f option run" where
  "to_esp H f =
     try_opt (if f_ext f then map_option Extended (ExtendedId_new H (f_id f))
              else map_option Standard (StandardId_new H (ucast (f_id f)))) (\<lambda>i.
       if f_rtr f then Some (Frame_new_remote H i (unat (f_dlc f)))
       else do { d \<leftarrow> slice (f_data f) 0 (unat (f_dlc f)); Some (Frame_new H i d) })"

definition from_esp :: "('t, 'f) twai_hal \<Rightarrow> 'f \<Rightarrow> CanFrame run" where
  "from_esp H fr =
     (let f = CanFrame_default;
          f = (case frame_id H fr of
                 Standard s \<Rightarrow> f\<lparr>f_ext := False, f_id := ucast s\<rparr>
               | Extended e \<Rightarrow> f\<lparr>f_ext := True, f_id := e\<rparr>);
          f = f\<lparr>f_rtr := frame_is_remote H fr, f_dlc := of_nat (frame_dlc H fr)\<rparr>;
          d = frame_data H fr
      in do { x \<leftarrow> copy_prefix (f_data f) (length d) d; Some (f\<lparr>f_data := x\<rparr>) })"

definition TX_RETRIES :: nat where "TX_RETRIES = 50"

text \<open>The retry loop: \<open>tries\<close> is the loop's counter, which never passes \<^verbatim>\<open>TX_RETRIES + 1\<close>.\<close>

function try_transmit_loop :: "('t, 'f) twai_hal \<Rightarrow> 't \<Rightarrow> 'f \<Rightarrow> nat \<Rightarrow> bool \<times> 't" where
  "try_transmit_loop H tw fr tries =
     (case twai_transmit H tw fr of
        (NbOk, tw') \<Rightarrow> (True, tw')
      | (WouldBlock, tw') \<Rightarrow>
          (let tries' = tries + 1
           in if TX_RETRIES < tries' then (False, tw') else try_transmit_loop H tw' fr tries')
      | (OtherError, tw') \<Rightarrow> (False, tw'))"
  by pat_completeness auto
termination
  by (relation "measure (\<lambda>(H, tw, fr, tries). Suc TX_RETRIES - tries)") auto

declare try_transmit_loop.simps [simp del]

definition try_transmit :: "('t, 'f) twai_hal \<Rightarrow> 't \<Rightarrow> 'f \<Rightarrow> bool \<times> 't" where
  "try_transmit H tw fr = try_transmit_loop H tw fr 0"

definition transmit ::
  "('t, 'f) twai_hal \<Rightarrow> CanFrame \<Rightarrow> 't CanManager \<Rightarrow> counters \<Rightarrow> (bool \<times> 't CanManager \<times> counters) run" where
  "transmit H frame m c =
     (case twai m of
        None \<Rightarrow> Some (False, m, c)
      | Some tw \<Rightarrow>
          do { esp \<leftarrow> to_esp H frame;
               case esp of
                 None \<Rightarrow> Some (False, m, c)
               | Some fr \<Rightarrow>
                   (let (ok, tw') = try_transmit H tw fr;
                        m = m\<lparr>twai := Some tw'\<rparr>;
                        c = (if ok then c\<lparr>TX_COUNT := TX_COUNT c + 1\<rparr> else c)
                    in Some (ok, m, c)) })"

definition status_flags :: "('t, 'f) twai_hal \<Rightarrow> 't CanManager \<Rightarrow> u8" where
  "status_flags H m =
     (case twai m of
        None \<Rightarrow> 0
      | Some tw \<Rightarrow>
          let rec = receive_error_count H tw; tec = transmit_error_count H tw;
              f = 0;
              f = (if 96 \<le> rec \<or> 96 \<le> tec then f OR push_bit 2 1 else f);
              f = (if 128 \<le> rec \<or> 128 \<le> tec then f OR push_bit 5 1 else f);
              f = (if is_bus_off H tw then f OR push_bit 7 1 else f)
          in f)"

definition poll_rx ::
  "('t, 'f) twai_hal \<Rightarrow> 't CanManager \<Rightarrow> counters \<Rightarrow> (CanFrame option \<times> 't CanManager \<times> counters) run" where
  "poll_rx H m c =
     (case twai m of
        None \<Rightarrow> Some (None, m, c)
      | Some tw \<Rightarrow>
          (case twai_receive H tw of
             (Some fr, tw') \<Rightarrow>
               do { f \<leftarrow> from_esp H fr;
                    Some (Some f, m\<lparr>twai := Some tw'\<rparr>, c\<lparr>RX_COUNT := RX_COUNT c + 1\<rparr>) }
           | (None, tw') \<Rightarrow> Some (None, m\<lparr>twai := Some tw'\<rparr>, c)))"

text \<open>
  One round of \<^verbatim>\<open>can_rx_task\<close> while it holds the lock: at most 16 polls, each received frame
  published in order.  The result lists the published frames; the task sleeps 1 ms when it is empty.
\<close>

fun rx_burst ::
  "nat \<Rightarrow> ('t, 'f) twai_hal \<Rightarrow> 't CanManager \<Rightarrow> counters \<Rightarrow> (CanFrame list \<times> 't CanManager \<times> counters) run" where
  "rx_burst 0 H m c = Some ([], m, c)"
| "rx_burst (Suc n) H m c =
     do { (r, m, c) \<leftarrow> poll_rx H m c;
          case r of
            Some f \<Rightarrow> do { (fs, m, c) \<leftarrow> rx_burst n H m c; Some (f # fs, m, c) }
          | None \<Rightarrow> Some ([], m, c) }"

definition can_rx_round ::
  "('t, 'f) twai_hal \<Rightarrow> 't CanManager \<Rightarrow> counters \<Rightarrow> (CanFrame list \<times> 't CanManager \<times> counters) run" where
  "can_rx_round H m c = rx_burst 16 H m c"

section \<open>What the firmware relies on of the driver crates\<close>

text \<open>
  embedded-can: an id constructor accepts exactly the raw values of its width; a data frame can be
  built from at most 8 bytes and reads back what it was built from; a remote frame has a length code
  of at most 8 and no data.  Every frame the driver hands out obeys the same bounds.
\<close>

definition hal_ids_ok :: "('t, 'f) twai_hal \<Rightarrow> bool" where
  "hal_ids_ok H \<longleftrightarrow>
     (\<forall>r. StandardId_new H r = (if r \<le> 0x7FF then Some r else None)) \<and>
     (\<forall>r. ExtendedId_new H r = (if r \<le> 0x1FFFFFFF then Some r else None))"

definition hal_bounds_ok :: "('t, 'f) twai_hal \<Rightarrow> bool" where
  "hal_bounds_ok H \<longleftrightarrow>
     (\<forall>fr. frame_dlc H fr \<le> 8 \<and> length (frame_data H fr) = (if frame_is_remote H fr then 0 else frame_dlc H fr))"

definition hal_frames_ok :: "('t, 'f) twai_hal \<Rightarrow> bool" where
  "hal_frames_ok H \<longleftrightarrow>
     (\<forall>i d. length d \<le> 8 \<longrightarrow> (\<exists>fr. Frame_new H i d = Some fr \<and> frame_id H fr = i \<and>
        \<not> frame_is_remote H fr \<and> frame_dlc H fr = length d \<and> frame_data H fr = d)) \<and>
     (\<forall>i n. n \<le> 8 \<longrightarrow> (\<exists>fr. Frame_new_remote H i n = Some fr \<and> frame_id H fr = i \<and>
        frame_is_remote H fr \<and> frame_dlc H fr = n \<and> frame_data H fr = []))"

definition hal_ok :: "('t, 'f) twai_hal \<Rightarrow> bool" where
  "hal_ok H \<longleftrightarrow> hal_ids_ok H \<and> hal_bounds_ok H \<and> hal_frames_ok H"

text \<open>
  A loop-back driver, the instance on which the properties with a driver hypothesis are exercised:
  its state is the queue of frames sent and not yet received.
\<close>

type_synonym demo_frame = "CanId \<times> bool \<times> nat \<times> bytes"

definition loopback_hal :: "(demo_frame list, demo_frame) twai_hal" where
  "loopback_hal =
     \<lparr>twai_start = (\<lambda>_ _. []),
      twai_transmit = (\<lambda>q fr. (NbOk, q @ [fr])),
      twai_receive = (\<lambda>q. case q of [] \<Rightarrow> (None, []) | fr # q' \<Rightarrow> (Some fr, q')),
      receive_error_count = (\<lambda>_. 0),
      transmit_error_count = (\<lambda>_. 0),
      is_bus_off = (\<lambda>_. False),
      StandardId_new = (\<lambda>r. if r \<le> 0x7FF then Some r else None),
      ExtendedId_new = (\<lambda>r. if r \<le> 0x1FFFFFFF then Some r else None),
      Frame_new = (\<lambda>i d. if length d \<le> 8 then Some (i, False, length d, d) else None),
      Frame_new_remote = (\<lambda>i n. if n \<le> 8 then Some (i, True, n, []) else None),
      frame_id = fst,
      frame_is_remote = (\<lambda>(i, r, n, d). r),
      frame_dlc = (\<lambda>(i, r, n, d). if r then min n 8 else min (length d) 8),
      frame_data = (\<lambda>(i, r, n, d). if r then [] else take 8 d)\<rparr>"

lemma loopback_hal_ok: "hal_ok loopback_hal"
  by (auto simp: hal_ok_def hal_ids_ok_def hal_bounds_ok_def hal_frames_ok_def loopback_hal_def)

lemma twai_open_loopback: "twai (can_open loopback_hal l CanManager_new) = Some []"
  by (simp add: can_open_def open_twai_def CanManager_new_def loopback_hal_def)

section \<open>The channel as a counted resource\<close>

text \<open>
  What a port relies on: the channel is active while it has users, acquiring adds a user and
  releasing removes one.  From these laws, the number of users follows the set of ports that hold
  the channel open.
\<close>

locale shared_channel =
  fixes users :: "'s \<Rightarrow> nat" and active :: "'s \<Rightarrow> bool"
    and acquire :: "bool \<Rightarrow> 's \<Rightarrow> 's" and release :: "'s \<Rightarrow> 's"
    and ok :: "'s \<Rightarrow> bool" and cap :: nat
  assumes active_iff: "ok s \<Longrightarrow> active s \<longleftrightarrow> 0 < users s"
    and users_acquire: "ok s \<Longrightarrow> users s < cap \<Longrightarrow> users (acquire l s) = users s + 1"
    and users_release: "ok s \<Longrightarrow> users (release s) = users s - 1"
    and ok_acquire: "ok s \<Longrightarrow> users s < cap \<Longrightarrow> ok (acquire l s)"
    and ok_release: "ok s \<Longrightarrow> ok (release s)"
begin

lemma acquire_counts_holder:
  assumes "ok s" "users s = card {p. holds p}" "\<not> holds q" "finite (UNIV :: 'p set)"
    "card (UNIV :: 'p set) \<le> cap"
  shows "users (acquire l s) = card {p :: 'p. (holds(q := True)) p} \<and> ok (acquire l s)"
proof -
  have fin: "finite {p. holds p}" using assms(4) by (rule rev_finite_subset) simp
  have "{p. holds p} \<subset> UNIV" using assms(3) by auto
  then have "card {p. holds p} < card (UNIV :: 'p set)" by (rule psubset_card_mono [OF assms(4)])
  then have "users s < cap" using assms(2,5) by simp
  moreover have "{p. (holds(q := True)) p} = insert q {p. holds p}" by auto
  moreover have "q \<notin> {p. holds p}" using assms(3) by simp
  ultimately show ?thesis
    using fin users_acquire [OF assms(1)] ok_acquire [OF assms(1)] assms(2) by simp
qed

lemma release_counts_holder:
  assumes "ok s" "users s = card {p. holds p}" "holds q" "finite (UNIV :: 'p set)"
  shows "users (release s) = card {p :: 'p. (holds(q := False)) p} \<and> ok (release s)"
proof -
  have fin: "finite {p. holds p}" using assms(4) by (rule rev_finite_subset) simp
  moreover have "{p. (holds(q := False)) p} = {p. holds p} - {q}" by auto
  ultimately show ?thesis
    using users_release [OF assms(1)] ok_release [OF assms(1)] assms(2,3)
    by (simp add: card_Diff_singleton)
qed

lemma active_iff_held:
  assumes "ok s" "users s = card {p :: 'p. holds p}" "finite (UNIV :: 'p set)"
  shows "active s \<longleftrightarrow> (\<exists>p. holds p)"
proof -
  have "finite {p. holds p}" using assms(3) by (rule rev_finite_subset) simp
  then show ?thesis using assms(1,2) active_iff by (auto simp: card_gt_0_iff)
qed

end

definition can_inv :: "'t CanManager \<Rightarrow> bool" where
  "can_inv m \<longleftrightarrow> (twai m = None \<longleftrightarrow> open_count m = 0)"

lemma unat_u32_max: "unat (n::u32) < 2 ^ 32 - 1 \<Longrightarrow> n + 1 \<noteq> 0 \<and> unat (n + 1) = unat n + 1"
proof -
  assume "unat n < 2 ^ 32 - 1"
  then have "unat (n + 1) = unat n + 1" by (simp add: unat_word_ariths)
  then show ?thesis by (metis add_is_0 one_neq_zero unat_0)
qed

interpretation can_chan: shared_channel
  "\<lambda>m. unat (open_count m)" "\<lambda>m. twai m \<noteq> None" "can_open H" can_close can_inv "2 ^ 32 - 1"
  for H :: "('t, 'f) twai_hal"
proof (unfold_locales, goal_cases)
  case (1 m)
  then show ?case by (simp add: can_inv_def unat_gt_0)
next
  case (2 m l)
  then show ?case using unat_u32_max [of "open_count m"] by (simp add: can_open_def)
next
  case (3 m)
  then show ?case by (auto simp: can_close_def Let_def word_gt_0) unat_arith+
next
  case (4 m l)
  then show ?case using unat_u32_max [of "open_count m"] by (auto simp: can_open_def can_inv_def)
next
  case (5 m)
  then show ?case by (auto simp: can_close_def can_inv_def Let_def word_gt_0)
qed

section \<open>Properties\<close>

subsection \<open>Frames across the driver boundary\<close>

definition id_in_range :: "CanFrame \<Rightarrow> bool" where
  "id_in_range f \<longleftrightarrow> (if f_ext f then f_id f \<le> 0x1FFFFFFF else f_id f \<le> 0x7FF)"

lemma ucast_std_id: "f_id f < 0x1000 \<Longrightarrow> unat (ucast (f_id f) :: u16) = unat (f_id f)"
  by (simp add: unsigned_ucast_eq take_bit_nat_eq_self word_less_nat_alt)

lemma std_id_le: "f_id f < 0x1000 \<Longrightarrow> (ucast (f_id f) :: u16) \<le> 0x7FF \<longleftrightarrow> f_id f \<le> 0x7FF"
  by (simp add: ucast_std_id word_le_nat_alt)

lemma std_id_back: "f_id f < 0x1000 \<Longrightarrow> (ucast (ucast (f_id f) :: u16) :: u32) = f_id f"
  by (rule unsigned_word_eqI [where ?'a = nat])
    (simp add: unsigned_ucast_eq ucast_std_id take_bit_nat_eq_self word_less_nat_alt unsigned_take_bit_eq)

lemma from_esp_frame:
  assumes "frame_is_remote H fr = r" "frame_dlc H fr = n" "frame_data H fr = d" "length d \<le> 8"
  shows "from_esp H fr = Some \<lparr>f_id = (case frame_id H fr of Standard s \<Rightarrow> ucast s | Extended e \<Rightarrow> e),
      f_ext = (case frame_id H fr of Standard s \<Rightarrow> False | Extended e \<Rightarrow> True),
      f_rtr = r, f_dlc = of_nat n, f_data = d @ replicate (8 - length d) 0\<rparr>"
  using assms by (cases "frame_id H fr") (simp_all add: from_esp_def CanFrame_default_def copy_prefix_def)

lemma from_esp_wf: "hal_bounds_ok H \<Longrightarrow> \<exists>f. from_esp H fr = Some f \<and> wf_frame f"
  using from_esp_frame [of H fr "frame_is_remote H fr" "frame_dlc H fr" "frame_data H fr"]
  unfolding hal_bounds_ok_def
  by (auto simp: wf_frame_def unat_of_nat split: if_splits dest!: spec [of _ fr])

lemma hal_frame_of_payload:
  assumes "hal_ok H" "unat (f_dlc f) \<le> 8" "length (f_data f) = 8"
  shows "\<exists>fr. (if f_rtr f then Frame_new_remote H i (unat (f_dlc f)) else Frame_new H i (payload f)) = Some fr
    \<and> frame_id H fr = i \<and> frame_is_remote H fr = f_rtr f \<and> frame_dlc H fr = unat (f_dlc f)
    \<and> frame_data H fr = payload f"
proof (cases "f_rtr f")
  case True
  then obtain fr where "Frame_new_remote H i (unat (f_dlc f)) = Some fr \<and> frame_id H fr = i \<and>
      frame_is_remote H fr \<and> frame_dlc H fr = unat (f_dlc f) \<and> frame_data H fr = []"
    using assms unfolding hal_ok_def hal_frames_ok_def by blast
  with True show ?thesis by (auto simp: payload_def)
next
  case False
  have len: "length (take (unat (f_dlc f)) (f_data f)) = unat (f_dlc f)" using assms by simp
  with assms obtain fr where "Frame_new H i (take (unat (f_dlc f)) (f_data f)) = Some fr \<and>
      frame_id H fr = i \<and> \<not> frame_is_remote H fr \<and>
      frame_dlc H fr = length (take (unat (f_dlc f)) (f_data f)) \<and>
      frame_data H fr = take (unat (f_dlc f)) (f_data f)"
    unfolding hal_ok_def hal_frames_ok_def by metis
  with False len show ?thesis by (auto simp: payload_def)
qed

lemma to_esp_inverse:
  assumes "hal_ok H" "canonical_frame f"
  shows "if id_in_range f then \<exists>fr. to_esp H f = Some (Some fr) \<and> from_esp H fr = Some f
         else to_esp H f = Some None"
proof -
  have wf: "unat (f_dlc f) \<le> 8" "length (f_data f) = 8"
    using assms(2) unfolding canonical_frame_def wf_frame_def by blast+
  define i where "i = (if f_ext f then Extended (f_id f) else Standard (ucast (f_id f)))"
  have i: "(if f_ext f then map_option Extended (ExtendedId_new H (f_id f))
      else map_option Standard (StandardId_new H (ucast (f_id f)))) = (if id_in_range f then Some i else None)"
    using assms std_id_le [of f]
    by (auto simp: hal_ok_def hal_ids_ok_def id_in_range_def canonical_frame_def i_def)
  have same: "f = \<lparr>f_id = (case i of Standard s \<Rightarrow> ucast s | Extended e \<Rightarrow> e),
      f_ext = (case i of Standard s \<Rightarrow> False | Extended e \<Rightarrow> True), f_rtr = f_rtr f,
      f_dlc = of_nat (unat (f_dlc f)), f_data = payload f @ replicate (8 - length (payload f)) 0\<rparr>"
    using assms(2) std_id_back [of f] by (cases f) (auto simp: canonical_frame_def i_def)
  show ?thesis
  proof (cases "id_in_range f")
    case False
    then show ?thesis by (simp add: to_esp_def i)
  next
    case inr: True
    have len: "length (payload f) \<le> 8" using wf by (simp add: payload_def)
    have fit: "slice (f_data f) 0 (unat (f_dlc f)) = Some (take (unat (f_dlc f)) (f_data f))"
      using wf by (simp add: run_simps)
    obtain fr where new: "(if f_rtr f then Frame_new_remote H i (unat (f_dlc f))
        else Frame_new H i (payload f)) = Some fr" and ident: "frame_id H fr = i"
      and rest: "frame_is_remote H fr = f_rtr f" "frame_dlc H fr = unat (f_dlc f)"
        "frame_data H fr = payload f"
      using hal_frame_of_payload [OF assms(1) wf] by blast
    have "to_esp H f = Some (Some fr)"
      using inr new i fit by (auto simp: to_esp_def payload_def)
    moreover have "from_esp H fr = Some f"
      using from_esp_frame [OF rest len] unfolding ident same [symmetric] .
    ultimately show ?thesis using inr by auto
  qed
qed

lemma to_esp_roundtrip_canonical:
  assumes "hal_ok H" "canonical_frame f" "id_in_range f"
  shows "\<exists>fr. to_esp H f = Some (Some fr) \<and> from_esp H fr = Some f"
  using to_esp_inverse [OF assms(1,2)] assms(3) by simp

subsection \<open>Bit rates\<close>

text \<open>
  The nominal rate of a setting on the 80 MHz TWAI clock: a bit is one synchronisation quantum and
  the two segments, each quantum a prescaled clock period.  The presets carry their rate in their name.
\<close>

definition bit_rate :: "BaudRate \<Rightarrow> nat" where
  "bit_rate b = (case b of B125K \<Rightarrow> 125000 | B250K \<Rightarrow> 250000 | B500K \<Rightarrow> 500000 | B1000K \<Rightarrow> 1000000
     | Custom t \<Rightarrow> 80000000 div (baud_rate_prescaler t * (1 + tseg_1 t + tseg_2 t)))"

text \<open>
  The digits 2 to 8 select 50, 100, 125, 250, 500, 800 and 1000 kbit/s, the hand-written
  timings included, exactly (the division leaves no remainder); every other byte is refused.
\<close>

lemma baud_table:
  "map (\<lambda>d. map_option bit_rate (baud_from_s d)) (ascii ''0123456789'') =
     [None, None, Some 50000, Some 100000, Some 125000, Some 250000, Some 500000, Some 800000,
      Some 1000000, None] \<and>
   (baud_from_s d \<noteq> None \<longleftrightarrow> asc CHR ''2'' \<le> d \<and> d \<le> asc CHR ''8'') \<and>
   (\<forall>t. baud_from_s d = Some (Custom t) \<longrightarrow>
      bit_rate (Custom t) * (baud_rate_prescaler t * (1 + tseg_1 t + tseg_2 t)) = 80000000 \<and>
      tseg_1 t \<le> 16 \<and> tseg_2 t \<le> 8 \<and> sync_jump_width t \<le> tseg_2 t)"
proof (intro conjI)
  show "map (\<lambda>d. map_option bit_rate (baud_from_s d)) (ascii ''0123456789'') =
     [None, None, Some 50000, Some 100000, Some 125000, Some 250000, Some 500000, Some 800000,
      Some 1000000, None]"
    by (simp add: baud_from_s_def bit_rate_def)
  have "d = 50 \<or> d = 51 \<or> d = 52 \<or> d = 53 \<or> d = 54 \<or> d = 55 \<or> d = 56" if "50 \<le> d" "d \<le> 56"
    using that by unat_arith
  then show "baud_from_s d \<noteq> None \<longleftrightarrow> asc CHR ''2'' \<le> d \<and> d \<le> asc CHR ''8''"
    by (auto simp: baud_from_s_def split: if_splits)
qed (auto simp: baud_from_s_def bit_rate_def split: if_splits)

subsection \<open>Bounded transmit\<close>

text \<open>The controller after \<open>k\<close> attempts to queue the frame, and what attempt \<open>k\<close> returned.\<close>

primrec tx_state :: "('t, 'f) twai_hal \<Rightarrow> 'f \<Rightarrow> 't \<Rightarrow> nat \<Rightarrow> 't" where
  "tx_state H fr tw 0 = tw"
| "tx_state H fr tw (Suc k) = snd (twai_transmit H (tx_state H fr tw k) fr)"

definition tx_result :: "('t, 'f) twai_hal \<Rightarrow> 'f \<Rightarrow> 't \<Rightarrow> nat \<Rightarrow> nb_result" where
  "tx_result H fr tw k = fst (twai_transmit H (tx_state H fr tw k) fr)"

lemma tx_state_Suc_left: "tx_state H fr tw (Suc k) = tx_state H fr (snd (twai_transmit H tw fr)) k"
  by (induction k) simp_all

lemma tx_result_Suc_left: "tx_result H fr tw (Suc k) = tx_result H fr (snd (twai_transmit H tw fr)) k"
  by (simp only: tx_result_def tx_state_Suc_left)

lemma try_transmit_loop_attempts:
  assumes "tries \<le> TX_RETRIES"
  shows "\<exists>n. n \<le> TX_RETRIES - tries \<and>
      try_transmit_loop H tw fr tries = (tx_result H fr tw n = NbOk, tx_state H fr tw (Suc n)) \<and>
      map (tx_result H fr tw) [0..<n] = replicate n WouldBlock \<and>
      (n = TX_RETRIES - tries \<or> tx_result H fr tw n \<in> {NbOk, OtherError})"
  using assms
proof (induction H tw fr tries rule: try_transmit_loop.induct)
  case (1 H tw fr tries)
  obtain r tw' where step: "twai_transmit H tw fr = (r, tw')" by fastforce
  have r0: "tx_result H fr tw 0 = r" "tx_state H fr tw (Suc 0) = tw'"
    by (simp_all add: tx_result_def step)
  show ?case
  proof (cases "r = WouldBlock \<and> Suc tries \<le> TX_RETRIES")
    case True
    then obtain n where n: "n \<le> TX_RETRIES - Suc tries"
      "try_transmit_loop H tw' fr (Suc tries) = (tx_result H fr tw' n = NbOk, tx_state H fr tw' (Suc n))"
      "map (tx_result H fr tw') [0..<n] = replicate n WouldBlock"
      "n = TX_RETRIES - Suc tries \<or> tx_result H fr tw' n \<in> {NbOk, OtherError}"
      using "1.IH" [OF step [symmetric] conjunct1 [OF True]] by auto
    have shift: "tx_result H fr tw (Suc k) = tx_result H fr tw' k"
      "tx_state H fr tw (Suc (Suc k)) = tx_state H fr tw' (Suc k)" for k
      using tx_result_Suc_left [of H fr tw k] tx_state_Suc_left [of H fr tw "Suc k"] by (simp_all add: step)
    have "map (tx_result H fr tw) [0..<Suc n] = tx_result H fr tw 0 # map (tx_result H fr tw') [0..<n]"
      by (simp add: upt_conv_Cons map_Suc_upt [symmetric] shift comp_def del: upt_Suc)
    moreover have "try_transmit_loop H tw fr tries = try_transmit_loop H tw' fr (Suc tries)"
      using True step by (subst try_transmit_loop.simps) simp
    ultimately show ?thesis
      using n True r0 shift by (intro exI [of _ "Suc n"]) auto
  next
    case False
    then have "try_transmit_loop H tw fr tries = (r = NbOk, tw')"
      by (subst try_transmit_loop.simps) (auto simp: step split: nb_result.splits)
    moreover have "0 = TX_RETRIES - tries \<or> r \<in> {NbOk, OtherError}"
      using False "1.prems" by (cases r) auto
    ultimately show ?thesis using r0 by (intro exI [of _ 0]) simp
  qed
qed

text \<open>
  C32.  Transmitting ends after \<open>n + 1\<close> attempts, at most 51: every attempt before the last found the
  FIFO full, the last was decisive or used up the budget, and the result is success exactly when the
  last attempt queued the frame.  So a wedged bus cannot hold the shared lock.
\<close>

theorem try_transmit_bounded:
  "\<exists>n \<le> 50. try_transmit H tw fr = (tx_result H fr tw n = NbOk, tx_state H fr tw (n + 1)) \<and>
     map (tx_result H fr tw) [0..<n] = replicate n WouldBlock \<and>
     (n = 50 \<or> tx_result H fr tw n \<in> {NbOk, OtherError})"
  using try_transmit_loop_attempts [of 0 H tw fr] by (simp add: try_transmit_def TX_RETRIES_def)

subsection \<open>Status byte\<close>

lemma bit_flag: "k < 8 \<Longrightarrow> bit (push_bit k 1 :: u8) n \<longleftrightarrow> n = k"
  by (auto simp: bit_simps)

lemma bit_if: "bit (if b then x else y :: u8) n \<longleftrightarrow> (if b then bit x n else bit y n)"
  by simp

text \<open>
  The status byte, bit by bit: bit 2 is error warning, bit 5 error passive, bit 7 bus-off, every
  other bit is clear; error passive always comes with error warning; a closed channel reports 0.
\<close>

lemma status_flags_bits:
  "(bit (status_flags H m) n \<longleftrightarrow>
      (\<exists>tw. twai m = Some tw \<and>
        (n = 2 \<and> 96 \<le> max (receive_error_count H tw) (transmit_error_count H tw) \<or>
         n = 5 \<and> 128 \<le> max (receive_error_count H tw) (transmit_error_count H tw) \<or>
         n = 7 \<and> is_bus_off H tw))) \<and>
   (bit (status_flags H m) 5 \<longrightarrow> bit (status_flags H m) 2) \<and>
   (twai m = None \<longrightarrow> status_flags H m = 0)"
proof -
  have le: "96 \<le> x" if "128 \<le> x" for x :: u8 using that by unat_arith
  have flags: "bit (status_flags H m) k \<longleftrightarrow> (\<exists>tw. twai m = Some tw \<and>
        (k = 2 \<and> 96 \<le> max (receive_error_count H tw) (transmit_error_count H tw) \<or>
         k = 5 \<and> 128 \<le> max (receive_error_count H tw) (transmit_error_count H tw) \<or>
         k = 7 \<and> is_bus_off H tw))" for k
    by (cases "twai m")
      (simp_all add: status_flags_def Let_def le_max_iff_disj bit_if bit_or_iff bit_flag
        del: push_bit_of_1)
  show ?thesis
    by (auto simp only: flags) (auto simp: le status_flags_def le_max_iff_disj)
qed

subsection \<open>Receiving\<close>

lemma poll_rx_result:
  assumes "hal_bounds_ok H"
  shows "\<exists>r m' c'. poll_rx H m c = Some (r, m', c') \<and> (\<forall>f. r = Some f \<longrightarrow> wf_frame f) \<and>
     c' = (if r = None then c else c\<lparr>RX_COUNT := RX_COUNT c + 1\<rparr>) \<and>
     (twai m' = None \<longleftrightarrow> twai m = None) \<and> open_count m' = open_count m \<and> baud m' = baud m"
proof (cases "twai m")
  case None
  then show ?thesis by (simp add: poll_rx_def)
next
  case (Some tw)
  obtain r tw' where rx: "twai_receive H tw = (r, tw')" by fastforce
  show ?thesis
  proof (cases r)
    case None
    with Some rx show ?thesis by (simp add: poll_rx_def)
  next
    case fr: (Some fr)
    obtain f where "from_esp H fr = Some f" "wf_frame f" using from_esp_wf [OF assms] by blast
    with Some rx fr show ?thesis by (simp add: poll_rx_def)
  qed
qed

lemma rx_burst_result:
  assumes "hal_bounds_ok H"
  shows "\<exists>fs m' c'. rx_burst n H m c = Some (fs, m', c') \<and> length fs \<le> n \<and> list_all wf_frame fs \<and>
     c' = c\<lparr>RX_COUNT := RX_COUNT c + of_nat (length fs)\<rparr> \<and>
     (twai m' = None \<longleftrightarrow> twai m = None) \<and> open_count m' = open_count m \<and> baud m' = baud m"
proof (induction n arbitrary: m c)
  case 0
  then show ?case by simp
next
  case (Suc n)
  obtain r m1 c1 where poll: "poll_rx H m c = Some (r, m1, c1)" "\<forall>f. r = Some f \<longrightarrow> wf_frame f"
     "c1 = (if r = None then c else c\<lparr>RX_COUNT := RX_COUNT c + 1\<rparr>)"
     "twai m1 = None \<longleftrightarrow> twai m = None" "open_count m1 = open_count m" "baud m1 = baud m"
    using poll_rx_result [OF assms, of m c] that by (elim exE conjE)
  obtain fs m2 c2 where "rx_burst n H m1 c1 = Some (fs, m2, c2)" "length fs \<le> n" "list_all wf_frame fs"
     "c2 = c1\<lparr>RX_COUNT := RX_COUNT c1 + of_nat (length fs)\<rparr>"
     "twai m2 = None \<longleftrightarrow> twai m1 = None" "open_count m2 = open_count m1" "baud m2 = baud m1"
    using Suc [of m1 c1] that by (elim exE conjE)
  with poll show ?case by (cases r) (auto simp: add.assoc)
qed

lemma can_rx_round_fields:
  assumes "hal_ok H" "can_rx_round H m c = Some (fs, m', c')"
  shows "length fs \<le> 16 \<and> list_all wf_frame fs \<and> c' = c\<lparr>RX_COUNT := RX_COUNT c + of_nat (length fs)\<rparr> \<and>
     (twai m' = None \<longleftrightarrow> twai m = None) \<and> open_count m' = open_count m \<and> baud m' = baud m"
  using rx_burst_result [of H 16 m c] assms by (auto simp: can_rx_round_def hal_ok_def)

text \<open>The frames a running controller hands out in at most \<open>n\<close> receives, up to the first refusal.\<close>

fun deliveries :: "nat \<Rightarrow> ('t, 'f) twai_hal \<Rightarrow> 't \<Rightarrow> 'f list \<times> 't" where
  "deliveries 0 H tw = ([], tw)"
| "deliveries (Suc n) H tw =
     (case twai_receive H tw of
        (None, tw') \<Rightarrow> ([], tw')
      | (Some fr, tw') \<Rightarrow> (let (frs, tw'') = deliveries n H tw' in (fr # frs, tw'')))"

lemma rx_burst_deliveries:
  assumes "hal_bounds_ok H" "twai m = Some tw" "deliveries n H tw = (frs, tw')"
  shows "\<exists>fs. map (from_esp H) frs = map Some fs \<and>
     rx_burst n H m c = Some (fs, m\<lparr>twai := Some tw'\<rparr>, c\<lparr>RX_COUNT := RX_COUNT c + of_nat (length fs)\<rparr>)"
  using assms(2,3)
proof (induction n arbitrary: m c tw frs)
  case 0
  then show ?case by simp
next
  case (Suc n)
  obtain r tw1 where rx: "twai_receive H tw = (r, tw1)" by fastforce
  show ?case
  proof (cases r)
    case None
    with rx Suc.prems show ?thesis by (simp add: poll_rx_def)
  next
    case (Some fr)
    obtain frs1 where d: "deliveries n H tw1 = (frs1, tw')" "frs = fr # frs1"
      using Suc.prems(2) rx Some by (auto split: prod.splits)
    obtain f where f: "from_esp H fr = Some f" using from_esp_wf [OF assms(1)] by blast
    obtain fs where "map (from_esp H) frs1 = map Some fs"
      "rx_burst n H (m\<lparr>twai := Some tw1\<rparr>) (c\<lparr>RX_COUNT := RX_COUNT c + 1\<rparr>) =
         Some (fs, m\<lparr>twai := Some tw'\<rparr>, c\<lparr>RX_COUNT := RX_COUNT c + 1 + of_nat (length fs)\<rparr>)"
      using Suc.IH [OF _ d(1), of "m\<lparr>twai := Some tw1\<rparr>" "c\<lparr>RX_COUNT := RX_COUNT c + 1\<rparr>"] by auto
    with Suc.prems(1) rx Some f d(2) show ?thesis
      by (intro exI [of _ "f # fs"]) (simp add: poll_rx_def add.assoc)
  qed
qed

lemma rx_burst_closed: "twai m = None \<Longrightarrow> rx_burst n H m c = Some ([], m, c)"
  by (cases n) (simp_all add: poll_rx_def)

text \<open>
  One receive round never panics.  It publishes, in order and converted by \<^verbatim>\<open>from_esp\<close>, exactly the
  frames the running controller hands out until it has none left or 16 were taken, all of them well
  formed, and counts each of them once; a closed channel publishes nothing.  Bit rate and use count
  are unchanged.
\<close>

lemma can_rx_round_result:
  assumes "hal_ok H"
  shows "\<exists>fs m' c'. can_rx_round H m c = Some (fs, m', c') \<and> length fs \<le> 16 \<and>
     list_all wf_frame fs \<and> c' = c\<lparr>RX_COUNT := RX_COUNT c + of_nat (length fs)\<rparr> \<and>
     (case twai m of
        None \<Rightarrow> fs = [] \<and> m' = m
      | Some tw \<Rightarrow> map (from_esp H) (fst (deliveries 16 H tw)) = map Some fs \<and>
                   m' = m\<lparr>twai := Some (snd (deliveries 16 H tw))\<rparr>)"
proof -
  have H: "hal_bounds_ok H" using assms by (simp add: hal_ok_def)
  obtain fs m' c' where r: "can_rx_round H m c = Some (fs, m', c')" "length fs \<le> 16" "list_all wf_frame fs"
    "c' = c\<lparr>RX_COUNT := RX_COUNT c + of_nat (length fs)\<rparr>"
    using rx_burst_result [OF H, of 16 m c] that unfolding can_rx_round_def by (elim exE conjE)
  show ?thesis
  proof (cases "twai m")
    case None
    with r rx_burst_closed [OF None, of 16 H c] show ?thesis by (auto simp: can_rx_round_def)
  next
    case (Some tw)
    with r rx_burst_deliveries [OF H Some, of 16 "fst (deliveries 16 H tw)" "snd (deliveries 16 H tw)" c]
    show ?thesis by (auto simp: can_rx_round_def)
  qed
qed

text \<open>
  An id as embedded-can's id types can hold it, and the frame such a driver frame is converted to:
  one the parser can return and the controller accepts.
\<close>

definition can_id_ok :: "CanId \<Rightarrow> bool" where
  "can_id_ok i = (case i of Standard s \<Rightarrow> s \<le> 0x7FF | Extended e \<Rightarrow> e \<le> 0x1FFFFFFF)"

lemma from_esp_canonical:
  assumes "hal_bounds_ok H" "can_id_ok (frame_id H fr)" "from_esp H fr = Some f"
  shows "canonical_frame f \<and> id_in_range f"
proof -
  have b: "frame_dlc H fr \<le> 8" "length (frame_data H fr) = (if frame_is_remote H fr then 0 else frame_dlc H fr)"
    using assms(1) by (auto simp: hal_bounds_ok_def)
  have f: "f = \<lparr>f_id = (case frame_id H fr of Standard s \<Rightarrow> ucast s | Extended e \<Rightarrow> e),
      f_ext = (case frame_id H fr of Standard s \<Rightarrow> False | Extended e \<Rightarrow> True),
      f_rtr = frame_is_remote H fr, f_dlc = of_nat (frame_dlc H fr),
      f_data = frame_data H fr @ replicate (8 - length (frame_data H fr)) 0\<rparr>"
    using from_esp_frame [OF refl refl refl, of H fr] assms(3) b by (auto split: if_splits)
  have dlc: "unat (of_nat (frame_dlc H fr) :: u8) = frame_dlc H fr" using b(1) by (simp add: unat_of_nat)
  have "unat (ucast s :: u32) = unat (s :: u16)" for s 
    using unsigned_less [where ?'a = nat, of s] by (simp add: unsigned_ucast_eq take_bit_nat_eq_self)
  then have "s \<le> 0x7FF \<Longrightarrow> (ucast s :: u32) \<le> 0x7FF \<and> (ucast s :: u32) < 0x1000" for s :: u16
    by (simp add: word_le_nat_alt word_less_nat_alt)
  with assms(2) b dlc show ?thesis
    by (auto simp: f canonical_frame_def wf_frame_def payload_def id_in_range_def can_id_ok_def split: CanId.splits)
qed

subsection \<open>Opening and closing\<close>

lemma transmit_frame_fields:
  "transmit H f m c = Some (ok, m', c') \<Longrightarrow>
   (twai m' = None \<longleftrightarrow> twai m = None) \<and> open_count m' = open_count m \<and> baud m' = baud m"
  by (auto simp: transmit_def Let_def split: option.splits Option.bind_splits prod.splits if_splits)

lemma can_inv_new [simp]: "can_inv CanManager_new"
  by (simp add: can_inv_def CanManager_new_def)

lemma set_bitrate_fields:
  "set_bitrate d m = (ok, m') \<Longrightarrow> twai m' = twai m \<and> open_count m' = open_count m"
  by (auto simp: set_bitrate_def split: if_splits option.splits)

text \<open>
  The bit rate can change only while the channel is fully closed, and the first port to open
  decides rate and mode: a rate accepted while closed is the one the next open starts the controller
  with, and a further open changes neither the running controller nor its mode.
\<close>

theorem bitrate_and_mode_fixed_while_open:
  "(if open_count m = 0
    then case baud_from_s d of
           None \<Rightarrow> set_bitrate d m = (False, m)
         | Some b \<Rightarrow> fst (set_bitrate d m) \<and>
             twai (can_open H listen (snd (set_bitrate d m))) =
               Some (twai_start H b (if listen then ListenOnly else Normal))
    else set_bitrate d m = (False, m) \<and> twai (can_open H listen m) = twai m)"
  by (auto simp: set_bitrate_def can_open_def open_twai_def Let_def split: option.splits)

end
