(* ===== verification/Transport.thy ===== *)
theory Transport
  imports Can
begin

text \<open>
  The SLCAN port runner of \<^verbatim>\<open>src/transport.rs\<close>, shared by the UART, TCP and outbound transports: the
  line buffer, the command dispatcher and the round of \<^verbatim>\<open>run_port\<close> for each kind of event.

  Writes to the connection are recorded as a list of operations; the firmware ignores their results
  (\<^verbatim>\<open>let _ =\<close>), so their failure has no effect on the port.  The state shared between ports is the
  record \<open>bridge\<close>: the CAN manager behind its mutex and the counters.
\<close>

section \<open>Model\<close>

datatype Iface = Serial | Tcp

definition count_in :: "Iface \<Rightarrow> counters \<Rightarrow> counters" where
  "count_in i c =
     (case i of
        Serial \<Rightarrow> c\<lparr>SER_IN := SER_IN c + 1\<rparr>
      | Tcp \<Rightarrow> c\<lparr>TCP_IN := TCP_IN c + 1\<rparr>)"

definition count_out :: "Iface \<Rightarrow> counters \<Rightarrow> counters" where
  "count_out i c =
     (case i of
        Serial \<Rightarrow> c\<lparr>SER_OUT := SER_OUT c + 1\<rparr>
      | Tcp \<Rightarrow> c\<lparr>TCP_OUT := TCP_OUT c + 1\<rparr>)"

datatype conn_op = WriteAll bytes | FlushConn

record 't bridge =
  CAN :: "'t CanManager"
  cnt :: counters

text \<open>The locals of \<^verbatim>\<open>run_port\<close>: \<^verbatim>\<open>line\<close>, \<^verbatim>\<open>len\<close>, \<^verbatim>\<open>open\<close>, \<^verbatim>\<open>timestamp\<close>.\<close>

record port =
  p_line :: bytes
  p_len :: nat
  p_open :: bool
  p_timestamp :: bool

definition port_init :: port where
  "port_init = \<lparr>p_line = replicate 64 0, p_len = 0, p_open = False, p_timestamp = False\<rparr>"

definition reply :: "bytes \<Rightarrow> conn_op list" where
  "reply bs = [WriteAll bs]"

definition hex_nibble :: "u8 \<Rightarrow> u8" where
  "hex_nibble n0 =
     (let n = n0 AND 0x0f
      in if n < 10 then asc CHR ''0'' + n else asc CHR ''A'' + (n - 10))"

text \<open>\<open>ms\<close> is the time since the epoch of the clock in milliseconds.\<close>

definition now_ms :: "nat \<Rightarrow> u16" where
  "now_ms ms = of_nat (ms mod 60000)"

definition get_at :: "'a list \<Rightarrow> nat \<Rightarrow> 'a option" where
  "get_at xs i = (if i < length xs then Some (xs ! i) else None)"

text \<open>The transmit branch \<^verbatim>\<open>t | T | r | R\<close> of \<^verbatim>\<open>dispatch\<close>.\<close>

definition dispatch_tx ::
  "('t, 'f) twai_hal \<Rightarrow> bytes \<Rightarrow> u8 \<Rightarrow> Iface \<Rightarrow> bool \<Rightarrow> bool \<Rightarrow> 't bridge
   \<Rightarrow> (bool \<times> bool \<times> 't bridge \<times> conn_op list) run" where
  "dispatch_tx H line cmd iface op ts b =
     do { frame \<leftarrow> parse_tx line;
          let b = (if frame \<noteq> None then b\<lparr>cnt := count_in iface (cnt b)\<rparr> else b) in
          if \<not> op then Some (op, ts, b, reply [BELL])
          else do {
            (ok, m, c) \<leftarrow> (case frame of
                             Some f \<Rightarrow> transmit H f (CAN b) (cnt b)
                           | None \<Rightarrow> Some (False, CAN b, cnt b));
            let b = b\<lparr>CAN := m, cnt := c\<rparr> in
            if ok then
              let ack = (if cmd = asc CHR ''T'' \<or> cmd = asc CHR ''R'' then asc CHR ''Z''
                         else asc CHR ''z'')
              in Some (op, ts, b, reply [ack, CR])
            else Some (op, ts, b, reply [BELL]) } }"

definition dispatch ::
  "('t, 'f) twai_hal \<Rightarrow> bytes \<Rightarrow> Iface \<Rightarrow> bool \<Rightarrow> bool \<Rightarrow> 't bridge
   \<Rightarrow> (bool \<times> bool \<times> 't bridge \<times> conn_op list) run" where
  "dispatch H line iface op ts b =
     do { cmd \<leftarrow> idx line 0;
       if cmd = asc CHR ''V'' then Some (op, ts, b, reply (ascii ''V1013'' @ [CR]))
       else if cmd = asc CHR ''N'' then Some (op, ts, b, reply (ascii ''N1234'' @ [CR]))
       else if cmd = asc CHR ''F'' then
         (let f = status_flags H (CAN b)
          in Some (op, ts, b,
               reply [asc CHR ''F'', hex_nibble (drop_bit 4 f), hex_nibble (f AND 0x0f), CR]))
       else if cmd = asc CHR ''M'' \<or> cmd = asc CHR ''m'' \<or> cmd = asc CHR ''A'' then
         Some (op, ts, b, reply [CR])
       else if cmd = asc CHR ''Z'' then
         (if get_at line 1 = Some (asc CHR ''0'') then Some (op, False, b, reply [CR])
          else if get_at line 1 = Some (asc CHR ''1'') then Some (op, True, b, reply [CR])
          else Some (op, ts, b, reply [BELL]))
       else if cmd = asc CHR ''S'' then
         (let (ok, m) = (case get_at line 1 of
                           Some d \<Rightarrow> set_bitrate d (CAN b)
                         | None \<Rightarrow> (False, CAN b))
          in Some (op, ts, b\<lparr>CAN := m\<rparr>, reply (if ok then [CR] else [BELL])))
       else if cmd = asc CHR ''s'' then Some (op, ts, b, reply [BELL])
       else if cmd = asc CHR ''O'' \<or> cmd = asc CHR ''L'' then
         (if \<not> op then
            Some (True, ts, b\<lparr>CAN := can_open H (cmd = asc CHR ''L'') (CAN b)\<rparr>, reply [CR])
          else Some (op, ts, b, reply [CR]))
       else if cmd = asc CHR ''C'' then
         (if op then Some (False, ts, b\<lparr>CAN := can_close (CAN b)\<rparr>, reply [CR])
          else Some (op, ts, b, reply [CR]))
       else if cmd = asc CHR ''t'' \<or> cmd = asc CHR ''T'' \<or> cmd = asc CHR ''r'' \<or> cmd = asc CHR ''R'' then
         dispatch_tx H line cmd iface op ts b
       else Some (op, ts, b, reply [BELL]) }"

text \<open>
  One iteration of the byte loop.  The flag is \<^verbatim>\<open>wrote\<close>.
\<close>

definition feed ::
  "('t, 'f) twai_hal \<Rightarrow> Iface \<Rightarrow> u8 \<Rightarrow> port \<Rightarrow> 't bridge \<Rightarrow> (port \<times> 't bridge \<times> conn_op list \<times> bool) run" where
  "feed H iface x p b =
     (if x = CR then
        if 0 < p_len p then
          do { l \<leftarrow> slice (p_line p) 0 (p_len p);
               (op, ts, b, ops) \<leftarrow> dispatch H l iface (p_open p) (p_timestamp p) b;
               Some (p\<lparr>p_open := op, p_timestamp := ts, p_len := 0\<rparr>, b, ops, True) }
        else Some (p, b, [], False)
      else if x = 0x0a then Some (p, b, [], False)
      else if p_len p < length (p_line p) then
        do { l \<leftarrow> upd (p_line p) (p_len p) x;
             Some (p\<lparr>p_line := l, p_len := p_len p + 1\<rparr>, b, [], False) }
      else Some (p\<lparr>p_len := 0\<rparr>, b, [WriteAll [BELL]], True))"

fun feed_all ::
  "('t, 'f) twai_hal \<Rightarrow> Iface \<Rightarrow> bytes \<Rightarrow> port \<Rightarrow> 't bridge \<Rightarrow> (port \<times> 't bridge \<times> conn_op list \<times> bool) run" where
  "feed_all H iface [] p b = Some (p, b, [], False)"
| "feed_all H iface (x # xs) p b =
     do { (p, b, ops, w) \<leftarrow> feed H iface x p b;
          (p, b, ops', w') \<leftarrow> feed_all H iface xs p b;
          Some (p, b, ops @ ops', w \<or> w') }"

text \<open>
  The outcome of one \<^verbatim>\<open>select\<close>: the bytes read into \<^verbatim>\<open>rxbuf\<close>, a bus frame, or the end.  As in the code the
  type also has a read of no bytes, although the \<^verbatim>\<open>select\<close> turns one into \<open>Stop\<close>; a round with one does
  nothing.
\<close>

datatype Act = Bytes bytes | Frame CanFrame | Stop

definition port_round ::
  "('t, 'f) twai_hal \<Rightarrow> Iface \<Rightarrow> nat \<Rightarrow> Act \<Rightarrow> port \<Rightarrow> 't bridge \<Rightarrow> (port \<times> 't bridge \<times> conn_op list) run" where
  "port_round H iface ms act p b =
     (case act of
        Stop \<Rightarrow> Some (p, b, [])
      | Bytes bs \<Rightarrow>
          do { (p, b, ops, wrote) \<leftarrow> feed_all H iface bs p b;
               Some (p, b, if wrote then ops @ [FlushConn] else ops) }
      | Frame f \<Rightarrow>
          if p_open p then
            let ts = (if p_timestamp p then Some (now_ms ms) else None) in
            do { (out, nn) \<leftarrow> format_frame f ts (replicate MAX_FRAME_ASCII 0);
                 o' \<leftarrow> slice out 0 nn;
                 Some (p, b\<lparr>cnt := count_out iface (cnt b)\<rparr>, [WriteAll o', FlushConn]) }
          else Some (p, b, []))"

text \<open>The loop over the rounds the link delivers; the flag says that it ended with \<^verbatim>\<open>Act::Stop\<close>.\<close>

fun port_loop ::
  "('t, 'f) twai_hal \<Rightarrow> Iface \<Rightarrow> (nat \<times> Act) list \<Rightarrow> port \<Rightarrow> 't bridge
   \<Rightarrow> (port \<times> 't bridge \<times> conn_op list \<times> bool) run" where
  "port_loop H iface [] p b = Some (p, b, [], False)"
| "port_loop H iface ((ms, act) # evs) p b =
     (if act = Stop then Some (p, b, [], True)
      else do { (p, b, ops) \<leftarrow> port_round H iface ms act p b;
                (p, b, ops', s) \<leftarrow> port_loop H iface evs p b;
                Some (p, b, ops @ ops', s) })"

text \<open>\<^verbatim>\<open>if open { CAN.lock().await.close(); }\<close> once the link is gone.\<close>

definition port_end :: "port \<Rightarrow> 't bridge \<Rightarrow> 't bridge" where
  "port_end p b = (if p_open p then b\<lparr>CAN := can_close (CAN b)\<rparr> else b)"

definition run_port ::
  "('t, 'f) twai_hal \<Rightarrow> Iface \<Rightarrow> (nat \<times> Act) list \<Rightarrow> 't bridge \<Rightarrow> ('t bridge \<times> conn_op list \<times> bool) run" where
  "run_port H iface evs b =
     do { (p, b, ops, stopped) \<leftarrow> port_loop H iface evs port_init b;
          Some (if stopped then port_end p b else b, ops, stopped) }"

section \<open>One command, one reply\<close>

interpretation transport_hex: hex_codec nibble hex_nibble
proof -
  have "hex_nibble = hex_digit" by (simp add: fun_eq_iff hex_nibble_def hex_digit_def)
  then show "hex_codec nibble hex_nibble" using slcan_hex.hex_codec_axioms by simp
qed

lemma transmit_total:
  assumes "wf_frame f"
  shows "\<exists>ok m' c'. transmit H f m c = Some (ok, m', c')"
proof -
  have "\<exists>r. to_esp H f = Some r"
    using assms by (auto simp: to_esp_def wf_frame_def slice_def try_opt_def split: option.splits)
  then show ?thesis
    by (auto simp: transmit_def Let_def split: option.splits prod.splits)
qed

text \<open>A reply is BELL alone or one line ended by its only CR.\<close>

definition reply_ok :: "bytes \<Rightarrow> bool" where
  "reply_ok r \<longleftrightarrow> r = [BELL] \<or> (r \<noteq> [] \<and> last r = CR \<and> CR \<notin> set (butlast r) \<and> BELL \<notin> set (butlast r))"

text \<open>How one command may change the port flag and the manager.\<close>

definition channel_step :: "('t, 'f) twai_hal \<Rightarrow> bool \<Rightarrow> 't CanManager \<Rightarrow> bool \<Rightarrow> 't CanManager \<Rightarrow> bool" where
  "channel_step H op m op' m' \<longleftrightarrow>
     (if op = op' then open_count m' = open_count m \<and> (twai m' = None \<longleftrightarrow> twai m = None)
      else if op' then \<exists>l. m' = can_open H l m
      else m' = can_close m)"

lemma channel_step_refl [simp]: "channel_step H op m op m"
  by (simp add: channel_step_def)

lemma dispatch_tx_result:
  "\<exists>b' r. dispatch_tx H line cmd iface op ts b = Some (op, ts, b', [WriteAll r]) \<and> reply_ok r \<and>
     channel_step H op (CAN b) op (CAN b')"
proof (cases "parse_tx_ref line")
  case None
  then show ?thesis by (simp add: dispatch_tx_def parse_tx_eq reply_def reply_ok_def)
next
  case (Some f)
  then have wf: "wf_frame f" using parse_tx_ref_canonical(1) by (auto simp: canonical_frame_def)
  obtain ok m' c' where tx: "transmit H f (CAN b) (count_in iface (cnt b)) = Some (ok, m', c')"
    using transmit_total [OF wf] by blast
  show ?thesis
    using Some tx transmit_frame_fields [OF tx]
    by (auto simp: dispatch_tx_def parse_tx_eq reply_def reply_ok_def channel_step_def Let_def CR_def BELL_def)
qed

lemma hex_nibble_not_control [simp]: "hex_nibble v \<noteq> CR" "hex_nibble v \<noteq> BELL"
  using hex_digit_not_control [of v] by (simp_all add: hex_nibble_def hex_digit_def)

definition answers ::
  "('t, 'f) twai_hal \<Rightarrow> bool \<Rightarrow> 't bridge \<Rightarrow> (bool \<times> bool \<times> 't bridge \<times> conn_op list) run \<Rightarrow> bool" where
  "answers H op b res \<longleftrightarrow> (\<exists>op' ts' b' r. res = Some (op', ts', b', [WriteAll r]) \<and> reply_ok r \<and>
     channel_step H op (CAN b) op' (CAN b'))"

lemma answers_Some [simp]:
  "answers H op b (Some (op', ts', b', reply r)) \<longleftrightarrow> reply_ok r \<and> channel_step H op (CAN b) op' (CAN b')"
  by (simp add: answers_def reply_def)

lemma reply_ok_literals [simp]:
  "reply_ok [BELL]" "reply_ok [CR]"
  "reply_ok [86, 49, 48, 49, 51, CR]" \<comment> \<open>V1013\<close>
  "reply_ok [78, 49, 50, 51, 52, CR]" \<comment> \<open>N1234\<close>
  "reply_ok [70, hex_nibble h, hex_nibble l, CR]"
  using hex_nibble_not_control [of h] hex_nibble_not_control [of l]
  by (auto simp: reply_ok_def BELL_def CR_def)

lemma dispatch_tx_answers [simp]: "answers H op b (dispatch_tx H line cmd iface op ts b)"
  using dispatch_tx_result [of H line cmd iface op ts b] by (auto simp: answers_def)

lemma dispatch_answers:
  assumes "line \<noteq> []"
  shows "answers H op b (dispatch H line iface op ts b)"
proof -
  obtain cmd rest where line: "line = cmd # rest" using assms by (cases line) auto
  obtain ok m where rate: "(case get_at line 1 of Some d \<Rightarrow> set_bitrate d (CAN b) | None \<Rightarrow> (False, CAN b)) = (ok, m)"
    by fastforce
  then have m: "twai m = twai (CAN b)" "open_count m = open_count (CAN b)"
    using set_bitrate_fields [of _ "CAN b" ok m] by (auto split: option.splits)
  have opened: "channel_step H op (CAN b) True (can_open H l (CAN b))" if "\<not> op" for l
    using that by (auto simp: channel_step_def)
  have closed: "channel_step H op (CAN b) False (can_close (CAN b))" if op
    using that by (simp add: channel_step_def)
  have cmd: "idx line 0 = Some cmd" by (simp add: line idx_def)
  have same: "channel_step H op (CAN b) op m" by (simp add: channel_step_def m)
  show ?thesis
    unfolding dispatch_def rate cmd Option.bind.bind_lunit Let_def prod.case
    using opened closed same by (cases op; simp)
qed

text \<open>
  C7.  Every command line is answered: on a non-empty line the dispatcher never panics and makes
  exactly one write, which is BELL alone or one line whose only CR ends it, so host and bridge never
  lose step.
\<close>

theorem dispatch_one_reply:
  assumes "line \<noteq> []"
  shows "\<exists>op' ts' b' r. dispatch H line iface op ts b = Some (op', ts', b', [WriteAll r]) \<and>
     (r = [BELL] \<or> (\<exists>body. r = body @ [CR] \<and> CR \<notin> set body \<and> BELL \<notin> set body))"
proof -
  have "r = [BELL] \<or> (\<exists>body. r = body @ [CR] \<and> CR \<notin> set body \<and> BELL \<notin> set body)"
    if "reply_ok r" for r
    using that by (auto simp: reply_ok_def intro!: exI [of _ "butlast r"]) (metis append_butlast_last_id)
  then show ?thesis using dispatch_answers [OF assms, of H op b iface ts] unfolding answers_def by blast
qed

theorem dispatch_one_reply_witness:
  "\<exists>op' ts' b' r. dispatch loopback_hal (ascii ''F'') Serial False False
       \<lparr>CAN = CanManager_new, cnt = counters_init\<rparr> = Some (op', ts', b', [WriteAll r]) \<and>
     (r = [BELL] \<or> (\<exists>body. r = body @ [CR] \<and> CR \<notin> set body \<and> BELL \<notin> set body))"
  by (rule dispatch_one_reply) simp

section \<open>The line buffer\<close>

definition port_wf :: "port \<Rightarrow> bool" where
  "port_wf p \<longleftrightarrow> length (p_line p) = 64 \<and> p_len p \<le> 64"

lemma port_wf_init [simp]: "port_wf port_init"
  by (simp add: port_wf_def port_init_def)

lemma port_init_closed [simp]: "\<not> p_open port_init" "p_len port_init = 0"
  by (simp_all add: port_init_def)

definition is_write :: "conn_op \<Rightarrow> bool" where
  "is_write w \<longleftrightarrow> w \<noteq> FlushConn"

lemma feed_result:
  assumes "port_wf p"
  shows "\<exists>p' b' ops w. feed H iface x p b = Some (p', b', ops, w) \<and> port_wf p' \<and>
     channel_step H (p_open p) (CAN b) (p_open p') (CAN b') \<and> (w \<longleftrightarrow> ops \<noteq> []) \<and> list_all is_write ops"
proof (cases "x = CR \<and> 0 < p_len p")
  case True
  then have "slice (p_line p) 0 (p_len p) = Some (take (p_len p) (p_line p))"
    "take (p_len p) (p_line p) \<noteq> []"
    using assms by (auto simp: run_simps port_wf_def)
  then show ?thesis
    using True assms dispatch_answers [of "take (p_len p) (p_line p)" H "p_open p" b iface "p_timestamp p"]
    by (auto simp: feed_def answers_def port_wf_def is_write_def)
next
  case False
  then show ?thesis
    using assms by (auto simp: feed_def port_wf_def run_simps is_write_def)
qed

lemma feed_all_append:
  "feed_all H iface (xs @ ys) p b =
     do { (p, b, ops, w) \<leftarrow> feed_all H iface xs p b;
          (p, b, ops', w') \<leftarrow> feed_all H iface ys p b;
          Some (p, b, ops @ ops', w \<or> w') }"
proof (induction xs arbitrary: p b)
  case Nil
  show ?case by (cases "feed_all H iface ys p b") auto
next
  case (Cons x xs)
  show ?case
    by (cases "feed H iface x p b") (auto simp: Cons split: Option.bind_splits)
qed

lemma feed_all_collect:
  assumes "port_wf p" "CR \<notin> set xs" "0x0a \<notin> set xs" "p_len p + length xs \<le> 64"
  shows "feed_all H iface xs p b =
    Some (p\<lparr>p_line := take (p_len p) (p_line p) @ xs @ drop (p_len p + length xs) (p_line p),
            p_len := p_len p + length xs\<rparr>, b, [], False)"
  using assms
proof (induction xs arbitrary: p)
  case Nil
  then show ?case by simp
next
  case (Cons x xs)
  let ?p = "p\<lparr>p_line := (p_line p)[p_len p := x], p_len := p_len p + 1\<rparr>"
  have "feed H iface x p b = Some (?p, b, [], False)"
    using Cons.prems by (auto simp: feed_def port_wf_def run_simps)
  moreover have "take (Suc (p_len p)) ((p_line p)[p_len p := x]) = take (p_len p) (p_line p) @ [x]"
    using Cons.prems by (simp add: take_Suc_conv_app_nth port_wf_def)
  moreover have "port_wf ?p" using Cons.prems by (simp add: port_wf_def)
  ultimately show ?case using Cons.IH [of ?p] Cons.prems by simp
qed

lemma feed_line_dispatch:
  assumes "port_wf p" "p_len p = 0" "line \<noteq> []" "length line \<le> 64" "CR \<notin> set line" "0x0a \<notin> set line"
  shows "\<exists>buf. feed_all H iface (line @ [CR]) p b =
     do { (op, ts, b', ops) \<leftarrow> dispatch H line iface (p_open p) (p_timestamp p) b;
          Some (\<lparr>p_line = buf, p_len = 0, p_open = op, p_timestamp = ts\<rparr>, b', ops, True) }"
proof -
  let ?buf = "line @ drop (length line) (p_line p)"
  have collect: "feed_all H iface line p b = Some (p\<lparr>p_line := ?buf, p_len := length line\<rparr>, b, [], False)"
    using feed_all_collect [of p line] assms by simp
  have "slice ?buf 0 (length line) = Some line" by (simp add: slice_def)
  moreover have "p\<lparr>p_line := ?buf, p_len := 0, p_open := op, p_timestamp := ts\<rparr> =
      \<lparr>p_line = ?buf, p_len = 0, p_open = op, p_timestamp = ts\<rparr>" for op ts
    by (cases p) simp
  ultimately show ?thesis
    using assms(3) unfolding feed_all_append collect
    by (intro exI [of _ ?buf]) (auto simp: feed_def split: Option.bind_splits)
qed


lemma feed_all_overflow:
  assumes "port_wf p" "p_len p = 0" "length xs = 65" "CR \<notin> set xs" "0x0a \<notin> set xs"
  shows "feed_all H iface xs p b = Some (p\<lparr>p_line := butlast xs, p_len := 0\<rparr>, b, [WriteAll [BELL]], True)"
proof -
  have xs: "xs = butlast xs @ [last xs]" using assms(3) by (cases xs rule: rev_cases) auto
  have sub: "set (butlast xs) \<subseteq> set xs" by (auto dest: in_set_butlastD)
  have collect: "feed_all H iface (butlast xs) p b = Some (p\<lparr>p_line := butlast xs, p_len := 64\<rparr>, b, [], False)"
    using feed_all_collect [of p "butlast xs" H iface b] assms sub by (auto simp: port_wf_def)
  have "last xs \<in> set xs" using assms(3) by (intro last_in_set) auto
  then have "feed H iface (last xs) (p\<lparr>p_line := butlast xs, p_len := 64\<rparr>) b =
      Some (p\<lparr>p_line := butlast xs, p_len := 0\<rparr>, b, [WriteAll [BELL]], True)"
    using assms by (auto simp: feed_def)
  then show ?thesis by (subst xs) (simp only: feed_all_append collect Option.bind.bind_lunit prod.case, simp)
qed

lemma feed_all_blocks:
  assumes "port_wf p" "p_len p = 0" "length xs = 65 * n" "CR \<notin> set xs" "0x0a \<notin> set xs"
  shows "\<exists>buf. length buf = 64 \<and>
     feed_all H iface xs p b = Some (p\<lparr>p_line := buf\<rparr>, b, replicate n (WriteAll [BELL]), 0 < n)"
  using assms
proof (induction n arbitrary: xs p)
  case 0
  then show ?case by (intro exI [of _ "p_line p"]) (simp add: port_wf_def)
next
  case (Suc n)
  let ?ys = "take 65 xs" and ?zs = "drop 65 xs"
  have "CR \<notin> set ?ys" "0x0a \<notin> set ?ys" "CR \<notin> set ?zs" "0x0a \<notin> set ?zs"
    using Suc.prems(4,5) by (auto dest: in_set_takeD in_set_dropD)
  note sets = this
  let ?p = "p\<lparr>p_line := butlast ?ys, p_len := 0\<rparr>"
  have first: "feed_all H iface ?ys p b = Some (?p, b, [WriteAll [BELL]], True)"
    using feed_all_overflow [OF Suc.prems(1,2) _ sets(1,2)] Suc.prems(3) by simp
  have "port_wf ?p" using Suc.prems(3) by (simp add: port_wf_def)
  with Suc.IH [of ?p ?zs] sets Suc.prems(3) obtain buf where
    rest: "length buf = 64" "feed_all H iface ?zs ?p b = Some (?p\<lparr>p_line := buf\<rparr>, b, replicate n (WriteAll [BELL]), 0 < n)"
    by auto
  have "feed_all H iface (?ys @ ?zs) p b = Some (?p\<lparr>p_line := buf\<rparr>, b, WriteAll [BELL] # replicate n (WriteAll [BELL]), True)"
    unfolding feed_all_append first Option.bind.bind_lunit prod.case rest(2) by simp
  moreover have "?p\<lparr>p_line := buf\<rparr> = p\<lparr>p_line := buf\<rparr>" using Suc.prems(2) by (cases p) simp
  ultimately show ?case using rest(1) by (intro exI [of _ buf]) simp
qed

text \<open>
  C39.  A line too long for the buffer.  Of a line of more than 64 bytes every 65 bytes are answered with
  BELL and forgotten, and whatever then remains before the CR (up to 64 bytes) is executed as a command
  of its own, exactly as if it had been sent alone, whether the port is open or not.
\<close>

theorem overlong_line_tail_is_executed:
  assumes "port_wf p" "p_len p = 0" "64 < length line" "CR \<notin> set line" "0x0a \<notin> set line"
  defines "n \<equiv> length line div 65" and "tail \<equiv> drop (65 * (length line div 65)) line"
  shows "0 < n \<and> length tail \<le> 64 \<and>
     (\<exists>buf. feed_all H iface (line @ [CR]) p b =
        (if tail = [] then Some (p\<lparr>p_line := buf\<rparr>, b, replicate n (WriteAll [BELL]), True)
         else do { (op, ts, b', ops) \<leftarrow> dispatch H tail iface (p_open p) (p_timestamp p) b;
                   Some (\<lparr>p_line = buf, p_len = 0, p_open = op, p_timestamp = ts\<rparr>, b',
                     replicate n (WriteAll [BELL]) @ ops, True) }))"
proof -
  let ?head = "take (65 * n) line"
  have line: "line @ [CR] = ?head @ (tail @ [CR])" by (simp add: n_def tail_def)
  have n: "0 < n" "length ?head = 65 * n" "length tail \<le> 64"
    using assms(3) by (simp_all add: n_def tail_def minus_mult_div_eq_mod)
  have sets: "CR \<notin> set ?head" "0x0a \<notin> set ?head" "CR \<notin> set tail" "0x0a \<notin> set tail"
    using assms(4,5) by (auto simp: tail_def dest: in_set_takeD in_set_dropD)
  obtain buf where buf: "length buf = 64"
    "feed_all H iface ?head p b = Some (p\<lparr>p_line := buf\<rparr>, b, replicate n (WriteAll [BELL]), 0 < n)"
    using feed_all_blocks [OF assms(1,2) n(2) sets(1,2)] by blast
  have wf: "port_wf (p\<lparr>p_line := buf\<rparr>)" using assms(2) buf(1) by (simp add: port_wf_def)
  have "\<exists>buf'. feed_all H iface (tail @ [CR]) (p\<lparr>p_line := buf\<rparr>) b =
        (if tail = [] then Some (p\<lparr>p_line := buf'\<rparr>, b, [], False)
         else do { (op, ts, b', ops) \<leftarrow> dispatch H tail iface (p_open p) (p_timestamp p) b;
                   Some (\<lparr>p_line = buf', p_len = 0, p_open = op, p_timestamp = ts\<rparr>, b', ops, True) })"
  proof (cases "tail = []")
    case True
    then show ?thesis using assms(2) by (intro exI [of _ buf]) (simp add: feed_def)
  next
    case False
    from feed_line_dispatch [OF wf _ False n(3) sets(3,4), of H iface b] assms(2) False show ?thesis by simp
  qed
  then obtain buf' where tl: "feed_all H iface (tail @ [CR]) (p\<lparr>p_line := buf\<rparr>) b =
        (if tail = [] then Some (p\<lparr>p_line := buf'\<rparr>, b, [], False)
         else do { (op, ts, b', ops) \<leftarrow> dispatch H tail iface (p_open p) (p_timestamp p) b;
                   Some (\<lparr>p_line = buf', p_len = 0, p_open = op, p_timestamp = ts\<rparr>, b', ops, True) })" by blast
  have "feed_all H iface (line @ [CR]) p b =
        (if tail = [] then Some (p\<lparr>p_line := buf'\<rparr>, b, replicate n (WriteAll [BELL]), True)
         else do { (op, ts, b', ops) \<leftarrow> dispatch H tail iface (p_open p) (p_timestamp p) b;
                   Some (\<lparr>p_line = buf', p_len = 0, p_open = op, p_timestamp = ts\<rparr>, b',
                     replicate n (WriteAll [BELL]) @ ops, True) })"
    unfolding line feed_all_append [of H iface ?head] buf(2) Option.bind.bind_lunit prod.case tl
    using n(1) by (auto split: Option.bind_splits)
  with n(1,3) show ?thesis by blast
qed

theorem overlong_line_tail_is_executed_witness:
  "\<exists>buf. feed_all loopback_hal Tcp ((replicate 130 0x78 @ ascii ''O'') @ [CR]) port_init
       \<lparr>CAN = CanManager_new, cnt = counters_init\<rparr> =
     Some (\<lparr>p_line = buf, p_len = 0, p_open = True, p_timestamp = False\<rparr>,
       \<lparr>CAN = can_open loopback_hal False CanManager_new, cnt = counters_init\<rparr>,
       [WriteAll [BELL], WriteAll [BELL], WriteAll [CR]], True)"
proof -
  let ?b = "\<lparr>CAN = CanManager_new, cnt = counters_init\<rparr> :: demo_frame list bridge"
  have "dispatch loopback_hal (ascii ''O'') Tcp False ts ?b =
      Some (True, ts, ?b\<lparr>CAN := can_open loopback_hal False CanManager_new\<rparr>, [WriteAll [CR]])" for ts
    by (simp add: dispatch_def idx_def reply_def)
  moreover have len: "length (replicate 130 (0x78 :: u8) @ ascii ''O'') div 65 = 2"
    "drop (65 * 2) (replicate 130 (0x78 :: u8) @ ascii ''O'') = ascii ''O''" by (simp_all add: drop_append)
  moreover have "64 < length (replicate 130 (0x78 :: u8) @ ascii ''O'')" "CR \<notin> set (replicate 130 0x78 @ ascii ''O'')"
    "0x0a \<notin> set (replicate 130 (0x78 :: u8) @ ascii ''O'')" by (simp_all add: CR_def)
  moreover have "p_timestamp port_init = False" "ascii ''O'' \<noteq> []" by (simp_all add: port_init_def)
  ultimately show ?thesis
    using overlong_line_tail_is_executed [OF port_wf_init port_init_closed(2),
      of "replicate 130 0x78 @ ascii ''O''" loopback_hal Tcp ?b, unfolded len]
    by (auto simp: numeral_2_eq_2 simp del: ascii_simps)
qed

section \<open>Rounds\<close>

definition written :: "conn_op list \<Rightarrow> bytes" where
  "written ops = concat (map (\<lambda>w. case w of WriteAll bs \<Rightarrow> bs | FlushConn \<Rightarrow> []) ops)"

lemma written_simps [simp]:
  "written [] = []" "written (WriteAll bs # ops) = bs @ written ops" "written (FlushConn # ops) = written ops"
  "written (ops @ ops') = written ops @ written ops'"
  by (simp_all add: written_def)

definition byte_rounds :: "(nat \<times> bytes) list \<Rightarrow> (nat \<times> Act) list" where
  "byte_rounds evs = map (\<lambda>(ms, bs). (ms, Bytes bs)) evs"

lemma port_loop_bytes:
  "map_option (\<lambda>(p, b, ops, s). (p, b, written ops, s)) (port_loop H iface (byte_rounds evs) p b) =
   map_option (\<lambda>(p, b, ops, w). (p, b, written ops, False)) (feed_all H iface (concat (map snd evs)) p b)"
proof (induction evs arbitrary: p b)
  case Nil
  show ?case by (simp add: byte_rounds_def)
next
  case (Cons ev evs)
  obtain ms bs where ev: "ev = (ms, bs)" by (cases ev)
  show ?case
  proof (cases "feed_all H iface bs p b")
    case None
    then show ?thesis by (simp add: ev byte_rounds_def feed_all_append port_round_def)
  next
    case (Some r)
    obtain p1 b1 ops1 w1 where r: "r = (p1, b1, ops1, w1)" by (cases r)
    show ?thesis
      using Cons [of p1 b1] Some r
      by (cases "port_loop H iface (byte_rounds evs) p1 b1";
          cases "feed_all H iface (concat (map snd evs)) p1 b1")
        (auto simp: ev byte_rounds_def feed_all_append port_round_def)
  qed
qed

text \<open>
  C14.  Segmentation does not matter: however a link cuts the same byte stream into reads, and
  whenever they arrive, the port, the shared state and the bytes written are the same.
\<close>

theorem segmentation_irrelevant:
  assumes "concat (map snd evs) = concat (map snd evs')"
  shows "map_option (\<lambda>(p, b, ops, s). (p, b, written ops, s)) (port_loop H iface (byte_rounds evs) p b) =
         map_option (\<lambda>(p, b, ops, s). (p, b, written ops, s)) (port_loop H iface (byte_rounds evs') p b)"
  unfolding port_loop_bytes assms ..

theorem segmentation_irrelevant_witness:
  "map_option (\<lambda>(p, b, ops, s). (p, b, written ops, s))
     (port_loop loopback_hal Tcp (byte_rounds [(0, ascii ''V''), (7, [CR])]) port_init
        \<lparr>CAN = CanManager_new, cnt = counters_init\<rparr>) =
   map_option (\<lambda>(p, b, ops, s). (p, b, written ops, s))
     (port_loop loopback_hal Tcp (byte_rounds [(3, ascii ''V'' @ [CR])]) port_init
        \<lparr>CAN = CanManager_new, cnt = counters_init\<rparr>)"
  by (rule segmentation_irrelevant) simp

lemma now_ms_value: "unat (now_ms ms) = ms mod 60000"
proof -
  have "ms mod 60000 < 60000" by simp
  then have "ms mod 60000 < 65536" by linarith
  then show ?thesis by (simp add: now_ms_def unat_of_nat)
qed

lemma hex_acc_u16: "map_option unat (hex_acc nibble (hex_digits hex_digit 4 (t::u16)) 0) = Some (unat t)"
proof -
  have "(ucast (drop_bit k t) :: u8) = ucast (drop_bit k (ucast t :: u32))" for k
    by (rule bit_word_eqI) (auto simp: bit_simps dest: bit_imp_le_length)
  then have "hex_digits hex_digit 4 t = hex_digits hex_digit 4 (ucast t :: u32)"
    by (simp only: hex_digits_def)
  moreover have "take_bit 16 (ucast t :: u32) = ucast t"
    by (rule bit_word_eqI) (auto simp: bit_simps dest: bit_imp_le_length)
  ultimately show ?thesis
    using slcan_hex.hex_acc_enc [of 4 "ucast t" 0] unsigned_less [where ?'a = nat, of t]
    by (simp add: unsigned_ucast_eq take_bit_nat_eq_self)
qed

lemma port_round_frame:
  assumes "wf_frame f"
  shows "port_round H iface ms (Frame f) p b =
    (if p_open p then
       Some (p, b\<lparr>cnt := count_out iface (cnt b)\<rparr>,
         [WriteAll (frame_ascii f (if p_timestamp p then Some (now_ms ms) else None)), FlushConn])
     else Some (p, b, []))"
proof -
  have "length (frame_ascii f ts) \<le> 32" for ts using length_frame_ascii_le [OF assms, of ts] by simp
  then have "format_frame f ts (replicate 32 0) = Some (frame_ascii f ts
      @ drop (length (frame_ascii f ts)) (replicate 32 0), length (frame_ascii f ts))" for ts
    using format_frame_result [OF assms, of ts "replicate 32 0"] by simp
  then show ?thesis by (auto simp: port_round_def MAX_FRAME_ASCII_def slice_def)
qed

text \<open>
  C16.  A bus frame reaches the host of an open port as one flushed line, which without timestamps
  parses back to the frame, and nothing reaches the host of a closed port.  With timestamps on, the
  four digits before the CR are the millisecond clock modulo 60000.
\<close>

theorem frame_round_forwards:
  assumes "canonical_frame f"
  shows "if p_open p
    then \<exists>line stamp. port_round H iface ms (Frame f) p b =
           Some (p, b\<lparr>cnt := count_out iface (cnt b)\<rparr>, [WriteAll (line @ stamp @ [CR]), FlushConn]) \<and>
         parse_tx line = Some (Some f) \<and>
         (if p_timestamp p then length stamp = 4 \<and> map_option unat (hex_acc nibble stamp 0) = Some (ms mod 60000)
          else stamp = [])
    else port_round H iface ms (Frame f) p b = Some (p, b, [])"
proof (cases "p_open p")
  case True
  have wf: "wf_frame f" using assms by (simp add: canonical_frame_def)
  let ?line = "butlast (frame_ascii f None)"
  let ?stamp = "if p_timestamp p then hex_digits hex_digit 4 (now_ms ms) else []"
  have "frame_ascii f (if p_timestamp p then Some (now_ms ms) else None) = ?line @ ?stamp @ [CR]"
    by (simp add: frame_ascii_def butlast_append)
  moreover have "parse_tx ?line = Some (Some f)" by (simp add: parse_tx_eq parse_frame_ascii [OF assms])
  moreover have "map_option unat (hex_acc nibble (hex_digits hex_digit 4 (now_ms ms)) 0) = Some (ms mod 60000)"
    using hex_acc_u16 [of "now_ms ms"] by (simp add: now_ms_value)
  ultimately show ?thesis
    unfolding if_P [OF True] using True port_round_frame [OF wf, of H iface ms p b]
    by (intro exI [of _ ?line] exI [of _ ?stamp]) simp
qed (simp add: port_round_def)

theorem frame_round_forwards_witness:
  "\<exists>line stamp. port_round loopback_hal Tcp 61234 (Frame (CanFrame_default\<lparr>f_id := 0x123\<rparr>))
       (port_init\<lparr>p_open := True, p_timestamp := True\<rparr>) \<lparr>CAN = CanManager_new, cnt = counters_init\<rparr> =
     Some (port_init\<lparr>p_open := True, p_timestamp := True\<rparr>,
       \<lparr>CAN = CanManager_new, cnt = count_out Tcp counters_init\<rparr>, [WriteAll (line @ stamp @ [CR]), FlushConn]) \<and>
     parse_tx line = Some (Some (CanFrame_default\<lparr>f_id := 0x123\<rparr>)) \<and>
     length stamp = 4 \<and> map_option unat (hex_acc nibble stamp 0) = Some 1234"
  using frame_round_forwards [of "CanFrame_default\<lparr>f_id := 0x123\<rparr>"
      "port_init\<lparr>p_open := True, p_timestamp := True\<rparr>" loopback_hal Tcp 61234
      "\<lparr>CAN = CanManager_new, cnt = counters_init\<rparr>"]
  by (simp add: canonical_frame_def wf_frame_def CanFrame_default_def payload_def)

lemma frame_ascii_line:
  assumes "wf_frame f"
  shows "\<exists>line. frame_ascii f None = line @ [CR] \<and> line = butlast (frame_ascii f None) \<and> line \<noteq> [] \<and>
     length line \<le> 64 \<and> CR \<notin> set line \<and> 0x0a \<notin> set line \<and> hd line = frame_tag f"
proof -
  obtain body where "frame_ascii f None = body @ [CR]"
    "CR \<notin> set body \<and> BELL \<notin> set body \<and> 0x0a \<notin> set body" by (rule frame_ascii_body)
  moreover have "hd (frame_ascii f None) = frame_tag f" by (simp add: frame_ascii_def)
  ultimately show ?thesis
    using length_frame_ascii_le [OF assms, of None] length_frame_ascii [OF assms, of None]
    by (intro exI [of _ body]) (auto simp: hd_append id_len_def split: if_splits)
qed

lemma feed_frame_line:
  assumes "hal_ok H" "canonical_frame f" "id_in_range f" "port_wf p" "p_len p = 0" "p_open p"
    "twai (CAN b) = Some tw"
  shows "\<exists>fr p'. from_esp H fr = Some f \<and> p_open p' \<and> p_len p' = 0 \<and>
     feed_all H iface (frame_ascii f None) p b =
       (let (ok, tw') = try_transmit H tw fr; c = count_in iface (cnt b) in
        Some (p', \<lparr>CAN = (CAN b)\<lparr>twai := Some tw'\<rparr>,
                   cnt = (if ok then c\<lparr>TX_COUNT := TX_COUNT c + 1\<rparr> else c)\<rparr>,
          [WriteAll (if ok then [if f_ext f then asc CHR ''Z'' else asc CHR ''z'', CR] else [BELL])], True))"
proof -
  have wf: "wf_frame f" using assms(2) by (simp add: canonical_frame_def)
  obtain line where line: "frame_ascii f None = line @ [CR]" "line = butlast (frame_ascii f None)"
    "line \<noteq> []" "length line \<le> 64" "CR \<notin> set line" "0x0a \<notin> set line" "hd line = frame_tag f"
    using frame_ascii_line [OF wf] by blast
  obtain fr where fr: "to_esp H f = Some (Some fr)" "from_esp H fr = Some f"
    using to_esp_roundtrip_canonical [OF assms(1,2,3)] by blast
  obtain ok tw' where tx: "try_transmit H tw fr = (ok, tw')" by fastforce
  have parse: "parse_tx line = Some (Some f)"
    using parse_frame_ascii [OF assms(2)] by (simp add: parse_tx_eq line(2))
  have cmd: "idx line 0 = Some (frame_tag f)"
    using line(3,7) by (cases line) (simp_all add: idx_def)
  have wide: "(frame_tag f = 84 \<or> frame_tag f = 82) = f_ext f"
    by (cases "f_ext f"; cases "f_rtr f") (simp_all add: frame_tag_def)
  have "dispatch_tx H line (frame_tag f) iface True ts b =
      (let c = count_in iface (cnt b) in
       Some (True, ts, \<lparr>CAN = (CAN b)\<lparr>twai := Some tw'\<rparr>,
                   cnt = (if ok then c\<lparr>TX_COUNT := TX_COUNT c + 1\<rparr> else c)\<rparr>,
          [WriteAll (if ok then [if f_ext f then asc CHR ''Z'' else asc CHR ''z'', CR] else [BELL])]))" for ts
    using assms(7) fr(1) tx by (cases b) (auto simp: dispatch_tx_def parse transmit_def reply_def Let_def wide)
  moreover have "dispatch H line iface True ts b = dispatch_tx H line (frame_tag f) iface True ts b" for ts
    by (cases "f_ext f"; cases "f_rtr f") (simp_all add: dispatch_def cmd frame_tag_def)
  ultimately show ?thesis
    using feed_line_dispatch [OF assms(4,5) line(3,4,5,6), of H iface b] fr(2) tx assms(6)
    by (auto simp: line(1) Let_def intro!: exI [of _ fr])
qed

text \<open>
  C15.  A host that sends an open port the line of a frame gets the frame onto the bus: the driver is
  handed a frame that converts back to exactly that frame, and the reply is the confirmation (\<^verbatim>\<open>z\<close> or
  \<^verbatim>\<open>Z\<close> by id width) when the controller took it and BELL when it did not.  One received host frame is
  counted, and one transmitted frame when it was taken.
\<close>

theorem transmit_line:
  assumes "hal_ok H" "canonical_frame f" "id_in_range f" "port_wf p" "p_len p = 0" "p_open p"
    "twai (CAN b) = Some tw"
  shows "\<exists>fr p'. from_esp H fr = Some f \<and> p_open p' \<and> p_len p' = 0 \<and>
     feed_all H iface (frame_ascii f None) p b =
       (let (ok, tw') = try_transmit H tw fr; c = count_in iface (cnt b) in
        Some (p', \<lparr>CAN = (CAN b)\<lparr>twai := Some tw'\<rparr>,
                   cnt = (if ok then c\<lparr>TX_COUNT := TX_COUNT c + 1\<rparr> else c)\<rparr>,
          [WriteAll (if ok then [if f_ext f then asc CHR ''Z'' else asc CHR ''z'', CR] else [BELL])], True))"
  using feed_frame_line [OF assms] .

theorem transmit_line_witness:
  "\<exists>fr p'. from_esp loopback_hal fr = Some (CanFrame_default\<lparr>f_id := 0x123\<rparr>) \<and> p_open p' \<and> p_len p' = 0 \<and>
     feed_all loopback_hal Tcp (frame_ascii (CanFrame_default\<lparr>f_id := 0x123\<rparr>) None) (port_init\<lparr>p_open := True\<rparr>)
       \<lparr>CAN = can_open loopback_hal False CanManager_new, cnt = counters_init\<rparr> =
       (let (ok, tw') = try_transmit loopback_hal [] fr; c = count_in Tcp counters_init in
        Some (p', \<lparr>CAN = (can_open loopback_hal False CanManager_new)\<lparr>twai := Some tw'\<rparr>,
                   cnt = (if ok then c\<lparr>TX_COUNT := TX_COUNT c + 1\<rparr> else c)\<rparr>,
          [WriteAll (if ok then [asc CHR ''z'', CR] else [BELL])], True))"
proof -
  have "canonical_frame (CanFrame_default\<lparr>f_id := 0x123\<rparr>)" "id_in_range (CanFrame_default\<lparr>f_id := 0x123\<rparr>)"
    by (simp_all add: canonical_frame_def wf_frame_def CanFrame_default_def payload_def id_in_range_def)
  moreover have "port_wf (port_init\<lparr>p_open := True\<rparr>)" by (simp add: port_wf_def port_init_def)
  moreover have std: "f_ext (CanFrame_default\<lparr>f_id := 0x123\<rparr>) = False" by (simp add: CanFrame_default_def)
  ultimately show ?thesis
    using transmit_line [OF loopback_hal_ok, of "CanFrame_default\<lparr>f_id := 0x123\<rparr>" "port_init\<lparr>p_open := True\<rparr>"
      "\<lparr>CAN = can_open loopback_hal False CanManager_new, cnt = counters_init\<rparr>" "[]" Tcp]
    unfolding std if_False by (simp add: twai_open_loopback)
qed

section \<open>A port that ends releases the channel\<close>

text \<open>The channel has \<open>base\<close> other users, and this port as one more while it is open.\<close>

definition holds_channel :: "nat \<Rightarrow> port \<Rightarrow> 't bridge \<Rightarrow> bool" where
  "holds_channel base p b \<longleftrightarrow>
     can_inv (CAN b) \<and> unat (open_count (CAN b)) = base + of_bool (p_open p)"

lemma channel_step_holds:
  assumes "base < 2 ^ 32 - 1" "can_inv m" "unat (open_count m) = base + of_bool op"
    "channel_step H op m op' m'"
  shows "can_inv m' \<and> unat (open_count m') = base + of_bool op'"
proof (cases "op = op'")
  case True
  then show ?thesis using assms by (simp add: channel_step_def can_inv_def)
next
  case False
  show ?thesis
  proof (cases op')
    case True
    then obtain l where "m' = can_open H l m" using False assms(4) by (auto simp: channel_step_def)
    then show ?thesis
      using can_chan.users_acquire [of m H l] can_chan.ok_acquire [of m H l] assms(1-3) False True by auto
  next
    case closed: False
    then have "m' = can_close m" using False assms(4) by (simp add: channel_step_def)
    then show ?thesis
      using can_chan.users_release [of m] can_chan.ok_release [of m] assms(2,3) False closed by auto
  qed
qed

lemma feed_all_result:
  assumes "port_wf p"
  shows "\<exists>p' b' ops w. feed_all H iface xs p b = Some (p', b', ops, w) \<and> port_wf p' \<and>
    (w \<longleftrightarrow> ops \<noteq> []) \<and> list_all is_write ops \<and>
    (base < 2 ^ 32 - 1 \<longrightarrow> holds_channel base p b \<longrightarrow> holds_channel base p' b')"
  using assms
proof (induction xs arbitrary: p b)
  case Nil
  then show ?case by simp
next
  case (Cons x xs)
  obtain p1 b1 ops1 w1 where one: "feed H iface x p b = Some (p1, b1, ops1, w1)" "port_wf p1"
    "channel_step H (p_open p) (CAN b) (p_open p1) (CAN b1)" "w1 \<longleftrightarrow> ops1 \<noteq> []" "list_all is_write ops1"
    using feed_result [OF Cons.prems, of H iface x b] that by (elim exE conjE)
  obtain p2 b2 ops2 w2 where two: "feed_all H iface xs p1 b1 = Some (p2, b2, ops2, w2)" "port_wf p2"
    "w2 \<longleftrightarrow> ops2 \<noteq> []" "list_all is_write ops2"
    "base < 2 ^ 32 - 1 \<longrightarrow> holds_channel base p1 b1 \<longrightarrow> holds_channel base p2 b2"
    using Cons.IH [OF one(2), of b1] that by (elim exE conjE)
  have "base < 2 ^ 32 - 1 \<longrightarrow> holds_channel base p b \<longrightarrow> holds_channel base p1 b1"
    using channel_step_holds [OF _ _ _ one(3), of base] by (simp add: holds_channel_def)
  with one two show ?case by auto
qed

lemma port_round_result:
  assumes "port_wf p" "\<forall>f. act = Frame f \<longrightarrow> wf_frame f"
  shows "\<exists>p' b' ops. port_round H iface ms act p b = Some (p', b', ops) \<and> port_wf p' \<and>
    (base < 2 ^ 32 - 1 \<longrightarrow> holds_channel base p b \<longrightarrow> holds_channel base p' b')"
proof (cases act)
  case (Bytes bs)
  then show ?thesis
    using feed_all_result [OF assms(1), of H iface bs b base] by (auto simp: port_round_def)
next
  case (Frame f)
  then show ?thesis
    using port_round_frame [of f H iface ms p b] assms by (auto simp: holds_channel_def)
qed (use assms in \<open>simp add: port_round_def\<close>)

lemma port_loop_result:
  assumes "port_wf p" "\<forall>f. Frame f \<in> snd ` set evs \<longrightarrow> wf_frame f"
  shows "\<exists>p' b' ops. port_loop H iface evs p b = Some (p', b', ops, Stop \<in> snd ` set evs) \<and> port_wf p' \<and>
    (base < 2 ^ 32 - 1 \<longrightarrow> holds_channel base p b \<longrightarrow> holds_channel base p' b')"
  using assms
proof (induction evs arbitrary: p b)
  case Nil
  then show ?case by simp
next
  case (Cons ev evs)
  obtain ms act where ev: "ev = (ms, act)" by (cases ev)
  show ?case
  proof (cases "act = Stop")
    case True
    then show ?thesis using Cons.prems by (simp add: ev)
  next
    case False
    have wf: "\<forall>f. act = Frame f \<longrightarrow> wf_frame f" using Cons.prems(2) by (auto simp: ev)
    obtain p1 b1 ops1 where one: "port_round H iface ms act p b = Some (p1, b1, ops1)" "port_wf p1"
      "base < 2 ^ 32 - 1 \<longrightarrow> holds_channel base p b \<longrightarrow> holds_channel base p1 b1"
      using port_round_result [OF Cons.prems(1) wf, of H iface ms b base] that by (elim exE conjE)
    have later: "\<forall>f. Frame f \<in> snd ` set evs \<longrightarrow> wf_frame f" using Cons.prems(2) by simp
    obtain p2 b2 ops2 where
      "port_loop H iface evs p1 b1 = Some (p2, b2, ops2, Stop \<in> snd ` set evs)" "port_wf p2"
      "base < 2 ^ 32 - 1 \<longrightarrow> holds_channel base p1 b1 \<longrightarrow> holds_channel base p2 b2"
      using Cons.IH [OF one(2) later, of b1] that by (elim exE conjE)
    with one False show ?thesis by (auto simp: ev)
  qed
qed

lemma run_port_stopped:
  assumes "can_inv (CAN b)" "open_count (CAN b) < 2 ^ 32 - 1"
    "\<forall>f. Frame f \<in> snd ` set evs \<longrightarrow> wf_frame f" "Stop \<in> snd ` set evs"
  shows "\<exists>b' ops. run_port H iface evs b = Some (b', ops, True) \<and> can_inv (CAN b') \<and>
     open_count (CAN b') = open_count (CAN b) \<and> (twai (CAN b') = None \<longleftrightarrow> twai (CAN b) = None)"
proof -
  let ?n = "unat (open_count (CAN b))"
  have n: "?n < 2 ^ 32 - 1" using assms(2) by (simp add: word_less_nat_alt)
  obtain p' b' ops where loop: "port_loop H iface evs port_init b = Some (p', b', ops, True)"
    "?n < 2 ^ 32 - 1 \<longrightarrow> holds_channel ?n port_init b \<longrightarrow> holds_channel ?n p' b'"
    using port_loop_result [OF port_wf_init assms(3), of H iface b ?n] assms(4) by auto
  then have held: "can_inv (CAN b')" "unat (open_count (CAN b')) = ?n + of_bool (p_open p')"
    using n assms(1) by (simp_all add: holds_channel_def)
  have "can_inv (CAN (port_end p' b')) \<and> unat (open_count (CAN (port_end p' b'))) = ?n"
    using held can_chan.users_release [of "CAN b'"] can_chan.ok_release [of "CAN b'"]
    by (cases "p_open p'") (simp_all add: port_end_def)
  then have "can_inv (CAN (port_end p' b'))" "open_count (CAN (port_end p' b')) = open_count (CAN b)"
    by (auto intro: unsigned_word_eqI)
  then show ?thesis using loop(1) assms(1) by (simp add: run_port_def can_inv_def)
qed

lemma run_port_total:
  "\<forall>f. Frame f \<in> snd ` set evs \<longrightarrow> wf_frame f \<Longrightarrow>
   \<exists>b' ops. run_port H iface evs b = Some (b', ops, Stop \<in> snd ` set evs)"
  using port_loop_result [OF port_wf_init, of evs H iface b 0] by (auto simp: run_port_def)

text \<open>
  C13.  A link that ends gives back what its port took: whatever bytes and frames the port handled,
  after the end of the link the number of users of the channel is what it was before, and the
  controller is on the bus exactly if it was before.  The port never panics on the way.
\<close>

theorem run_port_releases_channel:
  assumes "can_inv (CAN b)" "open_count (CAN b) < 2 ^ 32 - 1"
    "\<forall>f. Frame f \<in> snd ` set evs \<longrightarrow> wf_frame f" "Stop \<in> snd ` set evs"
  shows "\<exists>b' ops. run_port H iface evs b = Some (b', ops, True) \<and> can_inv (CAN b') \<and>
     open_count (CAN b') = open_count (CAN b) \<and> (twai (CAN b') = None \<longleftrightarrow> twai (CAN b) = None)"
  using assms by (rule run_port_stopped)

theorem run_port_releases_channel_witness:
  "\<exists>b' ops. run_port loopback_hal Tcp [(0, Bytes (ascii ''O'' @ [CR])), (5, Stop)]
       \<lparr>CAN = CanManager_new, cnt = counters_init\<rparr> = Some (b', ops, True) \<and> can_inv (CAN b') \<and>
     open_count (CAN b') = 0 \<and> (twai (CAN b') = None \<longleftrightarrow> twai (CanManager_new :: demo_frame list CanManager) = None)"
  using run_port_releases_channel [of "\<lparr>CAN = CanManager_new, cnt = counters_init\<rparr>"
      "[(0, Bytes (ascii ''O'' @ [CR])), (5, Stop)]" loopback_hal Tcp]
  by (simp add: CanManager_new_def can_inv_def)

end
