(* ===== verification/Ports.thy ===== *)
theory Ports
  imports Transport
begin

text \<open>
  The port tasks of the firmware running together: \<^verbatim>\<open>uart_port\<close> and the two \<^verbatim>\<open>tcp_port\<close> tasks of
  \<^verbatim>\<open>src/main.rs\<close>, the session part of \<^verbatim>\<open>autoconnect_task\<close> of \<^verbatim>\<open>src/autoconnect.rs\<close>, and
  \<^verbatim>\<open>can_rx_task\<close> of \<^verbatim>\<open>src/can.rs\<close>.  The executor is cooperative, so between two await points a task
  runs alone; each rule below is a stretch without an await that touches shared state.  A command is
  one such stretch: the dispatcher takes the CAN lock at most once and sets the port's flag before it
  awaits again.

  The publish/subscribe channel of embassy-sync is outside the repository; the model records which
  frames were published and lets a port receive any of them, in any order and any number of times.
\<close>

section \<open>Model\<close>

datatype port_task = UartPort | ApPort | StaPort | AutoPort

text \<open>
  The life of a session: no link; dialling (the outbound task has subscribed and counted itself but
  the TLS handshake is still running); the port runner at work; link gone, subscriber not yet dropped.
\<close>

datatype session = Idle | Linking | Live port | Closing

record 't sys =
  shared :: "'t bridge"
  sessions :: "port_task \<Rightarrow> session"
  TCP_CLIENTS :: u32
  rx_subs :: nat
  published :: "CanFrame list"

definition RX_BUS_SUBS :: nat where "RX_BUS_SUBS = 4"

definition task_iface :: "port_task \<Rightarrow> Iface" where
  "task_iface t = (if t = UartPort then Serial else Tcp)"

definition sys_init :: "'t sys" where
  "sys_init = \<lparr>shared = \<lparr>CAN = CanManager_new, cnt = counters_init\<rparr>, sessions = (\<lambda>_. Idle),
     TCP_CLIENTS = 0, rx_subs = 0, published = []\<rparr>"

text \<open>\<^verbatim>\<open>rx_subscriber()\<close>: a panic when all subscriber slots are taken.\<close>

definition rx_subscriber :: "'t sys \<Rightarrow> 't sys run" where
  "rx_subscriber s = (if rx_subs s < RX_BUS_SUBS then Some (s\<lparr>rx_subs := rx_subs s + 1\<rparr>) else None)"

definition set_session :: "port_task \<Rightarrow> session \<Rightarrow> 't sys \<Rightarrow> 't sys" where
  "set_session t x s = s\<lparr>sessions := (sessions s)(t := x)\<rparr>"

text \<open>\<^verbatim>\<open>uart_port\<close> up to its port runner; the body of \<^verbatim>\<open>tcp_port\<close> after a successful accept.\<close>

definition uart_start :: "'t sys \<Rightarrow> 't sys run" where
  "uart_start s = do { s \<leftarrow> rx_subscriber s; Some (set_session UartPort (Live port_init) s) }"

definition tcp_accept :: "port_task \<Rightarrow> 't sys \<Rightarrow> 't sys run" where
  "tcp_accept t s =
     do { s \<leftarrow> rx_subscriber s;
          Some (set_session t (Live port_init) (s\<lparr>TCP_CLIENTS := TCP_CLIENTS s + 1\<rparr>)) }"

definition auto_dial :: "'t sys \<Rightarrow> 't sys run" where
  "auto_dial s =
     do { s \<leftarrow> rx_subscriber s;
          Some (set_session AutoPort Linking (s\<lparr>TCP_CLIENTS := TCP_CLIENTS s + 1\<rparr>)) }"

text \<open>The end of a TCP session: the runner's close, the client count; later the subscriber goes.\<close>

definition tcp_end :: "port_task \<Rightarrow> port \<Rightarrow> 't sys \<Rightarrow> 't sys" where
  "tcp_end t p s =
     set_session t Closing (s\<lparr>shared := port_end p (shared s), TCP_CLIENTS := TCP_CLIENTS s - 1\<rparr>)"

inductive sys_step :: "('t, 'f) twai_hal \<Rightarrow> 't sys \<Rightarrow> 't sys \<Rightarrow> bool" for H where
  uart_up: "sessions s UartPort = Idle \<Longrightarrow> uart_start s = Some s' \<Longrightarrow> sys_step H s s'"
| accept: "t \<in> {ApPort, StaPort} \<Longrightarrow> sessions s t = Idle \<Longrightarrow> tcp_accept t s = Some s' \<Longrightarrow> sys_step H s s'"
| dial: "sessions s AutoPort = Idle \<Longrightarrow> auto_dial s = Some s' \<Longrightarrow> sys_step H s s'"
| linked: "sessions s AutoPort = Linking \<Longrightarrow> sys_step H s (set_session AutoPort (Live port_init) s)"
| link_failed: "sessions s AutoPort = Linking \<Longrightarrow>
    sys_step H s (set_session AutoPort Closing (s\<lparr>TCP_CLIENTS := TCP_CLIENTS s - 1\<rparr>))"
| byte: "sessions s t = Live p \<Longrightarrow> feed H (task_iface t) x p (shared s) = Some (p', b', ops, w) \<Longrightarrow>
    sys_step H s (set_session t (Live p') (s\<lparr>shared := b'\<rparr>))"
| deliver: "sessions s t = Live p \<Longrightarrow> f \<in> set (published s) \<Longrightarrow>
    port_round H (task_iface t) ms (Frame f) p (shared s) = Some (p', b', ops) \<Longrightarrow>
    sys_step H s (set_session t (Live p') (s\<lparr>shared := b'\<rparr>))"
| link_end: "t \<noteq> UartPort \<Longrightarrow> sessions s t = Live p \<Longrightarrow> sys_step H s (tcp_end t p s)"
| drop_sub: "sessions s t = Closing \<Longrightarrow>
    sys_step H s (set_session t Idle (s\<lparr>rx_subs := rx_subs s - 1\<rparr>))"
| bus_rx: "can_rx_round H (CAN (shared s)) (cnt (shared s)) = Some (fs, m', c') \<Longrightarrow>
    sys_step H s (s\<lparr>shared := \<lparr>CAN = m', cnt = c'\<rparr>, published := published s @ fs\<rparr>)"

inductive reachable :: "('t, 'f) twai_hal \<Rightarrow> 't sys \<Rightarrow> bool" for H where
  start: "reachable H sys_init"
| step: "reachable H s \<Longrightarrow> sys_step H s s' \<Longrightarrow> reachable H s'"

section \<open>The invariant\<close>

lemma UNIV_port_task: "(UNIV :: port_task set) = {UartPort, ApPort, StaPort, AutoPort}"
  using port_task.exhaust by auto

text \<open>The tasks are enumerated, so that sets of tasks are finite and quantifiers over them execute.\<close>

instantiation port_task :: enum
begin

definition enum_port_task :: "port_task list" where
  "enum_port_task = [UartPort, ApPort, StaPort, AutoPort]"

definition enum_all_port_task :: "(port_task \<Rightarrow> bool) \<Rightarrow> bool" where
  "enum_all_port_task P \<longleftrightarrow> P UartPort \<and> P ApPort \<and> P StaPort \<and> P AutoPort"

definition enum_ex_port_task :: "(port_task \<Rightarrow> bool) \<Rightarrow> bool" where
  "enum_ex_port_task P \<longleftrightarrow> P UartPort \<or> P ApPort \<or> P StaPort \<or> P AutoPort"

instance
  by standard (auto simp: enum_port_task_def enum_all_port_task_def enum_ex_port_task_def UNIV_port_task)

end

lemma card_port_task [simp]: "card (UNIV :: port_task set) = 4"
  by (simp add: UNIV_port_task)

definition session_open :: "session \<Rightarrow> bool" where
  "session_open x \<longleftrightarrow> (\<exists>p. x = Live p \<and> p_open p)"

definition session_counted :: "session \<Rightarrow> bool" where
  "session_counted x \<longleftrightarrow> x = Linking \<or> (\<exists>p. x = Live p)"

lemma session_simps [simp]:
  "\<not> session_open Idle" "\<not> session_open Linking" "\<not> session_open Closing"
  "session_open (Live p) \<longleftrightarrow> p_open p"
  "\<not> session_counted Idle" "session_counted Linking" "\<not> session_counted Closing" "session_counted (Live p)"
  by (simp_all add: session_open_def session_counted_def)

definition open_tasks :: "'t sys \<Rightarrow> port_task set" where
  "open_tasks s = {t. session_open (sessions s t)}"

definition client_tasks :: "'t sys \<Rightarrow> port_task set" where
  "client_tasks s = {t. t \<noteq> UartPort \<and> session_counted (sessions s t)}"

definition sub_tasks :: "'t sys \<Rightarrow> port_task set" where
  "sub_tasks s = {t. sessions s t \<noteq> Idle}"

definition sys_inv :: "'t sys \<Rightarrow> bool" where
  "sys_inv s \<longleftrightarrow>
     can_inv (CAN (shared s)) \<and> unat (open_count (CAN (shared s))) = card (open_tasks s) \<and>
     unat (TCP_CLIENTS s) = card (client_tasks s) \<and> rx_subs s = card (sub_tasks s) \<and>
     (\<forall>t p. sessions s t = Live p \<longrightarrow> port_wf p) \<and> (\<forall>f \<in> set (published s). wf_frame f)"

lemma set_session_simps [simp]:
  "shared (set_session t x s) = shared s" "TCP_CLIENTS (set_session t x s) = TCP_CLIENTS s"
  "rx_subs (set_session t x s) = rx_subs s" "published (set_session t x s) = published s"
  "sessions (set_session t x s) = (sessions s)(t := x)"
  by (simp_all add: set_session_def)

lemma tasks_set_session:
  "open_tasks (set_session t x s) = (if session_open x then insert t (open_tasks s) else open_tasks s - {t})"
  "client_tasks (set_session t x s) =
     (if t \<noteq> UartPort \<and> session_counted x then insert t (client_tasks s) else client_tasks s - {t})"
  "sub_tasks (set_session t x s) = (if x \<noteq> Idle then insert t (sub_tasks s) else sub_tasks s - {t})"
  by (auto simp: open_tasks_def client_tasks_def sub_tasks_def)

lemma tasks_fields [simp]:
  "open_tasks (s\<lparr>shared := b\<rparr>) = open_tasks s" "client_tasks (s\<lparr>shared := b\<rparr>) = client_tasks s"
  "sub_tasks (s\<lparr>shared := b\<rparr>) = sub_tasks s"
  "open_tasks (s\<lparr>TCP_CLIENTS := n\<rparr>) = open_tasks s" "client_tasks (s\<lparr>TCP_CLIENTS := n\<rparr>) = client_tasks s"
  "sub_tasks (s\<lparr>TCP_CLIENTS := n\<rparr>) = sub_tasks s"
  "open_tasks (s\<lparr>rx_subs := k\<rparr>) = open_tasks s" "client_tasks (s\<lparr>rx_subs := k\<rparr>) = client_tasks s"
  "sub_tasks (s\<lparr>rx_subs := k\<rparr>) = sub_tasks s"
  "open_tasks (s\<lparr>published := fs\<rparr>) = open_tasks s" "client_tasks (s\<lparr>published := fs\<rparr>) = client_tasks s"
  "sub_tasks (s\<lparr>published := fs\<rparr>) = sub_tasks s"
  by (simp_all add: open_tasks_def client_tasks_def sub_tasks_def)

lemma mem_tasks:
  "t \<in> open_tasks s \<longleftrightarrow> session_open (sessions s t)"
  "t \<in> client_tasks s \<longleftrightarrow> t \<noteq> UartPort \<and> session_counted (sessions s t)"
  "t \<in> sub_tasks s \<longleftrightarrow> sessions s t \<noteq> Idle"
  by (simp_all add: open_tasks_def client_tasks_def sub_tasks_def)

lemma card_tasks_le: "card (A :: port_task set) \<le> 4"
  using card_mono [of UNIV A] by simp

lemma count_up: "unat (n::u32) = card (A :: port_task set) \<Longrightarrow> t \<notin> A \<Longrightarrow> unat (n + 1) = card (insert t A)"
  using unat_u32_max [of n] card_tasks_le [of A] by simp

lemma count_down: "unat (n::u32) = card (A :: port_task set) \<Longrightarrow> t \<in> A \<Longrightarrow> unat (n - 1) = card (A - {t})"
proof -
  assume n: "unat n = card A" and t: "t \<in> A"
  then have "0 < card A" by (auto simp: card_gt_0_iff)
  then have "n \<noteq> 0" using n by auto
  then show ?thesis using n t by (simp add: unat_minus_one)
qed

lemma channel_step_counts:
  assumes "can_inv m" "unat (open_count m) = card (open_tasks s)" "sessions s t = Live p"
    "channel_step H (p_open p) m (p_open p') m'"
  shows "can_inv m' \<and> unat (open_count m') = card (open_tasks (set_session t (Live p') s))"
proof -
  let ?holds = "\<lambda>u. session_open (sessions s u)"
  have users: "unat (open_count m) = card {u. ?holds u}" using assms(2) by (simp add: open_tasks_def)
  have after: "open_tasks (set_session t (Live p') s) = {u. (?holds(t := p_open p')) u}"
    by (auto simp: open_tasks_def)
  consider "p_open p = p_open p'" | "\<not> p_open p" "p_open p'" | "p_open p" "\<not> p_open p'" by auto
  then show ?thesis
  proof cases
    case 1
    then have "?holds(t := p_open p') = ?holds" using assms(3) by (auto simp: fun_eq_iff)
    with 1 assms users after show ?thesis by (simp add: channel_step_def can_inv_def)
  next
    case 2
    then obtain l where "m' = can_open H l m" using assms(4) by (auto simp: channel_step_def)
    with 2 users after assms(1,3) can_chan.acquire_counts_holder [OF assms(1) users, of t H l]
    show ?thesis by simp
  next
    case 3
    then have "m' = can_close m" using assms(4) by (simp add: channel_step_def)
    with 3 users after assms(1,3) can_chan.release_counts_holder [OF assms(1) users, of t]
    show ?thesis by simp
  qed
qed

lemma subscriber_free:
  assumes "sys_inv s" "sessions s t = Idle"
  shows "rx_subscriber s = Some (s\<lparr>rx_subs := rx_subs s + 1\<rparr>)"
proof -
  have "sub_tasks s \<subset> UNIV" using assms(2) mem_tasks(3) [of t s] by auto
  then have "card (sub_tasks s) < 4" using psubset_card_mono [of UNIV "sub_tasks s"] by simp
  then show ?thesis using assms(1) by (simp add: rx_subscriber_def sys_inv_def RX_BUS_SUBS_def)
qed

text \<open>A session that starts: from \<open>Idle\<close> to a session that is not open yet.\<close>

lemma inv_begin_session:
  assumes "sys_inv s" "sessions s t = Idle" "x = Linking \<or> x = Live port_init"
  shows "sys_inv (set_session t x (s\<lparr>rx_subs := rx_subs s + 1,
           TCP_CLIENTS := (if t = UartPort then TCP_CLIENTS s else TCP_CLIENTS s + 1)\<rparr>))"
proof -
  have x: "\<not> session_open x" "session_counted x" "x \<noteq> Idle" using assms(3) by auto
  have out: "t \<notin> open_tasks s" "t \<notin> client_tasks s" "t \<notin> sub_tasks s"
    using assms(2) by (simp_all add: mem_tasks)
  show ?thesis
    using assms x out count_up [of "TCP_CLIENTS s" "client_tasks s" t]
    by (auto simp: sys_inv_def tasks_set_session)
qed

lemma port_end_step: "channel_step H (p_open p) (CAN b) False (CAN (port_end p b))"
  by (simp add: port_end_def channel_step_def)

lemma inv_end_session:
  assumes "sys_inv s" "t \<noteq> UartPort" "sessions s t = Live p"
  shows "sys_inv (tcp_end t p s)"
proof -
  have "can_inv (CAN (port_end p (shared s))) \<and> unat (open_count (CAN (port_end p (shared s)))) =
      card (open_tasks (set_session t (Live port_init) s))"
    using assms port_end_step [of H p "shared s"]
    by (intro channel_step_counts [of "CAN (shared s)"]) (simp_all add: sys_inv_def)
  moreover have "unat (TCP_CLIENTS s - 1) = card (client_tasks s - {t})"
    using assms by (intro count_down) (simp_all add: sys_inv_def mem_tasks)
  moreover have "insert t (sub_tasks s) = sub_tasks s" using assms(3) by (auto simp: mem_tasks)
  ultimately show ?thesis
    using assms by (auto simp: sys_inv_def tcp_end_def tasks_set_session)
qed

lemma inv_port_step:
  assumes "sys_inv s" "sessions s t = Live p" "port_wf p'"
    "channel_step H (p_open p) (CAN (shared s)) (p_open p') (CAN b')"
  shows "sys_inv (set_session t (Live p') (s\<lparr>shared := b'\<rparr>))"
proof -
  have "can_inv (CAN b') \<and> unat (open_count (CAN b')) = card (open_tasks (set_session t (Live p') s))"
    using assms by (intro channel_step_counts) (simp_all add: sys_inv_def)
  moreover have "insert t (sub_tasks s) = sub_tasks s"
    "(if t \<noteq> UartPort then insert t (client_tasks s) else client_tasks s - {t}) = client_tasks s"
    using assms(2) by (auto simp: mem_tasks)
  ultimately show ?thesis
    using assms(1,3) by (auto simp: sys_inv_def tasks_set_session)
qed

lemma sys_inv_init [simp]: "sys_inv sys_init"
  by (simp add: sys_inv_def sys_init_def open_tasks_def client_tasks_def sub_tasks_def CanManager_new_def can_inv_def)

lemma inv_started:
  assumes "sys_inv s"
  shows "sessions s UartPort = Idle \<Longrightarrow> uart_start s = Some s' \<Longrightarrow> sys_inv s'"
    "t \<noteq> UartPort \<Longrightarrow> sessions s t = Idle \<Longrightarrow> tcp_accept t s = Some s' \<Longrightarrow> sys_inv s'"
    "sessions s AutoPort = Idle \<Longrightarrow> auto_dial s = Some s' \<Longrightarrow> sys_inv s'"
proof -
  note free = subscriber_free [OF assms] and begin_session = inv_begin_session [OF assms]
  show "sys_inv s'" if "sessions s UartPort = Idle" "uart_start s = Some s'"
    using that free [OF that(1)] begin_session [OF that(1), of "Live port_init"] by (simp add: uart_start_def)
  show "sys_inv s'" if "t \<noteq> UartPort" "sessions s t = Idle" "tcp_accept t s = Some s'"
    using that free [OF that(2)] begin_session [OF that(2), of "Live port_init"] by (auto simp: tcp_accept_def)
  show "sys_inv s'" if "sessions s AutoPort = Idle" "auto_dial s = Some s'"
    using that free [OF that(1)] begin_session [OF that(1), of Linking] by (auto simp: auto_dial_def)
qed

lemma inv_linking:
  assumes "sys_inv s" "sessions s AutoPort = Linking"
  shows "sys_inv (set_session AutoPort (Live port_init) s)"
    "sys_inv (set_session AutoPort Closing (s\<lparr>TCP_CLIENTS := TCP_CLIENTS s - 1\<rparr>))"
proof -
  have "insert AutoPort (sub_tasks s) = sub_tasks s" "insert AutoPort (client_tasks s) = client_tasks s"
    "AutoPort \<in> client_tasks s" "AutoPort \<notin> open_tasks s"
    using assms(2) by (auto simp: mem_tasks)
  with assms count_down [of "TCP_CLIENTS s" "client_tasks s" AutoPort]
  show "sys_inv (set_session AutoPort (Live port_init) s)"
    "sys_inv (set_session AutoPort Closing (s\<lparr>TCP_CLIENTS := TCP_CLIENTS s - 1\<rparr>))"
    by (auto simp: sys_inv_def tasks_set_session)
qed

lemma inv_drop_sub:
  assumes "sys_inv s" "sessions s t = Closing"
  shows "sys_inv (set_session t Idle (s\<lparr>rx_subs := rx_subs s - 1\<rparr>))"
proof -
  have "t \<in> sub_tasks s" "t \<notin> open_tasks s" "t \<notin> client_tasks s" using assms(2) by (simp_all add: mem_tasks)
  with assms show ?thesis by (auto simp: sys_inv_def tasks_set_session card_Diff_singleton)
qed

lemma deliver_same:
  assumes "sys_inv s" "f \<in> set (published s)" "port_round H (task_iface t) ms (Frame f) p (shared s) = Some (p', b', ops)"
  shows "p' = p" "CAN b' = CAN (shared s)"
proof -
  have "wf_frame f" using assms(1,2) by (auto simp: sys_inv_def)
  with assms(3) show "p' = p" "CAN b' = CAN (shared s)"
    using port_round_frame [of f H "task_iface t" ms p "shared s"] by (auto split: if_splits)
qed

lemma sys_step_inv:
  assumes "hal_ok H" "sys_step H s s'" "sys_inv s"
  shows "sys_inv s'"
  using assms(2)
proof (cases rule: sys_step.cases)
  case (accept t)
  then show ?thesis using inv_started(2) [OF assms(3), of t] by auto
next
  case (byte t p x p' b' ops w)
  then have "port_wf p" using assms(3) by (auto simp: sys_inv_def)
  with byte show ?thesis
    using feed_result [of p H "task_iface t" x "shared s"] inv_port_step [OF assms(3) byte(2)] by auto
next
  case (deliver t p f ms p' b' ops)
  then have "port_wf p" "p' = p" "CAN b' = CAN (shared s)"
    using assms(3) deliver_same [OF assms(3) deliver(3,4)] by (auto simp: sys_inv_def)
  with deliver show ?thesis using inv_port_step [OF assms(3) deliver(2), of p' H b'] by simp
next
  case (bus_rx fs m' c')
  then show ?thesis
    using can_rx_round_fields [OF assms(1), of "CAN (shared s)" "cnt (shared s)" fs m' c'] assms(3)
    by (auto simp: sys_inv_def can_inv_def list_all_iff)
qed (use assms(3) inv_started inv_linking inv_end_session inv_drop_sub in \<open>auto simp del: One_nat_def\<close>)

lemma reachable_inv:
  assumes "hal_ok H" "reachable H s"
  shows "sys_inv s"
  using assms(2) by (induction rule: reachable.induct) (auto intro: sys_step_inv [OF assms(1)])

section \<open>Properties\<close>

text \<open>
  A reachable state with an open port, for the witnesses: the UART port has started and received the
  two bytes of its open command.
\<close>

definition uart_opened :: "('t, 'f) twai_hal \<Rightarrow> 't sys" where
  "uart_opened H = set_session UartPort (Live (port_init\<lparr>p_line := (p_line port_init)[0 := asc CHR ''O''], p_open := True\<rparr>))
     (sys_init\<lparr>rx_subs := 1, shared := \<lparr>CAN = can_open H False CanManager_new, cnt = counters_init\<rparr>\<rparr>)"

lemma uart_open_feeds:
  fixes H :: "('t, 'f) twai_hal"
  defines "b \<equiv> \<lparr>CAN = CanManager_new, cnt = counters_init\<rparr> :: 't bridge"
    and "p \<equiv> port_init\<lparr>p_line := (p_line port_init)[0 := asc CHR ''O''], p_len := 1\<rparr>"
  shows "feed H Serial (asc CHR ''O'') port_init b = Some (p, b, [], False)"
    "feed H Serial CR p b = Some (p\<lparr>p_open := True, p_len := 0\<rparr>,
      b\<lparr>CAN := can_open H False CanManager_new\<rparr>, [WriteAll [CR]], True)"
proof -
  show "feed H Serial (asc CHR ''O'') port_init b = Some (p, b, [], False)"
    by (simp add: b_def p_def feed_def port_init_def upd_def CR_def)
  have "slice (p_line p) 0 1 = Some [asc CHR ''O'']"
    by (simp add: p_def slice_def port_init_def replicate_numeral_unfold)
  then show "feed H Serial CR p b = Some (p\<lparr>p_open := True, p_len := 0\<rparr>,
      b\<lparr>CAN := can_open H False CanManager_new\<rparr>, [WriteAll [CR]], True)"
    by (simp add: b_def p_def feed_def dispatch_def idx_def reply_def port_init_def)
qed

lemma reachable_uart_opened: "reachable H (uart_opened H)"
proof -
  let ?b = "\<lparr>CAN = CanManager_new, cnt = counters_init\<rparr>"
  let ?p = "port_init\<lparr>p_line := (p_line port_init)[0 := asc CHR ''O''], p_len := 1\<rparr>"
  let ?s = "\<lambda>p. set_session UartPort (Live p) (sys_init\<lparr>rx_subs := 1\<rparr>)"
  have "sys_step H sys_init (?s port_init)"
    by (rule sys_step.uart_up) (simp_all add: uart_start_def rx_subscriber_def sys_init_def RX_BUS_SUBS_def)
  then have r0: "reachable H (?s port_init)" by (rule reachable.step [OF reachable.start])
  have "sys_step H (?s port_init) (set_session UartPort (Live ?p) ((?s port_init)\<lparr>shared := ?b\<rparr>))"
    using uart_open_feeds(1) [of H] by (intro sys_step.byte) (simp_all add: task_iface_def sys_init_def)
  then have r1: "reachable H (?s ?p)"
    using reachable.step [OF r0] by (simp add: set_session_def sys_init_def)
  have "sys_step H (?s ?p) (set_session UartPort (Live (?p\<lparr>p_open := True, p_len := 0\<rparr>))
      ((?s ?p)\<lparr>shared := ?b\<lparr>CAN := can_open H False CanManager_new\<rparr>\<rparr>))"
    using uart_open_feeds(2) [of H] by (intro sys_step.byte) (simp_all add: task_iface_def sys_init_def)
  then show ?thesis
    using reachable.step [OF r1] by (simp add: set_session_def sys_init_def uart_opened_def port_init_def)
qed

text \<open>
  C1.  In every reachable state of the whole set of ports, whatever the interleaving of their bytes,
  frames, connections and ends: the use count of the channel is the number of ports that are open, and
  the controller is on the bus exactly while some port is open.
\<close>

theorem controller_on_iff_port_open:
  assumes "hal_ok H" "reachable H s"
  shows "unat (open_count (CAN (shared s))) = card (open_tasks s) \<and>
     (twai (CAN (shared s)) \<noteq> None \<longleftrightarrow> (\<exists>t p. sessions s t = Live p \<and> p_open p))"
proof -
  have inv: "can_inv (CAN (shared s))" "unat (open_count (CAN (shared s))) = card {t. session_open (sessions s t)}"
    using reachable_inv [OF assms] by (simp_all add: sys_inv_def open_tasks_def)
  then have "twai (CAN (shared s)) \<noteq> None \<longleftrightarrow> (\<exists>t. session_open (sessions s t))"
    by (intro can_chan.active_iff_held) simp_all
  then show ?thesis using inv by (auto simp: open_tasks_def session_open_def)
qed

theorem controller_on_iff_port_open_witness:
  "unat (open_count (CAN (shared (uart_opened loopback_hal)))) = card (open_tasks (uart_opened loopback_hal)) \<and>
   (twai (CAN (shared (uart_opened loopback_hal))) \<noteq> None \<longleftrightarrow>
      (\<exists>t p. sessions (uart_opened loopback_hal) t = Live p \<and> p_open p))"
  by (rule controller_on_iff_port_open [OF loopback_hal_ok reachable_uart_opened])

text \<open>
  C28.  A task never finds the receive bus full: in every reachable state at most four subscribers
  are alive, and a task that is about to subscribe gets its slot, so \<^verbatim>\<open>rx_subscriber\<close> never panics.  The
  number of TCP clients is the number of TCP sessions in progress, so its decrement never wraps.
\<close>

theorem subscribers_bounded:
  assumes "hal_ok H" "reachable H s"
  shows "rx_subs s = card (sub_tasks s) \<and> rx_subs s \<le> RX_BUS_SUBS \<and>
     unat (TCP_CLIENTS s) = card (client_tasks s) \<and>
     (\<forall>t. sessions s t = Idle \<longrightarrow> rx_subscriber s \<noteq> None) \<and>
     (\<forall>t p. t \<noteq> UartPort \<and> sessions s t = Live p \<longrightarrow> TCP_CLIENTS s \<noteq> 0)"
proof -
  note inv = reachable_inv [OF assms]
  have "TCP_CLIENTS s \<noteq> 0" if "t \<noteq> UartPort" "sessions s t = Live p" for t p
  proof -
    have "t \<in> client_tasks s" using that by (simp add: mem_tasks)
    then have "0 < card (client_tasks s)" by (auto simp: card_gt_0_iff)
    then show ?thesis using inv by (auto simp: sys_inv_def)
  qed
  then show ?thesis
    using inv card_tasks_le [of "sub_tasks s"] subscriber_free [OF inv]
    by (auto simp: sys_inv_def RX_BUS_SUBS_def)
qed

theorem subscribers_bounded_witness:
  "rx_subs (uart_opened loopback_hal) = card (sub_tasks (uart_opened loopback_hal)) \<and>
   rx_subscriber (uart_opened loopback_hal) \<noteq> None"
proof -
  have "sessions (uart_opened loopback_hal) ApPort = Idle" by (simp add: uart_opened_def sys_init_def)
  then show ?thesis
    using subscribers_bounded [OF loopback_hal_ok reachable_uart_opened] by auto
qed

text \<open>
  C8.  No port task panics: in every reachable state every live port can take any next byte and any
  published frame, and the receive task can run its round.
\<close>

theorem port_tasks_never_panic:
  assumes "hal_ok H" "reachable H s"
  shows "(\<forall>t p x. sessions s t = Live p \<longrightarrow> feed H (task_iface t) x p (shared s) \<noteq> None) \<and>
     (\<forall>t p f ms. sessions s t = Live p \<and> f \<in> set (published s) \<longrightarrow>
        port_round H (task_iface t) ms (Frame f) p (shared s) \<noteq> None) \<and>
     can_rx_round H (CAN (shared s)) (cnt (shared s)) \<noteq> None"
proof (intro conjI allI impI)
  note inv = reachable_inv [OF assms]
  fix t p x
  assume "sessions s t = Live p"
  then show "feed H (task_iface t) x p (shared s) \<noteq> None"
    using feed_result [of p H "task_iface t" x "shared s"] inv by (auto simp: sys_inv_def)
next
  note inv = reachable_inv [OF assms]
  fix t p f ms
  assume "sessions s t = Live p \<and> f \<in> set (published s)"
  then show "port_round H (task_iface t) ms (Frame f) p (shared s) \<noteq> None"
    using port_round_frame [of f H "task_iface t" ms p "shared s"] inv by (auto simp: sys_inv_def)
next
  show "can_rx_round H (CAN (shared s)) (cnt (shared s)) \<noteq> None"
    using rx_burst_result [of H 16 "CAN (shared s)" "cnt (shared s)"] assms(1)
    by (auto simp: can_rx_round_def hal_ok_def)
qed

theorem port_tasks_never_panic_witness:
  "feed loopback_hal Serial CR
     (port_init\<lparr>p_line := (p_line port_init)[0 := asc CHR ''O''], p_open := True\<rparr>)
     (shared (uart_opened loopback_hal)) \<noteq> None \<and>
   can_rx_round loopback_hal (CAN (shared (uart_opened loopback_hal))) (cnt (shared (uart_opened loopback_hal))) \<noteq> None"
proof -
  have "sessions (uart_opened loopback_hal) UartPort =
      Live (port_init\<lparr>p_line := (p_line port_init)[0 := asc CHR ''O''], p_open := True\<rparr>)"
    by (simp add: uart_opened_def)
  moreover have "task_iface UartPort = Serial" by (simp add: task_iface_def)
  ultimately show ?thesis
    using port_tasks_never_panic [OF loopback_hal_ok reachable_uart_opened] by metis
qed

end
