(* ===== verification/Rx_Bus.thy ===== *)
theory Rx_Bus
  imports Ports "HOL-Library.Sublist"
begin

text \<open>
  The receive bus: \<^verbatim>\<open>RX_BUS\<close> of \<^verbatim>\<open>src/can.rs\<close> between \<^verbatim>\<open>can_rx_task\<close>, which publishes what the controller
  delivers, and the port runners of \<^verbatim>\<open>src/transport.rs\<close>, each of which awaits its next message.

  The channel itself is embassy-sync's \<^verbatim>\<open>PubSubChannel\<close> and a parameter here.  Its documented behaviour
  is \<open>pubsub_ok\<close>: every subscriber sees the messages published since it subscribed, in order; the channel
  keeps 16 messages, and publishing at once into a full channel drops the oldest, which a subscriber that
  ignores lag never notices.  The steps of \<open>Ports\<close> are repeated with the channel in place of the free
  choice of a published frame, and a history of each session is kept beside the state.
\<close>

section \<open>Model\<close>

definition RX_BUS_CAP :: nat where "RX_BUS_CAP = 16"

text \<open>
  The operations the code calls, one subscriber per port task; \<open>unread\<close> is what a subscriber has not
  taken yet and \<open>None\<close> for a task without subscriber.  \<open>next_message_pure\<close> is one poll: \<open>None\<close> means pending.
\<close>

record 'q pubsub =
  ps_new :: 'q
  ps_subscriber :: "port_task \<Rightarrow> 'q \<Rightarrow> 'q"
  publish_immediate :: "CanFrame \<Rightarrow> 'q \<Rightarrow> 'q"
  next_message_pure :: "port_task \<Rightarrow> 'q \<Rightarrow> (CanFrame \<times> 'q) option"
  ps_drop :: "port_task \<Rightarrow> 'q \<Rightarrow> 'q"
  unread :: "'q \<Rightarrow> port_task \<Rightarrow> CanFrame list option"

definition newest :: "nat \<Rightarrow> 'a list \<Rightarrow> 'a list" where
  "newest n xs = drop (length xs - n) xs"

definition pubsub_ok :: "'q pubsub \<Rightarrow> bool" where
  "pubsub_ok B \<longleftrightarrow>
     unread B (ps_new B) = (\<lambda>_. None) \<and>
     (\<forall>t q. unread B q t = None \<longrightarrow> unread B (ps_subscriber B t q) = (unread B q)(t := Some [])) \<and>
     (\<forall>f q t. unread B (publish_immediate B f q) t = map_option (\<lambda>us. newest RX_BUS_CAP (us @ [f])) (unread B q t)) \<and>
     (\<forall>t q. unread B q t = Some [] \<longrightarrow> next_message_pure B t q = None) \<and>
     (\<forall>t q f us. unread B q t = Some (f # us) \<longrightarrow>
        (\<exists>q'. next_message_pure B t q = Some (f, q') \<and> unread B q' = (unread B q)(t := Some us))) \<and>
     (\<forall>t q. unread B (ps_drop B t q) = (unread B q)(t := None))"

text \<open>
  The history of a session: how many frames had been published when it subscribed, the frames it has
  taken since, whether a frame it had not taken was dropped, how many it had taken and how many had been
  published when its port was last opened, and what its frame rounds have done to the link since then.
\<close>

record rx_log =
  since :: nat
  taken :: "CanFrame list"
  overrun :: bool
  opened :: nat
  pub_open :: nat
  frame_ops :: "conn_op list"

record ('t, 'q) rx_sys =
  core :: "'t sys"
  rx_bus :: 'q
  logs :: "port_task \<Rightarrow> rx_log"
  n_out :: "port_task \<Rightarrow> nat"
  n_in :: "port_task \<Rightarrow> nat"
  n_ack :: "port_task \<Rightarrow> nat"

definition log_init :: "nat \<Rightarrow> rx_log" where
  "log_init n = \<lparr>since = n, taken = [], overrun = False, opened = 0, pub_open = n, frame_ops = []\<rparr>"

definition rx_init :: "'q pubsub \<Rightarrow> ('t, 'q) rx_sys" where
  "rx_init B = \<lparr>core = sys_init, rx_bus = ps_new B, logs = (\<lambda>_. log_init 0), n_out = (\<lambda>_. 0), n_in = (\<lambda>_. 0), n_ack = (\<lambda>_. 0)\<rparr>"

text \<open>Subscribing, with the new state of the tasks.\<close>

definition join_bus :: "'q pubsub \<Rightarrow> port_task \<Rightarrow> 't sys \<Rightarrow> ('t, 'q) rx_sys \<Rightarrow> ('t, 'q) rx_sys" where
  "join_bus B t s x = x\<lparr>core := s, rx_bus := ps_subscriber B t (rx_bus x), logs := (logs x)(t := log_init (length (published s)))\<rparr>"

text \<open>A byte of the link; a port that opens starts a new stretch of its history.\<close>

definition log_byte :: "nat \<Rightarrow> port \<Rightarrow> port \<Rightarrow> rx_log \<Rightarrow> rx_log" where
  "log_byte n p p' l =
     (if \<not> p_open p \<and> p_open p' then l\<lparr>opened := length (taken l), pub_open := n, frame_ops := []\<rparr> else l)"

definition log_frame :: "CanFrame \<Rightarrow> conn_op list \<Rightarrow> rx_log \<Rightarrow> rx_log" where
  "log_frame f ops l = l\<lparr>taken := taken l @ [f], frame_ops := frame_ops l @ ops\<rparr>"

text \<open>
  What a byte of the link adds to the totals of its task, read off the line it ends and off the answer
  the link is given: one frame handed in when the line is a transmit command for a frame, and one
  confirmation when the answer is \<^verbatim>\<open>z\<close> or \<^verbatim>\<open>Z\<close>.
\<close>

definition frame_line :: "bytes \<Rightarrow> bool" where
  "frame_line line \<longleftrightarrow> (case parse_tx line of Some (Some f) \<Rightarrow> True | _ \<Rightarrow> False)"

definition ends_frame_line :: "u8 \<Rightarrow> port \<Rightarrow> bool" where
  "ends_frame_line c p \<longleftrightarrow> c = CR \<and> frame_line (take (p_len p) (p_line p))"

definition confirmation :: "conn_op list \<Rightarrow> bool" where
  "confirmation ops \<longleftrightarrow> ops = [WriteAll [asc CHR ''z'', CR]] \<or> ops = [WriteAll [asc CHR ''Z'', CR]]"

definition tally :: "bool \<Rightarrow> port_task \<Rightarrow> (port_task \<Rightarrow> nat) \<Rightarrow> port_task \<Rightarrow> nat" where
  "tally e t n = (if e then n(t := n t + 1) else n)"

text \<open>A receive round puts its frames on the bus one after the other.\<close>

definition publish_all :: "'q pubsub \<Rightarrow> CanFrame list \<Rightarrow> 'q \<Rightarrow> 'q" where
  "publish_all B fs q = fold (publish_immediate B) fs q"

definition log_burst :: "CanFrame list option \<Rightarrow> CanFrame list \<Rightarrow> rx_log \<Rightarrow> rx_log" where
  "log_burst us fs l =
     (case us of None \<Rightarrow> l | Some us \<Rightarrow> l\<lparr>overrun := overrun l \<or> RX_BUS_CAP < length us + length fs\<rparr>)"

inductive bus_step :: "('t, 'f) twai_hal \<Rightarrow> 'q pubsub \<Rightarrow> ('t, 'q) rx_sys \<Rightarrow> ('t, 'q) rx_sys \<Rightarrow> bool" for H B where
  uart_up: "sessions (core x) UartPort = Idle \<Longrightarrow> uart_start (core x) = Some s \<Longrightarrow> bus_step H B x (join_bus B UartPort s x)"
| accept: "t \<in> {ApPort, StaPort} \<Longrightarrow> sessions (core x) t = Idle \<Longrightarrow> tcp_accept t (core x) = Some s \<Longrightarrow>
    bus_step H B x (join_bus B t s x)"
| dial: "sessions (core x) AutoPort = Idle \<Longrightarrow> auto_dial (core x) = Some s \<Longrightarrow> bus_step H B x (join_bus B AutoPort s x)"
| linked: "sessions (core x) AutoPort = Linking \<Longrightarrow>
    bus_step H B x (x\<lparr>core := set_session AutoPort (Live port_init) (core x)\<rparr>)"
| link_failed: "sessions (core x) AutoPort = Linking \<Longrightarrow>
    bus_step H B x (x\<lparr>core := set_session AutoPort Closing ((core x)\<lparr>TCP_CLIENTS := TCP_CLIENTS (core x) - 1\<rparr>)\<rparr>)"
| byte: "sessions (core x) t = Live p \<Longrightarrow> feed H (task_iface t) c p (shared (core x)) = Some (p', b', ops, w) \<Longrightarrow>
    bus_step H B x (x\<lparr>core := set_session t (Live p') ((core x)\<lparr>shared := b'\<rparr>), logs := (logs x)(t := log_byte (length (published (core x))) p p' (logs x t)),
      n_in := tally (ends_frame_line c p) t (n_in x), n_ack := tally (confirmation ops) t (n_ack x)\<rparr>)"
| deliver: "sessions (core x) t = Live p \<Longrightarrow> next_message_pure B t (rx_bus x) = Some (f, q) \<Longrightarrow>
    port_round H (task_iface t) ms (Frame f) p (shared (core x)) = Some (p', b', ops) \<Longrightarrow>
    bus_step H B x (x\<lparr>core := set_session t (Live p') ((core x)\<lparr>shared := b'\<rparr>), rx_bus := q,
      logs := (logs x)(t := log_frame f ops (logs x t)),
      n_out := tally (p_open p) t (n_out x)\<rparr>)"
| link_end: "t \<noteq> UartPort \<Longrightarrow> sessions (core x) t = Live p \<Longrightarrow> bus_step H B x (x\<lparr>core := tcp_end t p (core x)\<rparr>)"
| drop_sub: "sessions (core x) t = Closing \<Longrightarrow>
    bus_step H B x (x\<lparr>core := set_session t Idle ((core x)\<lparr>rx_subs := rx_subs (core x) - 1\<rparr>), rx_bus := ps_drop B t (rx_bus x)\<rparr>)"
| bus_rx: "can_rx_round H (CAN (shared (core x))) (cnt (shared (core x))) = Some (fs, m', c') \<Longrightarrow>
    bus_step H B x (x\<lparr>core := (core x)\<lparr>shared := \<lparr>CAN = m', cnt = c'\<rparr>, published := published (core x) @ fs\<rparr>,
      rx_bus := publish_all B fs (rx_bus x), logs := (\<lambda>t. log_burst (unread B (rx_bus x) t) fs (logs x t))\<rparr>)"

inductive bus_reach :: "('t, 'f) twai_hal \<Rightarrow> 'q pubsub \<Rightarrow> ('t, 'q) rx_sys \<Rightarrow> bool" for H B where
  start: "bus_reach H B (rx_init B)"
| step: "bus_reach H B x \<Longrightarrow> bus_step H B x y \<Longrightarrow> bus_reach H B y"

section \<open>The bus\<close>

lemma newest_all [simp]: "length xs \<le> n \<Longrightarrow> newest n xs = xs"
  by (simp add: newest_def)

lemma newest_append: "newest n (newest n xs @ ys) = newest n (xs @ ys)"
  by (cases "length xs \<le> n") (simp_all add: newest_def add.commute)

lemma length_newest: "length (newest n xs) \<le> n"
  by (simp add: newest_def)

lemma subseq_newest: "subseq (newest n xs) xs"
  by (simp add: newest_def suffix_imp_subseq suffix_drop)

lemma set_newest: "set (newest n xs) \<subseteq> set xs"
  by (simp add: newest_def set_drop_subset)

lemma unread_publish_all:
  assumes "pubsub_ok B" "\<And>us. unread B q t = Some us \<Longrightarrow> length us \<le> RX_BUS_CAP"
  shows "unread B (publish_all B fs q) t = map_option (\<lambda>us. newest RX_BUS_CAP (us @ fs)) (unread B q t)"
  using assms(2)
proof (induction fs arbitrary: q)
  case Nil
  then show ?case by (cases "unread B q t") (simp_all add: publish_all_def)
next
  case (Cons f fs)
  have one: "unread B (publish_immediate B f q) t = map_option (\<lambda>us. newest RX_BUS_CAP (us @ [f])) (unread B q t)"
    using assms(1) by (simp add: pubsub_ok_def)
  then have "length us \<le> RX_BUS_CAP" if "unread B (publish_immediate B f q) t = Some us" for us
    using that length_newest by (cases "unread B q t") auto
  then have "unread B (publish_all B fs (publish_immediate B f q)) t =
      map_option (\<lambda>us. newest RX_BUS_CAP (us @ fs)) (unread B (publish_immediate B f q) t)"
    by (rule Cons.IH)
  with one show ?case by (cases "unread B q t") (simp_all add: publish_all_def newest_append)
qed

section \<open>The invariant of a session\<close>

text \<open>The link was given the frames \<open>fs\<close>, one line each, with whatever timestamps.\<close>

definition lines_of :: "CanFrame list \<Rightarrow> bytes \<Rightarrow> bool" where
  "lines_of fs bs \<longleftrightarrow> (\<exists>tss. length tss = length fs \<and> bs = concat (map (\<lambda>(f, ts). frame_ascii f ts) (zip fs tss)))"

lemma lines_of_Nil [simp]: "lines_of [] []"
  by (simp add: lines_of_def)

lemma lines_of_snoc:
  assumes "lines_of fs bs"
  shows "lines_of (fs @ [f]) (bs @ frame_ascii f ts)"
proof -
  obtain tss where "length tss = length fs" "bs = concat (map (\<lambda>(f, ts). frame_ascii f ts) (zip fs tss))"
    using assms by (auto simp: lines_of_def)
  then show ?thesis unfolding lines_of_def by (intro exI [of _ "tss @ [ts]"]) simp
qed

definition log_ok :: "CanFrame list \<Rightarrow> rx_log \<Rightarrow> CanFrame list \<Rightarrow> bool" where
  "log_ok pub l us \<longleftrightarrow> since l \<le> length pub \<and> length us \<le> RX_BUS_CAP \<and>
     subseq (taken l @ us) (drop (since l) pub) \<and> (\<not> overrun l \<longrightarrow> taken l @ us = drop (since l) pub)"

definition fwd_ok :: "rx_log \<Rightarrow> bool" where
  "fwd_ok l \<longleftrightarrow> opened l \<le> length (taken l) \<and> lines_of (drop (opened l) (taken l)) (written (frame_ops l)) \<and>
     (\<not> overrun l \<longrightarrow> since l + opened l \<le> pub_open l \<and> pub_open l \<le> since l + opened l + RX_BUS_CAP)"

text \<open>What is known of one task: its session, its history and its place on the bus.\<close>

definition task_ok :: "CanFrame list \<Rightarrow> session \<Rightarrow> rx_log \<Rightarrow> CanFrame list option \<Rightarrow> bool" where
  "task_ok pub ses l us \<longleftrightarrow>
     (case us of
        None \<Rightarrow> ses = Idle
      | Some us \<Rightarrow> ses \<noteq> Idle \<and> log_ok pub l us \<and> (session_open ses \<longrightarrow> fwd_ok l))"

lemma log_ok_join: "log_ok pub (log_init (length pub)) []"
  by (simp add: log_ok_def log_init_def)

lemma log_ok_frame: "log_ok pub l (f # us) \<Longrightarrow> log_ok pub (log_frame f ops l) us"
  by (simp add: log_ok_def log_frame_def)

lemma log_ok_byte: "log_ok pub (log_byte n p p' l) us = log_ok pub l us"
  by (simp add: log_ok_def log_byte_def)

lemma log_ok_burst:
  assumes "log_ok pub l us"
  shows "log_ok (pub @ fs) (log_burst (Some us) fs l) (newest RX_BUS_CAP (us @ fs))"
proof -
  have "subseq (taken l @ newest RX_BUS_CAP (us @ fs)) (taken l @ us @ fs)"
    using subseq_newest [of RX_BUS_CAP "us @ fs"] by (simp only: subseq_append')
  moreover have "subseq (taken l @ us @ fs) (drop (since l) pub @ fs)"
    using assms subseq_append [of "taken l @ us" fs "drop (since l) pub"] by (simp add: log_ok_def)
  ultimately have "subseq (taken l @ newest RX_BUS_CAP (us @ fs)) (drop (since l) pub @ fs)"
    by (rule subseq_order.trans)
  with assms show ?thesis by (auto simp: log_ok_def log_burst_def length_newest)
qed

lemma fwd_ok_burst: "fwd_ok l \<Longrightarrow> fwd_ok (log_burst us fs l)"
  by (simp add: fwd_ok_def log_burst_def split: option.split)

lemma fwd_ok_byte:
  assumes "p_open p \<Longrightarrow> fwd_ok l" "p_open p'" "log_ok pub l us"
  shows "fwd_ok (log_byte (length pub) p p' l)"
proof (cases "p_open p")
  case True
  then show ?thesis using assms(1) by (simp add: log_byte_def)
next
  case False
  have "since l + length (taken l) + length us = length pub" if "\<not> overrun l"
  proof -
    have "length (taken l @ us) = length (drop (since l) pub)" "since l \<le> length pub"
      using that assms(3) unfolding log_ok_def by simp_all
    then show ?thesis by simp
  qed
  then show ?thesis using False assms(2,3) by (auto simp: fwd_ok_def log_byte_def log_ok_def)
qed

lemma fwd_ok_frame:
  assumes "fwd_ok l"
  shows "fwd_ok (log_frame f [WriteAll (frame_ascii f ts), FlushConn] l)"
  using assms lines_of_snoc [of "drop (opened l) (taken l)" "written (frame_ops l)" f ts]
  by (simp add: fwd_ok_def log_frame_def)

section \<open>The invariant of the system\<close>

abbreviation tasks_ok :: "'q pubsub \<Rightarrow> ('t, 'q) rx_sys \<Rightarrow> bool" where
  "tasks_ok B x \<equiv> \<forall>t. task_ok (published (core x)) (sessions (core x) t) (logs x t) (unread B (rx_bus x) t)"

definition bus_inv :: "'q pubsub \<Rightarrow> ('t, 'q) rx_sys \<Rightarrow> bool" where
  "bus_inv B x \<longleftrightarrow> sys_inv (core x) \<and> tasks_ok B x"

lemma task_ok_simps [simp]:
  "task_ok pub ses l None \<longleftrightarrow> ses = Idle"
  "task_ok pub ses l (Some us) \<longleftrightarrow> ses \<noteq> Idle \<and> log_ok pub l us \<and> (session_open ses \<longrightarrow> fwd_ok l)"
  by (simp_all add: task_ok_def)

lemma task_okD:
  assumes "task_ok pub ses l us" "ses \<noteq> Idle"
  shows "\<exists>us'. us = Some us' \<and> log_ok pub l us' \<and> (session_open ses \<longrightarrow> fwd_ok l)"
  using assms by (cases us) simp_all

lemma next_unread:
  assumes "pubsub_ok B" "next_message_pure B t q = Some (f, q')" "unread B q t = Some us"
  shows "\<exists>us'. us = f # us' \<and> unread B q' = (unread B q)(t := Some us')"
proof (cases us)
  case Nil
  with assms show ?thesis by (simp add: pubsub_ok_def)
next
  case (Cons g us')
  then obtain q'' where "next_message_pure B t q = Some (g, q'')" "unread B q'' = (unread B q)(t := Some us')"
    using assms(1,3) unfolding pubsub_ok_def by blast
  with assms(2) Cons show ?thesis by simp
qed

lemma waiting_published: "log_ok pub l us \<Longrightarrow> f \<in> set us \<Longrightarrow> f \<in> set pub"
proof -
  assume "log_ok pub l us" "f \<in> set us"
  then have "subseq (taken l @ us) (drop (since l) pub)" "f \<in> set (taken l @ us)" by (simp_all add: log_ok_def)
  then have "f \<in> set (drop (since l) pub)" 
    by (auto elim: list_emb_set)
  then show ?thesis by (rule in_set_dropD)
qed

text \<open>A frame a live port is handed was published, is well formed, and was the next one waiting.\<close>

lemma deliver_frame:
  assumes "pubsub_ok B" "bus_inv B x" "sessions (core x) t = Live p" "next_message_pure B t (rx_bus x) = Some (f, q)"
  shows "f \<in> set (published (core x)) \<and> wf_frame f \<and>
     (\<exists>us. unread B (rx_bus x) t = Some (f # us) \<and> unread B q = (unread B (rx_bus x))(t := Some us))"
proof -
  have "task_ok (published (core x)) (Live p) (logs x t) (unread B (rx_bus x) t)"
    using assms(2,3) by (metis bus_inv_def)
  then obtain us where us: "unread B (rx_bus x) t = Some us" "log_ok (published (core x)) (logs x t) us"
    using task_okD by blast
  with next_unread [OF assms(1,4)] obtain us' where "us = f # us'" "unread B q = (unread B (rx_bus x))(t := Some us')" by blast
  moreover from this have "f \<in> set (published (core x))" using waiting_published [OF us(2)] by simp
  ultimately show ?thesis using us(1) assms(2) by (simp add: bus_inv_def sys_inv_def)
qed

text \<open>Every step with the bus is a step of \<open>Ports\<close>, where a port could be handed any published frame.\<close>

lemma bus_step_core:
  assumes "pubsub_ok B" "bus_inv B x" "bus_step H B x y"
  shows "sys_step H (core x) (core y)"
  using assms(3)
proof (cases rule: bus_step.cases)
  case (deliver t p f q ms p' b' ops)
  then have "f \<in> set (published (core x))" using deliver_frame [OF assms(1,2)] by blast
  with deliver sys_step.deliver [of "core x" t p f H ms p' b' ops] show ?thesis by simp
next
  case (drop_sub t)
  then show ?thesis using sys_step.drop_sub [of "core x" t H] by simp
qed (auto simp: join_bus_def intro: sys_step.intros)

lemma started_fields:
  "uart_start s = Some s' \<Longrightarrow> published s' = published s \<and> sessions s' = (sessions s)(UartPort := Live port_init)"
  "tcp_accept t s = Some s' \<Longrightarrow> published s' = published s \<and> sessions s' = (sessions s)(t := Live port_init)"
  "auto_dial s = Some s' \<Longrightarrow> published s' = published s \<and> sessions s' = (sessions s)(AutoPort := Linking)"
  by (auto simp: uart_start_def tcp_accept_def auto_dial_def rx_subscriber_def split: if_splits Option.bind_splits)

lemma task_ok_join:
  assumes "pubsub_ok B" "bus_inv B x" "sessions (core x) t = Idle" "published s = published (core x)"
    "sessions s = (sessions (core x))(t := ses)" "ses \<noteq> Idle" "\<not> session_open ses"
  shows "tasks_ok B (join_bus B t s x)"
proof -
  have ok: "task_ok (published (core x)) (sessions (core x) u) (logs x u) (unread B (rx_bus x) u)" for u
    using assms(2) by (simp add: bus_inv_def)
  have "unread B (rx_bus x) t = None" using ok [of t] assms(3) by (cases "unread B (rx_bus x) t") simp_all
  then have "unread B (ps_subscriber B t (rx_bus x)) = (unread B (rx_bus x))(t := Some [])"
    using assms(1) by (simp add: pubsub_ok_def)
  with ok assms(4-) show ?thesis by (simp add: join_bus_def log_ok_join)
qed

lemma tasks_ok_started:
  assumes "pubsub_ok B" "bus_inv B x"
  shows "sessions (core x) UartPort = Idle \<Longrightarrow> uart_start (core x) = Some s \<Longrightarrow> tasks_ok B (join_bus B UartPort s x)"
    "sessions (core x) t = Idle \<Longrightarrow> tcp_accept t (core x) = Some s \<Longrightarrow> tasks_ok B (join_bus B t s x)"
    "sessions (core x) AutoPort = Idle \<Longrightarrow> auto_dial (core x) = Some s \<Longrightarrow> tasks_ok B (join_bus B AutoPort s x)"
  using task_ok_join [OF assms, of UartPort s "Live port_init"] task_ok_join [OF assms, of t s "Live port_init"]
    task_ok_join [OF assms, of AutoPort s Linking] by (auto dest: started_fields)

lemma task_ok_session:
  assumes "task_ok pub ses l us" "ses \<noteq> Idle" "ses' \<noteq> Idle" "\<not> session_open ses'"
  shows "task_ok pub ses' l us"
  using assms by (cases us) simp_all

text \<open>One lemma per kind of step for the sessions, then the whole.\<close>

lemma tasks_live_step:
  assumes "\<And>u. task_ok (published (core x)) (sessions (core x) u) (logs x u) (unread B (rx_bus x) u)"
    "task_ok (published (core x)) ses l (unread B q t)" "\<And>u. u \<noteq> t \<Longrightarrow> unread B q u = unread B (rx_bus x) u"
  shows "task_ok (published (core x)) (((sessions (core x))(t := ses)) u) (((logs x)(t := l)) u) (unread B q u)"
  using assms by (cases "u = t") simp_all

lemma byte_task_ok:
  assumes "task_ok pub (Live p) l us"
  shows "task_ok pub (Live p') (log_byte (length pub) p p' l) us"
  using assms by (cases us) (auto simp: log_ok_byte intro: fwd_ok_byte)

lemma frame_task_ok:
  assumes "task_ok pub (Live p) l (Some (f # us))" "wf_frame f"
    "port_round H iface ms (Frame f) p b = Some (p', b', ops)"
  shows "task_ok pub (Live p') (log_frame f ops l) (Some us)"
  using assms port_round_frame [OF assms(2), of H iface ms p b]
  by (auto simp: log_ok_frame fwd_ok_frame split: if_splits)

lemma burst_task_ok:
  assumes "pubsub_ok B" "task_ok pub ses l (unread B q t)"
  shows "task_ok (pub @ fs) ses (log_burst (unread B q t) fs l) (unread B (publish_all B fs q) t)"
proof (cases "unread B q t")
  case None
  with assms unread_publish_all [of B q t fs] show ?thesis by simp
next
  case (Some us)
  with assms have "log_ok pub l us" "length us \<le> RX_BUS_CAP" by (simp_all add: log_ok_def)
  with Some assms unread_publish_all [of B q t fs] show ?thesis by (simp add: log_ok_burst fwd_ok_burst)
qed

lemma deliver_task_ok:
  assumes "pubsub_ok B" "bus_inv B x" "sessions (core x) t = Live p" "next_message_pure B t (rx_bus x) = Some (f, q)"
    "port_round H (task_iface t) ms (Frame f) p (shared (core x)) = Some (p', b', ops)"
  shows "task_ok (published (core x)) (Live p') (log_frame f ops (logs x t)) (unread B q t)"
    and "u \<noteq> t \<Longrightarrow> unread B q u = unread B (rx_bus x) u"
proof -
  obtain us where us: "wf_frame f" "unread B (rx_bus x) t = Some (f # us)" "unread B q = (unread B (rx_bus x))(t := Some us)"
    using deliver_frame [OF assms(1-4)] by blast
  have "task_ok (published (core x)) (Live p) (logs x t) (Some (f # us))"
    using assms(2,3) us(2) by (metis bus_inv_def)
  from frame_task_ok [OF this us(1) assms(5)] us(3)
  show "task_ok (published (core x)) (Live p') (log_frame f ops (logs x t)) (unread B q t)" by simp
  show "u \<noteq> t \<Longrightarrow> unread B q u = unread B (rx_bus x) u" by (simp add: us(3))
qed

lemma bus_step_tasks:
  assumes "pubsub_ok B" "bus_inv B x" "bus_step H B x y"
  shows "tasks_ok B y"
proof
  fix u
  have ok: "task_ok (published (core x)) (sessions (core x) u) (logs x u) (unread B (rx_bus x) u)" for u
    using assms(2) by (simp add: bus_inv_def)
  note live = tasks_live_step [of x B, OF ok] and join = tasks_ok_started [OF assms(1,2)]
  from assms(3) show "task_ok (published (core y)) (sessions (core y) u) (logs y u) (unread B (rx_bus y) u)"
  proof (cases rule: bus_step.cases)
    case (uart_up s)
    then show ?thesis using join(1) by simp
  next
    case (accept t s)
    then show ?thesis using join(2) by simp
  next
    case (dial s)
    then show ?thesis using join(3) by simp
  next
    case linked
    with ok [of u] ok [of AutoPort] task_ok_session [of _ Linking _ _ "Live port_init"] show ?thesis by simp
  next
    case link_failed
    with ok [of u] ok [of AutoPort] task_ok_session [of _ Linking _ _ Closing] show ?thesis by simp
  next
    case (byte t p c p' b' ops w)
    with live [OF byte_task_ok] ok [of t] show ?thesis by simp
  next
    case (deliver t p f q ms p' b' ops)
    note fr = deliver_task_ok [OF assms(1,2) deliver(2-4)]
    from live [OF fr] deliver(1) show ?thesis by simp
  next
    case (link_end t p)
    with ok [of u] ok [of t] task_ok_session [of _ "Live p" _ _ Closing] show ?thesis by (simp add: tcp_end_def)
  next
    case (drop_sub t)
    have "unread B (ps_drop B t (rx_bus x)) = (unread B (rx_bus x))(t := None)" using assms(1) by (simp add: pubsub_ok_def)
    with drop_sub ok [of u] show ?thesis by simp
  next
    case (bus_rx fs m' c')
    with burst_task_ok [OF assms(1) ok] show ?thesis by simp
  qed
qed

lemma sessions_init [simp]: "sessions sys_init t = Idle"
  by (simp add: sys_init_def)

lemma bus_reach_inv:
  assumes "hal_ok H" "pubsub_ok B" "bus_reach H B x"
  shows "bus_inv B x"
  using assms(3)
proof (induction rule: bus_reach.induct)
  case start
  then show ?case using assms(2) by (simp add: bus_inv_def rx_init_def pubsub_ok_def)
next
  case (step x y)
  have "sys_inv (core y)"
    using sys_step_inv [OF assms(1) bus_step_core [OF assms(2) step.IH step.hyps(2)]] step.IH by (simp add: bus_inv_def)
  then show ?case using bus_step_tasks [OF assms(2) step.IH step.hyps(2)] by (simp add: bus_inv_def)
qed

lemma bus_reach_core:
  assumes "hal_ok H" "pubsub_ok B" "bus_reach H B x"
  shows "reachable H (core x)"
  using assms(3)
proof (induction rule: bus_reach.induct)
  case start
  then show ?case by (simp add: rx_init_def reachable.start)
next
  case (step x y)
  then show ?case
    using bus_step_core [OF assms(2) bus_reach_inv [OF assms(1,2) step.hyps(1)] step.hyps(2)] by (blast intro: reachable.step)
qed

section \<open>The counters\<close>

text \<open>What one answered line does to the counters: a valid frame counts as handed in, whether the port
  is open or not, and a transmission is counted exactly when it is confirmed.\<close>

definition accounted :: "Iface \<Rightarrow> bool \<Rightarrow> bool \<Rightarrow> counters \<Rightarrow> counters" where
  "accounted iface v ack c =
     (let c = (if v then count_in iface c else c) in if ack then c\<lparr>TX_COUNT := TX_COUNT c + 1\<rparr> else c)"

lemma transmit_accounts:
  "transmit H f m c = Some (ok, m', c') \<Longrightarrow> c' = (if ok then c\<lparr>TX_COUNT := TX_COUNT c + 1\<rparr> else c)"
  by (auto simp: transmit_def split: option.splits prod.splits if_splits Option.bind_splits)

lemma confirmation_simps [simp]:
  "\<not> confirmation []" "\<not> confirmation [WriteAll [v]]" "\<not> confirmation [WriteAll (v # w # y # ys)]"
  "confirmation [WriteAll [v, CR]] \<longleftrightarrow> v = asc CHR ''z'' \<or> v = asc CHR ''Z''"
  by (auto simp: confirmation_def)

lemma frame_line_ref: "frame_line line \<longleftrightarrow> parse_tx_ref line \<noteq> None"
  by (simp add: frame_line_def parse_tx_eq split: option.split)

lemma frame_line_cmd:
  assumes "frame_line line"
  shows "idx line 0 \<in> Some ` {asc CHR ''t'', asc CHR ''T'', asc CHR ''r'', asc CHR ''R''}"
  using assms by (auto simp: frame_line_ref parse_tx_ref_def tx_kind_def idx_def split: list.splits if_splits)

lemma dispatch_tx_accounts:
  assumes "dispatch_tx H line cmd iface op ts b = Some (op', ts', b', ops)"
  shows "cnt b' = accounted iface (frame_line line) (confirmation ops) (cnt b)"
proof (cases "parse_tx_ref line")
  case None
  with assms show ?thesis
    by (auto simp: dispatch_tx_def parse_tx_eq frame_line_ref accounted_def reply_def split: if_splits)
next
  case (Some f)
  with assms show ?thesis
    by (auto simp: dispatch_tx_def parse_tx_eq frame_line_ref accounted_def reply_def Let_def
        dest!: transmit_accounts split: if_splits Option.bind_splits)
qed

lemma dispatch_other_accounts:
  assumes "dispatch H line iface op ts b = Some (op', ts', b', ops)"
    "idx line 0 \<notin> Some ` {asc CHR ''t'', asc CHR ''T'', asc CHR ''r'', asc CHR ''R''}"
  shows "cnt b' = cnt b \<and> \<not> confirmation ops"
proof -
  obtain c where c: "idx line 0 = Some c" using assms(1) by (cases "idx line 0") (simp_all add: dispatch_def)
  with assms have "dispatch H line iface op ts b = Some (op', ts', b', ops)"
    "\<not> (c = asc CHR ''t'' \<or> c = asc CHR ''T'' \<or> c = asc CHR ''r'' \<or> c = asc CHR ''R'')" by auto
  then show ?thesis unfolding dispatch_def c
    by (auto simp: reply_def Let_def split: if_splits option.splits prod.splits)
qed

lemma dispatch_accounts:
  assumes "dispatch H line iface op ts b = Some (op', ts', b', ops)"
  shows "cnt b' = accounted iface (frame_line line) (confirmation ops) (cnt b)"
proof (cases "idx line 0 \<in> Some ` {asc CHR ''t'', asc CHR ''T'', asc CHR ''r'', asc CHR ''R''}")
  case True
  then show ?thesis using assms by (auto simp: dispatch_def dest: dispatch_tx_accounts)
next
  case False
  then show ?thesis using dispatch_other_accounts [OF assms] frame_line_cmd by (auto simp: accounted_def)
qed

lemma feed_accounts:
  assumes "feed H iface c p b = Some (p', b', ops, w)"
  shows "cnt b' = accounted iface (ends_frame_line c p) (confirmation ops) (cnt b)"
proof (cases "c = CR \<and> 0 < p_len p")
  case True
  with assms obtain op ts where
    "dispatch H (take (p_len p) (p_line p)) iface (p_open p) (p_timestamp p) b = Some (op, ts, b', ops)"
    by (auto simp: feed_def slice_def split: if_splits Option.bind_splits)
  from dispatch_accounts [OF this] True show ?thesis by (simp add: ends_frame_line_def)
next
  case False
  then have "\<not> ends_frame_line c p" by (auto simp: ends_frame_line_def frame_line_ref parse_tx_ref_def)
  with False assms show ?thesis by (auto simp: feed_def accounted_def split: if_splits Option.bind_splits)
qed

abbreviation over_tcp :: "(port_task \<Rightarrow> nat) \<Rightarrow> nat" where
  "over_tcp n \<equiv> n ApPort + n StaPort + n AutoPort"

definition counts_ok :: "('t, 'q) rx_sys \<Rightarrow> bool" where
  "counts_ok x \<longleftrightarrow> cnt (shared (core x)) =
     \<lparr>RX_COUNT = of_nat (length (published (core x))), TX_COUNT = of_nat (n_ack x UartPort + over_tcp (n_ack x)),
      SER_IN = of_nat (n_in x UartPort), SER_OUT = of_nat (n_out x UartPort),
      TCP_IN = of_nat (over_tcp (n_in x)), TCP_OUT = of_nat (over_tcp (n_out x))\<rparr>"

lemma counts_ok_step:
  assumes "hal_ok H" "pubsub_ok B" "bus_inv B x" "bus_step H B x y" "counts_ok x"
  shows "counts_ok y"
  using assms(4)
proof (cases rule: bus_step.cases)
  case (byte t p c p' b' ops w)
  with feed_accounts [OF byte(3)] assms(5) show ?thesis
    by (cases t) (simp_all add: counts_ok_def accounted_def count_in_def tally_def task_iface_def)
next
  case (deliver t p f q ms p' b' ops)
  then have "wf_frame f" using deliver_frame [OF assms(2,3)] by blast
  with deliver have "cnt b' = (if p_open p then count_out (task_iface t) (cnt (shared (core x))) else cnt (shared (core x)))"
    using port_round_frame [of f H "task_iface t" ms p "shared (core x)"] by (auto split: if_splits)
  with deliver(1) assms(5) show ?thesis
    by (cases t) (simp_all add: counts_ok_def count_out_def tally_def task_iface_def)
next
  case (bus_rx fs m' c')
  then have "c' = (cnt (shared (core x)))\<lparr>RX_COUNT := RX_COUNT (cnt (shared (core x))) + of_nat (length fs)\<rparr>"
    using can_rx_round_fields [OF assms(1) bus_rx(2)] by simp
  with bus_rx(1) assms(5) show ?thesis by (simp add: counts_ok_def)
qed (use assms(5) in \<open>auto simp: counts_ok_def join_bus_def tcp_end_def port_end_def uart_start_def tcp_accept_def
       auto_dial_def rx_subscriber_def split: if_splits Option.bind_splits\<close>)

lemma bus_reach_counts:
  assumes "hal_ok H" "pubsub_ok B" "bus_reach H B x"
  shows "counts_ok x"
  using assms(3)
proof (induction rule: bus_reach.induct)
  case start
  then show ?case by (simp add: counts_ok_def rx_init_def sys_init_def counters_init_def)
next
  case (step x y)
  then show ?case using counts_ok_step [OF assms(1,2) bus_reach_inv [OF assms(1,2)]] by blast
qed

section \<open>Catching up\<close>

text \<open>A live port whose next frame waits can take it, whatever the rest of the system does.\<close>

lemma deliver_enabled:
  assumes "hal_ok H" "pubsub_ok B" "bus_reach H B x" "sessions (core x) t = Live p" "unread B (rx_bus x) t = Some (f # us)"
  shows "\<exists>y ops. bus_step H B x y \<and> sessions (core y) t = Live p \<and> unread B (rx_bus y) t = Some us \<and>
     published (core y) = published (core x) \<and> logs y t = log_frame f ops (logs x t)"
proof -
  obtain q where q: "next_message_pure B t (rx_bus x) = Some (f, q)" "unread B q = (unread B (rx_bus x))(t := Some us)"
    using assms(2,5) unfolding pubsub_ok_def by blast
  have wf: "wf_frame f" using deliver_frame [OF assms(2) bus_reach_inv [OF assms(1-3)] assms(4) q(1)] by blast
  obtain b' ops where "port_round H (task_iface t) 0 (Frame f) p (shared (core x)) = Some (p, b', ops)"
    using port_round_frame [OF wf, of H "task_iface t" 0 p "shared (core x)"] by (cases "p_open p") auto
  from bus_step.deliver [OF assms(4) q(1) this] q(2) show ?thesis
    by (intro exI conjI) (assumption | simp)+
qed

lemma catch_up:
  assumes "hal_ok H" "pubsub_ok B" "bus_reach H B x" "sessions (core x) t = Live p" "unread B (rx_bus x) t = Some us"
  shows "\<exists>y. rtranclp (bus_step H B) x y \<and> bus_reach H B y \<and> sessions (core y) t = Live p \<and>
     unread B (rx_bus y) t = Some [] \<and> published (core y) = published (core x) \<and>
     since (logs y t) = since (logs x t) \<and> opened (logs y t) = opened (logs x t) \<and> overrun (logs y t) = overrun (logs x t)"
  using assms(3-)
proof (induction us arbitrary: x)
  case Nil
  then show ?case by blast
next
  case (Cons f us)
  obtain y ops where y: "bus_step H B x y" "sessions (core y) t = Live p" "unread B (rx_bus y) t = Some us"
     "published (core y) = published (core x)" "logs y t = log_frame f ops (logs x t)"
    using deliver_enabled [OF assms(1,2) Cons.prems] by blast
  have first: "rtranclp (bus_step H B) x z" if "rtranclp (bus_step H B) y z" for z
    using y(1) that by (rule converse_rtranclp_into_rtranclp)
  from Cons.IH [OF bus_reach.step [OF Cons.prems(1) y(1)] y(2,3)] y(4,5) first show ?case
    by (auto simp: log_frame_def)
qed

section \<open>An instance\<close>

text \<open>A channel that keeps one queue per subscriber, and a controller that starts with one frame waiting.\<close>

definition list_bus :: "(port_task \<Rightarrow> CanFrame list option) pubsub" where
  "list_bus = \<lparr>ps_new = (\<lambda>_. None), ps_subscriber = (\<lambda>t q. q(t := Some [])),
     publish_immediate = (\<lambda>f q t. map_option (\<lambda>us. newest RX_BUS_CAP (us @ [f])) (q t)),
     next_message_pure = (\<lambda>t q. case q t of Some (f # us) \<Rightarrow> Some (f, q(t := Some us)) | _ \<Rightarrow> None),
     ps_drop = (\<lambda>t q. q(t := None)), unread = (\<lambda>q. q)\<rparr>"

lemma list_bus_ok: "pubsub_ok list_bus"
  by (simp add: pubsub_ok_def list_bus_def)

definition busy_hal :: "(demo_frame list, demo_frame) twai_hal" where
  "busy_hal = loopback_hal\<lparr>twai_start := (\<lambda>_ _. [(Standard 0x123, False, 1, [7])])\<rparr>"

lemma busy_hal_ok: "hal_ok busy_hal"
  using loopback_hal_ok by (simp add: busy_hal_def hal_ok_def hal_ids_ok_def hal_bounds_ok_def hal_frames_ok_def)

text \<open>A byte the port can take is a step, and so are the bytes of a read, one after the other.\<close>

lemma byte_reach:
  assumes "bus_reach H B x" "sessions (core x) t = Live p"
    "feed H (task_iface t) c p (shared (core x)) = Some (p', b', ops, w)"
  shows "\<exists>y. bus_reach H B y \<and> sessions (core y) t = Live p' \<and> shared (core y) = b' \<and>
     published (core y) = published (core x) \<and> rx_bus y = rx_bus x \<and> logs y t = log_byte (length (published (core x))) p p' (logs x t) \<and>
     n_ack y = tally (confirmation ops) t (n_ack x)"
  using bus_reach.step [OF assms(1) bus_step.byte [OF assms(2,3)]] by (intro exI conjI) (assumption | simp)+

lemma bytes_reach:
  assumes "bus_reach H B x" "sessions (core x) t = Live p"
    "feed_all H (task_iface t) bs p (shared (core x)) = Some (p', b', ops, w)"
  shows "\<exists>y. bus_reach H B y \<and> sessions (core y) t = Live p' \<and> shared (core y) = b'"
  using assms
proof (induction bs arbitrary: x p ops w)
  case Nil
  then show ?case by auto
next
  case (Cons c bs)
  have "\<exists>p1 b1 ops1 w1 ops2 w2. feed H (task_iface t) c p (shared (core x)) = Some (p1, b1, ops1, w1) \<and>
     feed_all H (task_iface t) bs p1 b1 = Some (p', b', ops2, w2)"
    using Cons.prems(3) by (simp split: Option.bind_splits prod.splits)
  then obtain p1 b1 ops1 w1 ops2 w2 where f: "feed H (task_iface t) c p (shared (core x)) = Some (p1, b1, ops1, w1)"
    "feed_all H (task_iface t) bs p1 b1 = Some (p', b', ops2, w2)" by blast
  from byte_reach [OF Cons.prems(1,2) f(1)] obtain y where "bus_reach H B y" "sessions (core y) t = Live p1" "shared (core y) = b1"
    by blast
  with Cons.IH [of y p1] f(2) show ?case by blast
qed

lemma busy_uart_opened:
  "\<exists>x p. bus_reach busy_hal list_bus x \<and> sessions (core x) UartPort = Live p \<and> p_open p \<and> port_wf p \<and> p_len p = 0 \<and>
     unread list_bus (rx_bus x) UartPort = Some [] \<and> published (core x) = [] \<and> logs x UartPort = log_init 0 \<and>
     n_ack x = (\<lambda>_. 0) \<and> shared (core x) = \<lparr>CAN = can_open busy_hal False CanManager_new, cnt = counters_init\<rparr>"
proof -
  let ?b = "\<lparr>CAN = CanManager_new, cnt = counters_init\<rparr>"
  let ?p = "port_init\<lparr>p_line := (p_line port_init)[0 := asc CHR ''O''], p_len := 1\<rparr>"
  let ?s = "set_session UartPort (Live port_init) (sys_init\<lparr>rx_subs := 1\<rparr>)"
  define x1 where "x1 = join_bus list_bus UartPort ?s (rx_init list_bus :: (demo_frame list, _) rx_sys)"
  have "bus_step busy_hal list_bus (rx_init list_bus) x1" unfolding x1_def
    by (rule bus_step.uart_up) (simp_all add: rx_init_def uart_start_def rx_subscriber_def sys_init_def RX_BUS_SUBS_def)
  then have r1: "bus_reach busy_hal list_bus x1" by (rule bus_reach.step [OF bus_reach.start])
  have x1: "sessions (core x1) UartPort = Live port_init" "shared (core x1) = ?b" "published (core x1) = []"
    "unread list_bus (rx_bus x1) UartPort = Some []" "logs x1 UartPort = log_init 0" "n_ack x1 = (\<lambda>_. 0)"
    by (simp_all add: x1_def join_bus_def sys_init_def list_bus_def rx_init_def)
  have iface: "task_iface UartPort = Serial" by (simp add: task_iface_def)
  obtain x2 where x2: "bus_reach busy_hal list_bus x2" "sessions (core x2) UartPort = Live ?p" "shared (core x2) = ?b"
    "published (core x2) = []" "rx_bus x2 = rx_bus x1" "logs x2 UartPort = log_byte 0 port_init ?p (log_init 0)"
    "n_ack x2 = (\<lambda>_. 0)"
    using byte_reach [OF r1 x1(1), unfolded iface x1(2), OF uart_open_feeds(1) [of busy_hal]] x1(3,5,6)
    by (auto simp: tally_def)
  define p3 where "p3 = ?p\<lparr>p_open := True, p_len := 0\<rparr>"
  obtain x3 where x3: "bus_reach busy_hal list_bus x3" "sessions (core x3) UartPort = Live p3"
    "shared (core x3) = ?b\<lparr>CAN := can_open busy_hal False CanManager_new\<rparr>" "published (core x3) = []" "rx_bus x3 = rx_bus x1"
    "logs x3 UartPort = log_byte 0 ?p p3 (log_byte 0 port_init ?p (log_init 0))" "n_ack x3 = (\<lambda>_. 0)"
    using byte_reach [OF x2(1,2), unfolded iface x2(3), OF uart_open_feeds(2) [of busy_hal]] x2(4-)
    by (auto simp: p3_def tally_def)
  moreover have "log_byte 0 ?p p3 (log_byte 0 port_init ?p (log_init 0)) = log_init 0" "p_open p3" "port_wf p3" "p_len p3 = 0"
    by (simp_all add: log_byte_def log_init_def p3_def port_wf_def port_init_def)
  ultimately show ?thesis using x1(4) by (intro exI [of _ x3] exI [of _ p3]) simp
qed

lemma busy_round: "\<exists>f m' c'. can_rx_round busy_hal (can_open busy_hal False CanManager_new) c = Some ([f], m', c')"
proof -
  let ?fr = "(Standard 0x123, False, 1, [7]) :: demo_frame"
  have "twai (can_open busy_hal False CanManager_new) = Some [?fr]"
    by (simp add: can_open_def open_twai_def CanManager_new_def busy_hal_def)
  moreover have "deliveries 16 busy_hal [?fr] = ([?fr], [])" by (simp add: busy_hal_def loopback_hal_def numeral_eq_Suc)
  ultimately show ?thesis
    using rx_burst_deliveries [of busy_hal "can_open busy_hal False CanManager_new" "[?fr]" 16 "[?fr]" "[]" c]
      busy_hal_ok by (auto simp: can_rx_round_def hal_ok_def)
qed

lemma busy_run:
  "\<exists>x p f. bus_reach busy_hal list_bus x \<and> sessions (core x) UartPort = Live p \<and> p_open p \<and>
     \<not> overrun (logs x UartPort) \<and> published (core x) = [f] \<and> taken (logs x UartPort) = [f] \<and>
     since (logs x UartPort) = 0 \<and> opened (logs x UartPort) = 0 \<and> pub_open (logs x UartPort) = 0 \<and> n_ack x = (\<lambda>_. 0)"
proof -
  obtain x p where x: "bus_reach busy_hal list_bus x" "sessions (core x) UartPort = Live p" "p_open p"
     "unread list_bus (rx_bus x) UartPort = Some []" "published (core x) = []" "logs x UartPort = log_init 0"
     "CAN (shared (core x)) = can_open busy_hal False CanManager_new" "n_ack x = (\<lambda>_. 0)"
    using busy_uart_opened by fastforce
  obtain f m' c' where rx: "can_rx_round busy_hal (CAN (shared (core x))) (cnt (shared (core x))) = Some ([f], m', c')"
    using busy_round x(7) by metis
  define y where "y = x\<lparr>core := (core x)\<lparr>shared := \<lparr>CAN = m', cnt = c'\<rparr>, published := published (core x) @ [f]\<rparr>,
      rx_bus := publish_all list_bus [f] (rx_bus x), logs := (\<lambda>t. log_burst (unread list_bus (rx_bus x) t) [f] (logs x t))\<rparr>"
  have y: "bus_reach busy_hal list_bus y" unfolding y_def by (rule bus_reach.step [OF x(1) bus_step.bus_rx [OF rx]])
  have y': "sessions (core y) UartPort = Live p" "published (core y) = [f]"
    "\<exists>q. next_message_pure list_bus UartPort (rx_bus y) = Some (f, q)" "logs y UartPort = log_init 0" "n_ack y = (\<lambda>_. 0)"
    using x by (auto simp: y_def publish_all_def list_bus_def log_burst_def log_init_def RX_BUS_CAP_def)
  then obtain q where q: "next_message_pure list_bus UartPort (rx_bus y) = Some (f, q)" by blast
  have wf: "wf_frame f" using deliver_frame [OF list_bus_ok bus_reach_inv [OF busy_hal_ok list_bus_ok y] y'(1) q] by blast
  let ?ops = "[WriteAll (frame_ascii f (if p_timestamp p then Some (now_ms 0) else None)), FlushConn]"
  have "port_round busy_hal (task_iface UartPort) 0 (Frame f) p (shared (core y)) =
      Some (p, (shared (core y))\<lparr>cnt := count_out (task_iface UartPort) (cnt (shared (core y)))\<rparr>, ?ops)"
    using x(3) by (simp add: port_round_frame [OF wf])
  from bus_reach.step [OF y bus_step.deliver [OF y'(1) q this]] x(3) y'(2,4,5) show ?thesis
    by (intro exI conjI) (assumption | simp add: log_frame_def log_init_def)+
qed

lemma busy_sent:
  "\<exists>x. bus_reach busy_hal list_bus x \<and> cnt (shared (core x)) = (count_in Serial counters_init)\<lparr>TX_COUNT := 1\<rparr>"
proof -
  let ?f = "CanFrame_default\<lparr>f_id := 0x123\<rparr>" and ?fr = "(Standard 0x123, False, 1, [7]) :: demo_frame"
  obtain x p where x: "bus_reach busy_hal list_bus x" "sessions (core x) UartPort = Live p" "p_open p" "port_wf p" "p_len p = 0"
    "shared (core x) = \<lparr>CAN = can_open busy_hal False CanManager_new, cnt = counters_init\<rparr>"
    using busy_uart_opened by blast
  have "canonical_frame ?f" "id_in_range ?f"
    by (simp_all add: canonical_frame_def wf_frame_def CanFrame_default_def payload_def id_in_range_def)
  moreover have "twai (CAN (shared (core x))) = Some [?fr]"
    by (simp add: x(6) can_open_def open_twai_def CanManager_new_def busy_hal_def)
  ultimately obtain fr p' where "feed_all busy_hal Serial (frame_ascii ?f None) p (shared (core x)) =
       (let (ok, tw') = try_transmit busy_hal [?fr] fr; c = count_in Serial (cnt (shared (core x))) in
        Some (p', \<lparr>CAN = (CAN (shared (core x)))\<lparr>twai := Some tw'\<rparr>,
                   cnt = (if ok then c\<lparr>TX_COUNT := TX_COUNT c + 1\<rparr> else c)\<rparr>,
          [WriteAll (if ok then [if f_ext ?f then asc CHR ''Z'' else asc CHR ''z'', CR] else [BELL])], True))"
    using feed_frame_line [OF busy_hal_ok _ _ x(4,5,3)] by blast
  moreover have "fst (try_transmit busy_hal [?fr] fr)"
    by (simp add: try_transmit_def try_transmit_loop.simps busy_hal_def loopback_hal_def)
  ultimately obtain q ops where "feed_all busy_hal (task_iface UartPort) (frame_ascii ?f None) p (shared (core x)) =
      Some (p', \<lparr>CAN = q, cnt = (count_in Serial counters_init)\<lparr>TX_COUNT := 1\<rparr>\<rparr>, ops, True)"
    by (cases "try_transmit busy_hal [?fr] fr") (auto simp: task_iface_def x(6) Let_def count_in_def counters_init_def)
  from bytes_reach [OF x(1,2) this] show ?thesis by (metis bridge.simps(2))
qed

section \<open>Properties\<close>

lemma drop_split: "a \<le> b \<Longrightarrow> drop a xs = drop a (take b xs) @ drop b xs"
  using drop_append [of a "take b xs" "drop b xs"] by (cases "b \<le> length xs") simp_all

text \<open>
  C6.  Every open port gets every frame.  In every reachable state of the port tasks, the receive task
  and the bus, however they interleave: what the frame rounds of an open port have given to its link
  since the port was opened is one line per frame.  Unless the bus dropped a frame this session had not
  taken, these frames, followed by those that still wait for the port on the bus, are exactly the frames
  published since the port was opened, each once and in bus order, preceded by those that waited unread
  when it was opened: at most 16, the last ones published before.  Even after such a drop they are some
  of the published frames in bus order, so none is invented, repeated or reordered.
\<close>

theorem open_port_gets_every_frame:
  assumes "hal_ok H" "pubsub_ok B" "bus_reach H B x" "sessions (core x) t = Live p" "p_open p"
  shows "\<exists>fs us. unread B (rx_bus x) t = Some us \<and> lines_of fs (written (frame_ops (logs x t))) \<and>
     subseq (fs @ us) (drop (since (logs x t)) (published (core x))) \<and>
     (\<not> overrun (logs x t) \<longrightarrow>
        (\<exists>old. fs @ us = old @ drop (pub_open (logs x t)) (published (core x)) \<and> length old \<le> RX_BUS_CAP \<and>
           suffix old (take (pub_open (logs x t)) (published (core x)))))"
proof -
  let ?l = "logs x t" and ?pub = "published (core x)"
  have "task_ok ?pub (Live p) ?l (unread B (rx_bus x) t)"
    using bus_reach_inv [OF assms(1-3)] assms(4) by (metis bus_inv_def)
  then obtain us where us: "unread B (rx_bus x) t = Some us" "log_ok ?pub ?l us" "fwd_ok ?l"
    using task_okD assms(5) by fastforce
  let ?fs = "drop (opened ?l) (taken ?l)"
  have "subseq (?fs @ us) (taken ?l @ us)" using suffix_drop [of "opened ?l" "taken ?l"] by (simp add: suffix_imp_subseq)
  then have "subseq (?fs @ us) (drop (since ?l) ?pub)"
    using us(2) unfolding log_ok_def by (meson subseq_order.trans)
  moreover have "\<exists>old. ?fs @ us = old @ drop (pub_open ?l) ?pub \<and> length old \<le> RX_BUS_CAP \<and> suffix old (take (pub_open ?l) ?pub)"
    if "\<not> overrun ?l"
  proof -
    have "?fs @ us = drop (opened ?l) (taken ?l @ us)" using us(3) by (simp add: fwd_ok_def)
    also have "\<dots> = drop (since ?l + opened ?l) ?pub" using that us(2) by (simp add: log_ok_def add.commute)
    also have "\<dots> = drop (since ?l + opened ?l) (take (pub_open ?l) ?pub) @ drop (pub_open ?l) ?pub"
      using that us(3) by (intro drop_split) (simp add: fwd_ok_def)
    finally show ?thesis using that us(3) by (intro exI conjI) (assumption | auto simp: fwd_ok_def suffix_drop)+
  qed
  ultimately show ?thesis using us(1,3) by (auto simp: fwd_ok_def)
qed

theorem open_port_gets_every_frame_witness:
  "\<exists>x f. bus_reach busy_hal list_bus x \<and> published (core x) = [f] \<and>
     (\<exists>fs us. unread list_bus (rx_bus x) UartPort = Some us \<and>
        lines_of fs (written (frame_ops (logs x UartPort))) \<and> fs @ us = [f])"
proof -
  obtain x p f where x: "bus_reach busy_hal list_bus x" "sessions (core x) UartPort = Live p" "p_open p"
     "\<not> overrun (logs x UartPort)" "published (core x) = [f]" "pub_open (logs x UartPort) = 0"
    using busy_run by blast
  with open_port_gets_every_frame [OF busy_hal_ok list_bus_ok x(1-3)] show ?thesis by auto
qed

text \<open>
  C24.  A port that keeps up loses nothing.  The bus holds as many frames as one receive round can
  publish: a round taken while a task has nothing waiting leaves exactly the frames of the round
  waiting for it.  In general a round marks a session as overrun only if more than 16 frames are then
  outstanding for it, and drops no more than that excess, oldest first.
\<close>

theorem round_fits_bus:
  assumes "hal_ok H" "pubsub_ok B" "bus_reach H B x" "unread B (rx_bus x) t = Some us"
    "can_rx_round H (CAN (shared (core x))) (cnt (shared (core x))) = Some (fs, m', c')"
  shows "unread B (publish_all B fs (rx_bus x)) t = Some (newest RX_BUS_CAP (us @ fs)) \<and>
     (overrun (log_burst (Some us) fs (logs x t)) \<longleftrightarrow> overrun (logs x t) \<or> newest RX_BUS_CAP (us @ fs) \<noteq> us @ fs) \<and>
     (us = [] \<longrightarrow> newest RX_BUS_CAP (us @ fs) = fs)"
proof -
  have "task_ok (published (core x)) (sessions (core x) t) (logs x t) (Some us)"
    using bus_reach_inv [OF assms(1-3)] assms(4) by (metis bus_inv_def)
  then have "length us \<le> RX_BUS_CAP" by (simp add: log_ok_def)
  then have "unread B (publish_all B fs (rx_bus x)) t = Some (newest RX_BUS_CAP (us @ fs))"
    using unread_publish_all [OF assms(2), of "rx_bus x" t fs] assms(4) by simp
  moreover have "length fs \<le> RX_BUS_CAP"
    using can_rx_round_fields [OF assms(1,5)] by (simp add: RX_BUS_CAP_def)
  moreover have "newest RX_BUS_CAP (us @ fs) \<noteq> us @ fs" if "RX_BUS_CAP < length us + length fs"
    using that length_newest [of RX_BUS_CAP "us @ fs"] by (metis length_append not_le)
  ultimately show ?thesis by (auto simp: log_burst_def not_less)
qed

theorem round_fits_bus_witness:
  "\<exists>x f m' c'. bus_reach busy_hal list_bus x \<and>
     can_rx_round busy_hal (CAN (shared (core x))) (cnt (shared (core x))) = Some ([f], m', c') \<and>
     unread list_bus (publish_all list_bus [f] (rx_bus x)) UartPort = Some [f]"
proof -
  obtain x where x: "bus_reach busy_hal list_bus x" "unread list_bus (rx_bus x) UartPort = Some []"
     "CAN (shared (core x)) = can_open busy_hal False CanManager_new"
    using busy_uart_opened by fastforce
  obtain f m' c' where rx: "can_rx_round busy_hal (CAN (shared (core x))) (cnt (shared (core x))) = Some ([f], m', c')"
    using busy_round x(3) by metis
  from round_fits_bus [OF busy_hal_ok list_bus_ok x(1,2) rx] x(1) rx show ?thesis by auto
qed

text \<open>
  C25.  The counters on the status page are exact.  In every reachable state, over all sessions since
  the start and modulo their 32 bits: the number of frames received is the number of frames published;
  the number of frames transmitted is the number of confirmations (\<^verbatim>\<open>z\<close> or \<^verbatim>\<open>Z\<close>) given to the hosts, so no
  transmission goes unconfirmed and none is confirmed that the controller did not accept; the numbers
  of frames from the serial link and from TCP are the numbers of lines on these links that are transmit
  commands for a frame, whether their port was open or not; and the numbers of frames forwarded to them
  are the numbers of frame rounds of open ports.
\<close>

theorem counters_exact:
  assumes "hal_ok H" "pubsub_ok B" "bus_reach H B x"
  shows "unat (RX_COUNT (cnt (shared (core x)))) = length (published (core x)) mod 2 ^ 32 \<and>
     unat (TX_COUNT (cnt (shared (core x)))) = (n_ack x UartPort + over_tcp (n_ack x)) mod 2 ^ 32 \<and>
     unat (SER_IN (cnt (shared (core x)))) = n_in x UartPort mod 2 ^ 32 \<and>
     unat (SER_OUT (cnt (shared (core x)))) = n_out x UartPort mod 2 ^ 32 \<and>
     unat (TCP_IN (cnt (shared (core x)))) = over_tcp (n_in x) mod 2 ^ 32 \<and>
     unat (TCP_OUT (cnt (shared (core x)))) = over_tcp (n_out x) mod 2 ^ 32"
proof -
  have "cnt (shared (core x)) =
     \<lparr>RX_COUNT = of_nat (length (published (core x))), TX_COUNT = of_nat (n_ack x UartPort + over_tcp (n_ack x)),
      SER_IN = of_nat (n_in x UartPort), SER_OUT = of_nat (n_out x UartPort),
      TCP_IN = of_nat (over_tcp (n_in x)), TCP_OUT = of_nat (over_tcp (n_out x))\<rparr>"
    using bus_reach_counts [OF assms] by (simp add: counts_ok_def)
  then show ?thesis by (simp only: counters.simps unat_of_nat) simp
qed

theorem counters_exact_witness:
  "\<exists>x. bus_reach busy_hal list_bus x \<and> unat (TX_COUNT (cnt (shared (core x)))) = 1 \<and>
     (n_ack x UartPort + over_tcp (n_ack x)) mod 2 ^ 32 = 1 \<and> n_in x UartPort mod 2 ^ 32 = 1"
proof -
  obtain x where x: "bus_reach busy_hal list_bus x"
    "cnt (shared (core x)) = (count_in Serial counters_init)\<lparr>TX_COUNT := 1\<rparr>" using busy_sent by blast
  from counters_exact [OF busy_hal_ok list_bus_ok x(1)] x show ?thesis
    by (intro exI [of _ x]) (simp add: count_in_def counters_init_def)
qed

text \<open>
  C23.  A port can always catch up.  From every reachable state a live port can take all frames that
  wait for it, one round after the other, without a panic and without waiting for another task; if it
  is open and the bus dropped nothing, its link has then been given, in bus order, every frame
  published from its opening position on.
\<close>

theorem port_can_catch_up:
  assumes "hal_ok H" "pubsub_ok B" "bus_reach H B x" "sessions (core x) t = Live p"
  shows "\<exists>y. rtranclp (bus_step H B) x y \<and> sessions (core y) t = Live p \<and> unread B (rx_bus y) t = Some [] \<and>
     published (core y) = published (core x) \<and>
     (p_open p \<and> \<not> overrun (logs x t) \<longrightarrow>
        lines_of (drop (since (logs x t) + opened (logs x t)) (published (core x))) (written (frame_ops (logs y t))))"
proof -
  have ok: "task_ok (published (core y)) (Live p) (logs y t) (unread B (rx_bus y) t)"
    if "bus_reach H B y" "sessions (core y) t = Live p" for y
    using bus_reach_inv [OF assms(1,2) that(1)] that(2) by (metis bus_inv_def)
  obtain us where "unread B (rx_bus x) t = Some us" using ok [OF assms(3,4)] task_okD by blast
  then obtain y where y: "rtranclp (bus_step H B) x y" "bus_reach H B y" "sessions (core y) t = Live p"
     "unread B (rx_bus y) t = Some []" "published (core y) = published (core x)"
     "since (logs y t) = since (logs x t)" "opened (logs y t) = opened (logs x t)" "overrun (logs y t) = overrun (logs x t)"
    using catch_up [OF assms] by blast
  have "lines_of (drop (since (logs x t) + opened (logs x t)) (published (core x))) (written (frame_ops (logs y t)))"
    if "p_open p" "\<not> overrun (logs x t)"
  proof -
    have "log_ok (published (core y)) (logs y t) []" "fwd_ok (logs y t)" using ok [OF y(2,3)] y(4) that(1) by simp_all
    with that(2) y(5-8) show ?thesis by (simp add: log_ok_def fwd_ok_def add.commute)
  qed
  with y show ?thesis by blast
qed

theorem port_can_catch_up_witness:
  "\<exists>x y f. bus_reach busy_hal list_bus x \<and> published (core x) = [f] \<and> rtranclp (bus_step busy_hal list_bus) x y \<and>
     unread list_bus (rx_bus y) UartPort = Some [] \<and> lines_of [f] (written (frame_ops (logs y UartPort)))"
proof -
  obtain x p f where x: "bus_reach busy_hal list_bus x" "sessions (core x) UartPort = Live p" "p_open p"
     "\<not> overrun (logs x UartPort)" "published (core x) = [f]" "since (logs x UartPort) = 0" "opened (logs x UartPort) = 0"
    using busy_run by blast
  with port_can_catch_up [OF busy_hal_ok list_bus_ok x(1,2)] show ?thesis by fastforce
qed

end
