(* ===== verification/Channel_Spec.thy ===== *)
theory Channel_Spec
  imports Ports
begin

text \<open>
  An abstract specification of the shared CAN channel and the proof that the port tasks of theory
  \<open>Ports\<close>, with their line buffers, commands, counters and sessions, implement it.  The specification
  knows only which ports have the channel open and its bit rate.
\<close>

section \<open>The specification\<close>

record chan =
  members :: "port_task set"
  rate :: BaudRate

definition chan_init :: chan where
  "chan_init = \<lparr>members = {}, rate = DEFAULT_BAUD\<rparr>"

text \<open>A port joins or leaves; the rate changes to a supported one only while nobody is a member.\<close>

inductive chan_step :: "chan \<Rightarrow> chan \<Rightarrow> bool" where
  stay: "chan_step c c"
| join: "t \<notin> members c \<Longrightarrow> chan_step c (c\<lparr>members := insert t (members c)\<rparr>)"
| leave: "t \<in> members c \<Longrightarrow> chan_step c (c\<lparr>members := members c - {t}\<rparr>)"
| retune: "members c = {} \<Longrightarrow> baud_from_s d = Some r \<Longrightarrow> chan_step c (c\<lparr>rate := r\<rparr>)"

inductive_simps chan_step_iff: "chan_step c c'"

section \<open>The abstraction\<close>

definition chan_of :: "'t sys \<Rightarrow> chan" where
  "chan_of s = \<lparr>members = open_tasks s, rate = baud (CAN (shared s))\<rparr>"

lemma chan_of_fields [simp]: "members (chan_of s) = open_tasks s" "rate (chan_of s) = baud (CAN (shared s))"
  by (simp_all add: chan_of_def)

text \<open>What one command, and so one byte, does to the bit rate.\<close>

definition rate_step :: "bool \<Rightarrow> 't CanManager \<Rightarrow> bool \<Rightarrow> 't CanManager \<Rightarrow> bool" where
  "rate_step op m op' m' \<longleftrightarrow>
     baud m' = baud m \<or> (op' = op \<and> open_count m = 0 \<and> (\<exists>d. baud_from_s d = Some (baud m')))"

lemma rate_step_same [simp]: "baud m' = baud m \<Longrightarrow> rate_step op m op' m'"
  by (simp add: rate_step_def)

lemma baud_open_close [simp]: "baud (can_open H l m) = baud m" "baud (can_close m) = baud m"
  by (simp_all add: can_open_def can_close_def Let_def)

lemma rate_step_set_bitrate: "set_bitrate d m = (ok, m') \<Longrightarrow> rate_step op m op m'"
  by (auto simp: set_bitrate_def rate_step_def split: if_splits option.splits)

lemma dispatch_tx_rate:
  "dispatch_tx H line cmd iface op ts b = Some (op', ts', b', ops) \<Longrightarrow> baud (CAN b') = baud (CAN b)"
  by (auto simp: dispatch_tx_def Let_def bind_eq_Some_conv split: if_splits option.splits prod.splits
      dest: transmit_frame_fields)

lemma dispatch_rate:
  assumes "dispatch H line iface op ts b = Some (op', ts', b', ops)"
  shows "rate_step op (CAN b) op' (CAN b')"
proof -
  obtain cmd where cmd: "idx line 0 = Some cmd" using assms by (auto simp: dispatch_def bind_eq_Some_conv)
  obtain ok m where rate: "(case get_at line 1 of Some d \<Rightarrow> set_bitrate d (CAN b) | None \<Rightarrow> (False, CAN b)) = (ok, m)"
    by fastforce
  then have "rate_step op (CAN b) op m" using rate_step_set_bitrate by (auto split: option.splits)
  with assms show ?thesis
    unfolding dispatch_def rate cmd Option.bind.bind_lunit Let_def prod.case
    by (auto split: if_splits dest!: dispatch_tx_rate)
qed

lemma feed_rate:
  assumes "feed H iface x p b = Some (p', b', ops, w)"
  shows "rate_step (p_open p) (CAN b) (p_open p') (CAN b')"
  using assms dispatch_rate by (auto simp: feed_def bind_eq_Some_conv split: if_splits)

section \<open>Simulation\<close>

text \<open>A step keeps the promise to the specification: it is a step there, and the first member starts the
  controller at the specified rate.\<close>

definition simulates :: "('t, 'f) twai_hal \<Rightarrow> 't sys \<Rightarrow> 't sys \<Rightarrow> bool" where
  "simulates H s s' \<longleftrightarrow>
     chan_step (chan_of s) (chan_of s') \<and>
     (members (chan_of s) = {} \<and> members (chan_of s') \<noteq> {} \<longrightarrow>
        (\<exists>mode. twai (CAN (shared s')) = Some (twai_start H (rate (chan_of s)) mode)))"

lemma simulates_stay: "chan_of s' = chan_of s \<Longrightarrow> simulates H s s'"
  unfolding simulates_def by (simp add: chan_step.stay)

lemma no_users_iff: "sys_inv s \<Longrightarrow> open_count (CAN (shared s)) = 0 \<longleftrightarrow> open_tasks s = {}"
  unfolding sys_inv_def by (metis card_0_eq card_eq_0_iff finite unat_eq_zero)

text \<open>A step that leaves the members alone either changes nothing or retunes a channel without members.\<close>

lemma simulates_same_members:
  assumes "sys_inv s" "rate_step op (CAN (shared s)) op' (CAN b')" "open_tasks s' = open_tasks s" "shared s' = b'"
  shows "simulates H s s'"
proof (cases "baud (CAN b') = baud (CAN (shared s))")
  case True
  then show ?thesis by (intro simulates_stay) (simp add: chan_of_def assms(3,4))
next
  case False
  with assms(2) no_users_iff [OF assms(1)] obtain d where "open_tasks s = {}" "baud_from_s d = Some (baud (CAN b'))"
    by (auto simp: rate_step_def)
  then show ?thesis
    using chan_step.retune [of "chan_of s" d "baud (CAN b')"] by (simp add: simulates_def chan_of_def assms(3,4))
qed

lemma simulates_port_step:
  assumes inv: "sys_inv s" and live: "sessions s t = Live p"
    and chan: "channel_step H (p_open p) (CAN (shared s)) (p_open p') (CAN b')"
    and rate: "rate_step (p_open p) (CAN (shared s)) (p_open p') (CAN b')"
    and s': "open_tasks s' = (if p_open p' then insert t (open_tasks s) else open_tasks s - {t})" "shared s' = b'"
  shows "simulates H s s'"
proof -
  have mem: "t \<in> open_tasks s \<longleftrightarrow> p_open p" using live by (simp add: mem_tasks)
  consider "p_open p = p_open p'" | "\<not> p_open p" "p_open p'" | "p_open p" "\<not> p_open p'" by auto
  then show ?thesis
  proof cases
    case 1
    then have same: "open_tasks s' = open_tasks s" using s'(1) mem by auto
    show ?thesis by (rule simulates_same_members [OF inv rate same s'(2)])
  next
    case 2
    then obtain l where l: "CAN b' = can_open H l (CAN (shared s))" using chan by (auto simp: channel_step_def)
    then have "chan_of s' = (chan_of s)\<lparr>members := insert t (members (chan_of s))\<rparr>"
      using s' 2 by (simp add: chan_of_def)
    moreover have "twai (CAN b') = Some (twai_start H (baud (CAN (shared s))) (if l then ListenOnly else Normal))"
      if "open_tasks s = {}"
      using that no_users_iff [OF inv] by (simp add: l can_open_def open_twai_def Let_def)
    ultimately show ?thesis
      using chan_step.join [of t "chan_of s"] mem 2 s'(2) unfolding simulates_def by auto
  next
    case 3
    then have "chan_of s' = (chan_of s)\<lparr>members := members (chan_of s) - {t}\<rparr>"
      using s' chan by (simp add: chan_of_def channel_step_def)
    then show ?thesis
      using chan_step.leave [of t "chan_of s"] mem 3 unfolding simulates_def by auto
  qed
qed

lemma simulates_link_end:
  assumes "sys_inv s" "sessions s t = Live p"
  shows "simulates H s (tcp_end t p s)"
proof -
  have rate: "rate_step (p_open p) (CAN (shared s)) (p_open (p\<lparr>p_open := False\<rparr>)) (CAN (port_end p (shared s)))"
    by (simp add: port_end_def)
  have chan: "channel_step H (p_open p) (CAN (shared s)) (p_open (p\<lparr>p_open := False\<rparr>)) (CAN (port_end p (shared s)))"
    using port_end_step by simp
  show ?thesis
    by (rule simulates_port_step [OF assms chan rate]) (simp_all add: tcp_end_def tasks_set_session)
qed

text \<open>Sessions come and go without touching the channel.\<close>

lemma chan_of_session:
  "sessions s t = Idle \<or> sessions s t = Linking \<or> sessions s t = Closing \<Longrightarrow> \<not> session_open ses \<Longrightarrow>
   chan_of (set_session t ses s) = chan_of s"
  by (auto simp: chan_of_def tasks_set_session mem_tasks)

lemma chan_of_counts [simp]:
  "chan_of (s\<lparr>rx_subs := n\<rparr>) = chan_of s" "chan_of (s\<lparr>TCP_CLIENTS := c\<rparr>) = chan_of s"
  by (simp_all add: chan_of_def)

lemma chan_of_started:
  "sessions s UartPort = Idle \<Longrightarrow> uart_start s = Some s' \<Longrightarrow> chan_of s' = chan_of s"
  "sessions s t = Idle \<Longrightarrow> tcp_accept t s = Some s' \<Longrightarrow> chan_of s' = chan_of s"
  "sessions s AutoPort = Idle \<Longrightarrow> auto_dial s = Some s' \<Longrightarrow> chan_of s' = chan_of s"
  by (auto simp: uart_start_def tcp_accept_def auto_dial_def rx_subscriber_def chan_of_session split: if_splits)

lemma sys_step_simulates:
  assumes H: "hal_ok H" and inv: "sys_inv s" and step: "sys_step H s s'"
  shows "simulates H s s'"
  using step
proof (cases rule: sys_step.cases)
  case (byte t p x p' b' ops w)
  then have "port_wf p" using inv by (auto simp: sys_inv_def)
  then have "channel_step H (p_open p) (CAN (shared s)) (p_open p') (CAN b')"
    using feed_result [of p H "task_iface t" x "shared s"] byte(3) by auto
  from simulates_port_step [OF inv byte(2) this feed_rate [OF byte(3)]] show ?thesis
    by (simp add: byte(1) tasks_set_session)
next
  case (deliver t p f ms p' b' ops)
  then have "channel_step H (p_open p) (CAN (shared s)) (p_open p') (CAN b')"
    "rate_step (p_open p) (CAN (shared s)) (p_open p') (CAN b')"
    using deliver_same [OF inv deliver(3,4)] by simp_all
  from simulates_port_step [OF inv deliver(2) this] show ?thesis by (simp add: deliver(1) tasks_set_session)
next
  case (link_end t p)
  then show ?thesis using simulates_link_end [OF inv] by simp
next
  case (bus_rx fs m' c')
  then show ?thesis
    using can_rx_round_fields [OF H, of "CAN (shared s)" "cnt (shared s)" fs m' c']
    by (intro simulates_stay) (auto simp: chan_of_def)
qed (auto intro!: simulates_stay simp: chan_of_session chan_of_started)

text \<open>
  C3.  The ports together implement the specification of a shared channel.  The initial state maps to
  the initial channel; from every reachable state each step of any task is a step of the specification
  (a port joins, leaves, changes the rate of the empty channel, or nothing happens); the controller is
  on the bus exactly while the channel has members; and when the first member joins, the controller is
  started at the rate the specification has at that moment.
\<close>

theorem ports_refine_channel:
  fixes s :: "'t sys"
  assumes "hal_ok H" "reachable H s"
  shows "chan_of (sys_init :: 't sys) = chan_init \<and>
     (\<forall>s'. sys_step H s s' \<longrightarrow> chan_step (chan_of s) (chan_of s') \<and>
        (members (chan_of s) = {} \<and> members (chan_of s') \<noteq> {} \<longrightarrow>
           (\<exists>mode. twai (CAN (shared s')) = Some (twai_start H (rate (chan_of s)) mode)))) \<and>
     (twai (CAN (shared s)) \<noteq> None \<longleftrightarrow> members (chan_of s) \<noteq> {})"
proof (intro conjI allI impI)
  note inv = reachable_inv [OF assms]
  show "chan_of (sys_init :: 't sys) = chan_init"
    by (simp add: chan_of_def chan_init_def sys_init_def open_tasks_def CanManager_new_def)
  show "twai (CAN (shared s)) \<noteq> None \<longleftrightarrow> members (chan_of s) \<noteq> {}"
    using no_users_iff [OF inv] inv by (auto simp: sys_inv_def can_inv_def)
  fix s' assume "sys_step H s s'"
  then have sim: "simulates H s s'" by (rule sys_step_simulates [OF assms(1) inv])
  then show "chan_step (chan_of s) (chan_of s')" by (simp add: simulates_def)
  assume "members (chan_of s) = {} \<and> members (chan_of s') \<noteq> {}"
  with sim show "\<exists>mode. twai (CAN (shared s')) = Some (twai_start H (rate (chan_of s)) mode)"
    by (auto simp: simulates_def)
qed

theorem ports_refine_channel_witness:
  "\<exists>s'. sys_step loopback_hal (uart_opened loopback_hal) s' \<and>
     chan_step (chan_of (uart_opened loopback_hal)) (chan_of s') \<and>
     members (chan_of (uart_opened loopback_hal)) = {UartPort} \<and> twai (CAN (shared (uart_opened loopback_hal))) \<noteq> None"
proof -
  let ?s = "uart_opened loopback_hal"
  have "sys_step loopback_hal ?s (set_session UartPort
      (Live (port_init\<lparr>p_line := (p_line port_init)[0 := asc CHR ''O''], p_open := True\<rparr>)) (?s\<lparr>shared := shared ?s\<rparr>))"
    by (rule sys_step.byte [where x = "0x0a" and ops = "[]" and w = False]) (simp_all add: uart_opened_def feed_def CR_def)
  moreover have "members (chan_of ?s) = {UartPort}"
    by (auto simp: uart_opened_def tasks_set_session) (auto simp: sys_init_def open_tasks_def)
  ultimately show ?thesis using ports_refine_channel [OF loopback_hal_ok reachable_uart_opened] by blast
qed

end
