(* ===== verification/Uart_Poll.thy ===== *)
theory Uart_Poll
  imports Transport "HOL-Library.Sublist"
begin

text \<open>
  \<^verbatim>\<open>src/uart_poll.rs\<close>: the polled UART that makes a blocking driver look like an asynchronous link, and
  \<^verbatim>\<open>uart_port\<close> of \<^verbatim>\<open>src/main.rs\<close>, the port runner over it.

  \<^verbatim>\<open>read\<close> is a loop that may wait for ever, so here, unlike in the rest of the development, \<open>None\<close> as the
  result of \<open>uart_read\<close> is not a panic but a call that never returns.
\<close>

section \<open>Model\<close>

text \<open>
  The blocking driver: \<open>'u\<close> is the state of the receiver and of what is on its way to it, which also
  moves on while the task sleeps, \<open>'w\<close> the state of the transmitter.
\<close>

record ('u, 'w) uart_hal =
  read_buffered :: "'u \<Rightarrow> nat \<Rightarrow> (unit + bytes) \<times> 'u"
  sleep_1ms :: "'u \<Rightarrow> 'u"
  uart_tx_write :: "'w \<Rightarrow> bytes \<Rightarrow> (unit + nat) \<times> 'w"
  uart_tx_flush :: "'w \<Rightarrow> (unit + unit) \<times> 'w"

text \<open>The result is the byte count, the caller's buffer and the receiver.\<close>

partial_function (option) uart_read :: "('u, 'w) uart_hal \<Rightarrow> 'u \<Rightarrow> bytes \<Rightarrow> (nat \<times> bytes \<times> 'u) option" where
  [code]: "uart_read U u buf =
     (case read_buffered U u (length buf) of
        (Inr bs, u') \<Rightarrow>
          if 0 < length bs then Some (length bs, bs @ drop (length bs) buf, u')
          else uart_read U (sleep_1ms U u') buf
      | (Inl e, u') \<Rightarrow> uart_read U (sleep_1ms U u') buf)"

definition uart_write :: "('u, 'w) uart_hal \<Rightarrow> bytes \<Rightarrow> 'w \<Rightarrow> nat \<times> 'w" where
  "uart_write U buf w =
     (case uart_tx_write U w buf of (Inr n, w') \<Rightarrow> (n, w') | (Inl e, w') \<Rightarrow> (0, w'))"

definition uart_flush :: "('u, 'w) uart_hal \<Rightarrow> 'w \<Rightarrow> 'w" where
  "uart_flush U w = snd (uart_tx_flush U w)"

section \<open>The read loop\<close>

definition polled :: "('u, 'w) uart_hal \<Rightarrow> nat \<Rightarrow> 'u \<Rightarrow> bytes" where
  "polled U n u = (case fst (read_buffered U u n) of Inr bs \<Rightarrow> bs | Inl e \<Rightarrow> [])"

definition next_poll :: "('u, 'w) uart_hal \<Rightarrow> nat \<Rightarrow> 'u \<Rightarrow> 'u" where
  "next_poll U n u = sleep_1ms U (snd (read_buffered U u n))"

text \<open>The receiver at poll \<open>k\<close> of a read into a buffer of \<open>n\<close> bytes.\<close>

definition poll_state :: "('u, 'w) uart_hal \<Rightarrow> nat \<Rightarrow> 'u \<Rightarrow> nat \<Rightarrow> 'u" where
  "poll_state U n u k = (next_poll U n ^^ k) u"

lemma uart_read_data:
  "polled U (length buf) u \<noteq> [] \<Longrightarrow>
   uart_read U u buf = Some (length (polled U (length buf) u),
     polled U (length buf) u @ drop (length (polled U (length buf) u)) buf, snd (read_buffered U u (length buf)))"
  by (subst uart_read.simps) (auto simp: polled_def split: prod.splits sum.splits)

lemma uart_read_empty:
  "polled U (length buf) u = [] \<Longrightarrow> uart_read U u buf = uart_read U (next_poll U (length buf) u) buf"
  by (subst uart_read.simps) (auto simp: polled_def next_poll_def split: prod.splits sum.splits)

lemma uart_read_skips:
  "\<forall>j < k. polled U (length buf) ((next_poll U (length buf) ^^ j) u) = [] \<Longrightarrow>
   uart_read U u buf = uart_read U ((next_poll U (length buf) ^^ k) u) buf"
proof (induction k)
  case (Suc k)
  then have "uart_read U u buf = uart_read U ((next_poll U (length buf) ^^ k) u) buf" by simp
  with Suc.prems show ?case using uart_read_empty [of U buf "(next_poll U (length buf) ^^ k) u"] by simp
qed simp

lemma uart_read_needs_data:
  assumes "uart_read U u buf = Some r"
  shows "\<exists>k. polled U (length buf) ((next_poll U (length buf) ^^ k) u) \<noteq> []"
proof (rule uart_read.raw_induct [OF _ assms,
      of "\<lambda>U u buf _. \<exists>k. polled U (length buf) ((next_poll U (length buf) ^^ k) u) \<noteq> []"])
  fix rd U u buf y
  assume IH: "\<And>U u buf y. rd U u buf = Some y \<Longrightarrow>
      \<exists>k. polled U (length buf) ((next_poll U (length buf) ^^ k) u) \<noteq> []"
    and body: "(case read_buffered U u (length buf) of
        (Inl e, u') \<Rightarrow> rd U (sleep_1ms U u') buf
      | (Inr bs, u') \<Rightarrow> if 0 < length bs then Some (length bs, bs @ drop (length bs) buf, u')
          else rd U (sleep_1ms U u') buf) = Some y"
  show "\<exists>k. polled U (length buf) ((next_poll U (length buf) ^^ k) u) \<noteq> []"
  proof (cases "polled U (length buf) u = []")
    case True
    then have "rd U (next_poll U (length buf) u) buf = Some y"
      using body by (auto simp: polled_def next_poll_def split: prod.splits sum.splits)
    from IH [OF this] obtain k where "polled U (length buf) ((next_poll U (length buf) ^^ Suc k) u) \<noteq> []"
      by (auto simp: funpow_swap1)
    then show ?thesis by blast
  next
    case False
    then show ?thesis by (intro exI [of _ 0]) simp
  qed
qed

text \<open>
  A read of the polled UART returns exactly when some later poll finds bytes; it then delivers
  the bytes of the first such poll, all of them and nothing else, in front of the caller's buffer.
  Empty polls and driver errors in between are passed over, so a read never reports zero bytes (which
  the port runner would take for the end of the link).
\<close>

lemma uart_read_first_data:
  assumes "\<And>u n. length (polled U n u) \<le> n"
  shows "(uart_read U u buf = None \<longleftrightarrow> (\<forall>k. polled U (length buf) (poll_state U (length buf) u k) = [])) \<and>
     (\<forall>n buf' u'. uart_read U u buf = Some (n, buf', u') \<longrightarrow>
        (\<exists>k. (\<forall>j < k. polled U (length buf) (poll_state U (length buf) u j) = []) \<and> 0 < n \<and> n \<le> length buf \<and>
           length buf' = length buf \<and> take n buf' = polled U (length buf) (poll_state U (length buf) u k) \<and> drop n buf' = drop n buf))"
proof -
  have first: "uart_read U u buf = Some (length bs, bs @ drop (length bs) buf, snd (read_buffered U (poll_state U (length buf) u k) (length buf)))"
    if "\<forall>j < k. polled U (length buf) (poll_state U (length buf) u j) = []" "bs = polled U (length buf) (poll_state U (length buf) u k)" "bs \<noteq> []" for k bs
    using uart_read_skips [of k U buf u] uart_read_data [of U buf "poll_state U (length buf) u k"] that by (simp add: poll_state_def)
  define P where "P k \<longleftrightarrow> polled U (length buf) (poll_state U (length buf) u k) \<noteq> []" for k
  have least: "P (LEAST k. P k) \<and> (\<forall>j < (LEAST k. P k). \<not> P j)" if "P k" for k
    using that LeastI [of P k] not_less_Least [of _ P] by blast
  show ?thesis
  proof (cases "\<exists>k. P k")
    case True
    then obtain k where k: "P k" "\<forall>j < k. \<not> P j" using least by blast
    then have "uart_read U u buf = Some (length (polled U (length buf) (poll_state U (length buf) u k)),
        polled U (length buf) (poll_state U (length buf) u k) @ drop (length (polled U (length buf) (poll_state U (length buf) u k))) buf,
        snd (read_buffered U (poll_state U (length buf) u k) (length buf)))"
      by (intro first) (auto simp: P_def)
    with k assms [of "length buf" "poll_state U (length buf) u k"] show ?thesis by (auto simp: P_def intro!: exI [of _ k])
  next
    case False
    then have "uart_read U u buf = None"
      using uart_read_needs_data [of U u buf] by (cases "uart_read U u buf") (auto simp: P_def poll_state_def)
    with False show ?thesis by (simp add: P_def)
  qed
qed

section \<open>The port on the UART\<close>

text \<open>
  \<^verbatim>\<open>uart_port\<close> of \<^verbatim>\<open>src/main.rs\<close>: the port runner over this link.  Its \<^verbatim>\<open>select\<close> first polls the read and then
  the bus, again after every wake-up, and drops the read when a frame is there.  What the bus does
  during one \<^verbatim>\<open>select\<close> is an input: no frame comes, or one is found after \<open>k\<close> further idle polls of the
  receiver, during the sleep that follows the last of them or before it.
\<close>

datatype arrival = NoFrame | FrameAt nat bool CanFrame

definition uart_poll :: "('u, 'w) uart_hal \<Rightarrow> 'u \<Rightarrow> bytes \<Rightarrow> (nat \<times> bytes \<times> 'u) + 'u" where
  "uart_poll U u buf =
     (case read_buffered U u (length buf) of
        (Inr bs, u') \<Rightarrow> if 0 < length bs then Inl (length bs, bs @ drop (length bs) buf, u') else Inr u'
      | (Inl e, u') \<Rightarrow> Inr u')"

text \<open>The read until it completes (\<open>Inl\<close>) or is dropped in favour of a frame (\<open>Inr\<close>).\<close>

fun uart_select :: "('u, 'w) uart_hal \<Rightarrow> nat \<Rightarrow> bool \<Rightarrow> 'u \<Rightarrow> bytes \<Rightarrow> (nat \<times> bytes \<times> 'u) + 'u" where
  "uart_select U 0 asleep u buf =
     (case uart_poll U u buf of Inl r \<Rightarrow> Inl r | Inr u' \<Rightarrow> Inr (if asleep then sleep_1ms U u' else u'))"
| "uart_select U (Suc k) asleep u buf =
     (case uart_poll U u buf of Inl r \<Rightarrow> Inl r | Inr u' \<Rightarrow> uart_select U k asleep (sleep_1ms U u') buf)"

text \<open>One \<^verbatim>\<open>select\<close> and the \<^verbatim>\<open>Act\<close> it yields; \<open>None\<close> when it never returns.\<close>

definition uart_act :: "('u, 'w) uart_hal \<Rightarrow> arrival \<Rightarrow> 'u \<Rightarrow> bytes \<Rightarrow> (Act \<times> bytes \<times> 'u) option" where
  "uart_act U a u rxbuf =
     (case a of
        NoFrame \<Rightarrow> do { (n, buf, u') \<leftarrow> uart_read U u rxbuf; Some (if n = 0 then Stop else Bytes (take n buf), buf, u') }
      | FrameAt k asleep f \<Rightarrow>
          (case uart_select U k asleep u rxbuf of
             Inl (n, buf, u') \<Rightarrow> Some (if n = 0 then Stop else Bytes (take n buf), buf, u')
           | Inr u' \<Rightarrow> Some (Frame f, rxbuf, u')))"

fun uart_acts :: "('u, 'w) uart_hal \<Rightarrow> arrival list \<Rightarrow> 'u \<Rightarrow> bytes \<Rightarrow> (Act list \<times> bytes \<times> 'u) option" where
  "uart_acts U [] u rxbuf = Some ([], rxbuf, u)"
| "uart_acts U (a # as) u rxbuf =
     do { (act, rxbuf, u) \<leftarrow> uart_act U a u rxbuf;
          (acts, rxbuf, u) \<leftarrow> uart_acts U as u rxbuf;
          Some (act # acts, rxbuf, u) }"

text \<open>
  What the port does to its link, on the transmitter.  \<^verbatim>\<open>write_all\<close> is the provided method of
  embedded-io-async and a parameter: it calls \<^verbatim>\<open>write\<close> until the whole buffer is written.  Its value \<open>None\<close>
  is a call that does not come to that.
\<close>

type_synonym 'w write_all_fn = "(bytes \<Rightarrow> 'w \<Rightarrow> nat \<times> 'w) \<Rightarrow> bytes \<Rightarrow> 'w \<Rightarrow> 'w option"

definition write_all_ok :: "'w write_all_fn \<Rightarrow> bool" where
  "write_all_ok WA \<longleftrightarrow>
     (\<forall>wr w. WA wr [] w = Some w) \<and>
     (\<forall>wr bs w n w'. bs \<noteq> [] \<and> wr bs w = (n, w') \<and> 0 < n \<and> n \<le> length bs \<longrightarrow> WA wr bs w = WA wr (drop n bs) w')"

fun uart_ops :: "('u, 'w) uart_hal \<Rightarrow> 'w write_all_fn \<Rightarrow> conn_op list \<Rightarrow> 'w \<Rightarrow> 'w option" where
  "uart_ops U WA [] w = Some w"
| "uart_ops U WA (WriteAll bs # ops) w = do { w \<leftarrow> WA (uart_write U) bs w; uart_ops U WA ops w }"
| "uart_ops U WA (FlushConn # ops) w = uart_ops U WA ops (uart_flush U w)"

text \<open>
  The driver: the receiver hands out the bytes of a stream \<open>str\<close> one after the other, \<open>pos\<close> counting
  those handed out, and none together with an error; the transmitter takes at least one byte of what it
  is given and \<open>sent\<close> is what it has taken.
\<close>

definition uart_ok :: "('u, 'w) uart_hal \<Rightarrow> (nat \<Rightarrow> u8) \<Rightarrow> ('u \<Rightarrow> nat) \<Rightarrow> ('w \<Rightarrow> bytes) \<Rightarrow> bool" where
  "uart_ok U str pos sent \<longleftrightarrow>
     (\<forall>u n bs u'. read_buffered U u n = (Inr bs, u') \<longrightarrow>
        length bs \<le> n \<and> bs = map str [pos u..<pos u + length bs] \<and> pos u' = pos u + length bs) \<and>
     (\<forall>u n e u'. read_buffered U u n = (Inl e, u') \<longrightarrow> pos u' = pos u) \<and>
     (\<forall>u. pos (sleep_1ms U u) = pos u) \<and>
     (\<forall>w bs. bs \<noteq> [] \<longrightarrow> (\<exists>n w'. uart_tx_write U w bs = (Inr n, w') \<and> 0 < n \<and> n \<le> length bs \<and> sent w' = sent w @ take n bs)) \<and>
     (\<forall>w. sent (snd (uart_tx_flush U w)) = sent w)"

text \<open>The frame that comes during a \<^verbatim>\<open>select\<close>, and the bytes that it yields.\<close>

fun arrival_frames :: "arrival \<Rightarrow> CanFrame list" where
  "arrival_frames NoFrame = []"
| "arrival_frames (FrameAt k asleep f) = [f]"

fun act_bytes :: "Act \<Rightarrow> bytes" where
  "act_bytes (Bytes bs) = bs"
| "act_bytes _ = []"

subsection \<open>Reading\<close>

text \<open>Bytes of a read are the next ones of the stream; a read that was dropped took none.\<close>

definition read_ok :: "(nat \<Rightarrow> u8) \<Rightarrow> ('u \<Rightarrow> nat) \<Rightarrow> nat \<Rightarrow> 'u \<Rightarrow> (nat \<times> bytes \<times> 'u) + 'u \<Rightarrow> bool" where
  "read_ok str pos len u r \<longleftrightarrow>
     (case r of
        Inl (n, buf, u') \<Rightarrow> 0 < n \<and> n \<le> len \<and> length buf = len \<and> pos u' = pos u + n \<and> take n buf = map str [pos u..<pos u']
      | Inr u' \<Rightarrow> pos u' = pos u)"

lemma read_ok_simps [simp]:
  "read_ok str pos len u (Inl (n, buf, u')) \<longleftrightarrow>
     0 < n \<and> n \<le> len \<and> length buf = len \<and> pos u' = pos u + n \<and> take n buf = map str [pos u..<pos u']"
  "read_ok str pos len u (Inr u') \<longleftrightarrow> pos u' = pos u"
  by (simp_all add: read_ok_def)

lemma read_ok_start: "pos v = pos u \<Longrightarrow> read_ok str pos len v r = read_ok str pos len u r"
  by (cases r) (auto simp: read_ok_def)

lemma uart_poll_ok:
  assumes "uart_ok U str pos sent"
  shows "read_ok str pos (length buf) u (uart_poll U u buf)"
proof -
  obtain r u' where r: "read_buffered U u (length buf) = (r, u')" by fastforce
  show ?thesis
  proof (cases r)
    case (Inl e)
    with r assms show ?thesis by (auto simp: uart_poll_def uart_ok_def)
  next
    case (Inr bs)
    have "length bs \<le> length buf \<and> bs = map str [pos u..<pos u + length bs] \<and> pos u' = pos u + length bs"
      using assms r Inr unfolding uart_ok_def by blast
    with r Inr show ?thesis by (auto simp: uart_poll_def)
  qed
qed

lemma uart_select_ok:
  assumes "uart_ok U str pos sent"
  shows "read_ok str pos (length buf) u (uart_select U k asleep u buf)"
proof -
  have sleep: "pos (sleep_1ms U v) = pos v" for v using assms by (simp add: uart_ok_def)
  note poll = uart_poll_ok [OF assms, where buf = buf]
  show ?thesis
  proof (induction k arbitrary: u)
    case 0
    show ?case using poll [of u] by (cases "uart_poll U u buf") (simp_all add: sleep)
  next
    case (Suc k)
    show ?case
    proof (cases "uart_poll U u buf")
      case (Inl r)
      with poll [of u] show ?thesis by simp
    next
      case (Inr u')
      with poll [of u] have "pos (sleep_1ms U u') = pos u" by (simp add: sleep)
      with Suc.IH [of "sleep_1ms U u'"] Inr show ?thesis by (simp add: read_ok_start [of pos "sleep_1ms U u'" u])
    qed
  qed
qed

text \<open>A read that completes is a \<^verbatim>\<open>select\<close> that found bytes after enough polls.\<close>

lemma uart_read_select:
  assumes "uart_read U u buf = Some r"
  shows "\<exists>k. uart_select U k False u buf = Inl r"
proof (rule uart_read.raw_induct [OF _ assms, of "\<lambda>U u buf r. \<exists>k. uart_select U k False u buf = Inl r"])
  fix rd U u buf y
  assume IH: "\<And>U u buf y. rd U u buf = Some y \<Longrightarrow> \<exists>k. uart_select U k False u buf = Inl y"
    and body: "(case read_buffered U u (length buf) of
        (Inl e, u') \<Rightarrow> rd U (sleep_1ms U u') buf
      | (Inr bs, u') \<Rightarrow> if 0 < length bs then Some (length bs, bs @ drop (length bs) buf, u')
          else rd U (sleep_1ms U u') buf) = Some y"
  have body': "(case uart_poll U u buf of Inl r \<Rightarrow> Some r | Inr u' \<Rightarrow> rd U (sleep_1ms U u') buf) = Some y"
    using body by (auto simp: uart_poll_def split: prod.splits sum.splits)
  show "\<exists>k. uart_select U k False u buf = Inl y"
  proof (cases "uart_poll U u buf")
    case (Inl r)
    then show ?thesis using body' by (intro exI [of _ 0]) simp
  next
    case (Inr u')
    with body' have "rd U (sleep_1ms U u') buf = Some y" by simp
    from IH [OF this] obtain k where "uart_select U k False (sleep_1ms U u') buf = Inl y" by blast
    with Inr show ?thesis by (intro exI [of _ "Suc k"]) simp
  qed
qed

lemma uart_read_ok:
  assumes "uart_ok U str pos sent" "uart_read U u buf = Some (n, buf', u')"
  shows "0 < n \<and> n \<le> length buf \<and> length buf' = length buf \<and> pos u' = pos u + n \<and> take n buf' = map str [pos u..<pos u']"
proof -
  obtain k where "uart_select U k False u buf = Inl (n, buf', u')" using uart_read_select [OF assms(2)] by blast
  with uart_select_ok [OF assms(1), where k = k and asleep = False and u = u and buf = buf] show ?thesis by simp
qed

text \<open>One \<^verbatim>\<open>select\<close>: the bytes handed out are the bytes of the act, and a dropped read took none.\<close>

lemma uart_act_ok:
  assumes "uart_ok U str pos sent" "uart_act U a u buf = Some (act, buf', u')"
  shows "act \<noteq> Stop \<and> pos u \<le> pos u' \<and> act_bytes act = map str [pos u..<pos u'] \<and> length buf' = length buf \<and>
     length (act_bytes act) \<le> length buf \<and> (\<forall>f. act = Frame f \<longrightarrow> f \<in> set (arrival_frames a))"
proof (cases a)
  case NoFrame
  then obtain n where "uart_read U u buf = Some (n, buf', u')" "act = (if n = 0 then Stop else Bytes (take n buf'))"
    using assms(2) by (auto simp: uart_act_def split: Option.bind_splits)
  with uart_read_ok [OF assms(1) this(1)] show ?thesis by (auto simp del: upt_Suc)
next
  case (FrameAt k asleep f)
  with assms(2) uart_select_ok [OF assms(1), where k = k and asleep = asleep and u = u and buf = buf] show ?thesis
    by (cases "uart_select U k asleep u buf") (auto simp: uart_act_def)
qed

lemma map_upt_split: "a \<le> b \<Longrightarrow> b \<le> c \<Longrightarrow> map g [a..<b] @ map g [b..<c] = map g [a..<(c::nat)]"
  by (metis le_iff_add map_append upt_add_eq_append)

lemma uart_acts_ok:
  assumes "uart_ok U str pos sent" "uart_acts U as u buf = Some (acts, buf', u')"
  shows "Stop \<notin> set acts \<and> pos u \<le> pos u' \<and> concat (map act_bytes acts) = map str [pos u..<pos u'] \<and>
     (\<forall>f. Frame f \<in> set acts \<longrightarrow> f \<in> set (concat (map arrival_frames as)))"
  using assms(2)
proof (induction as arbitrary: u buf acts)
  case (Cons a as)
  obtain act buf1 u1 acts1 where one: "uart_act U a u buf = Some (act, buf1, u1)"
    and rest: "uart_acts U as u1 buf1 = Some (acts1, buf', u')" "acts = act # acts1"
    using Cons.prems by (auto split: Option.bind_splits)
  have a: "act \<noteq> Stop" "pos u \<le> pos u1" "act_bytes act = map str [pos u..<pos u1]"
    "\<forall>f. act = Frame f \<longrightarrow> f \<in> set (arrival_frames a)"
    using uart_act_ok [OF assms(1) one] by blast+
  have b: "Stop \<notin> set acts1" "pos u1 \<le> pos u'" "concat (map act_bytes acts1) = map str [pos u1..<pos u']"
    "\<forall>f. Frame f \<in> set acts1 \<longrightarrow> f \<in> set (concat (map arrival_frames as))"
    using Cons.IH [OF rest(1)] by blast+
  have "concat (map act_bytes acts) = map str [pos u..<pos u']"
    using a(2,3) b(2,3) map_upt_split [of "pos u" "pos u1" "pos u'" str] by (simp add: rest(2))
  moreover have "\<forall>f. Frame f \<in> set acts \<longrightarrow> f \<in> set (concat (map arrival_frames (a # as)))"
    using a(4) b(4) by (auto simp: rest(2))
  ultimately show ?case using a(1,2) b(1,2) by (simp add: rest(2))
qed simp

text \<open>With a frame due, a \<^verbatim>\<open>select\<close> returns also on a silent link.\<close>

lemma uart_act_frame_returns: "uart_act U (FrameAt k asleep f) u buf \<noteq> None"
  by (auto simp: uart_act_def split: sum.splits)

subsection \<open>Writing\<close>

lemma uart_ok_tx:
  assumes "uart_ok U str pos sent"
  shows "bs \<noteq> [] \<Longrightarrow> \<exists>n w'. uart_tx_write U w bs = (Inr n, w') \<and> 0 < n \<and> n \<le> length bs \<and> sent w' = sent w @ take n bs"
  using assms by (simp add: uart_ok_def)

lemma uart_write_all:
  assumes "uart_ok U str pos sent" "write_all_ok WA"
  shows "\<exists>w'. WA (uart_write U) bs w = Some w' \<and> sent w' = sent w @ bs"
proof (induction bs arbitrary: w rule: length_induct)
  case (1 bs)
  show ?case
  proof (cases "bs = []")
    case True
    then show ?thesis using assms(2) by (simp add: write_all_ok_def)
  next
    case False
    then obtain n w1 where w1: "uart_tx_write U w bs = (Inr n, w1)" "0 < n" "n \<le> length bs" "sent w1 = sent w @ take n bs"
      using uart_ok_tx [OF assms(1), of bs w] by blast
    then have "uart_write U bs w = (n, w1)" by (simp add: uart_write_def)
    then have step: "WA (uart_write U) bs w = WA (uart_write U) (drop n bs) w1"
      using assms(2) False w1(2,3) by (simp add: write_all_ok_def)
    have "length (drop n bs) < length bs" using w1(2) False by simp
    then obtain w' where "WA (uart_write U) (drop n bs) w1 = Some w'" "sent w' = sent w1 @ drop n bs"
      using 1 by blast
    with step w1(4) show ?thesis by simp
  qed
qed

lemma uart_ops_sent:
  assumes "uart_ok U str pos sent" "write_all_ok WA"
  shows "\<exists>w'. uart_ops U WA ops w = Some w' \<and> sent w' = sent w @ written ops"
proof (induction ops arbitrary: w)
  case (Cons op ops)
  show ?case
  proof (cases op)
    case (WriteAll bs)
    obtain w1 where w1: "WA (uart_write U) bs w = Some w1" "sent w1 = sent w @ bs"
      using uart_write_all [OF assms] by blast
    obtain w' where "uart_ops U WA ops w1 = Some w'" "sent w' = sent w1 @ written ops" using Cons.IH by blast
    with w1 WriteAll show ?thesis by simp
  next
    case FlushConn
    moreover have "sent (uart_flush U w) = sent w" using assms(1) by (simp add: uart_flush_def uart_ok_def)
    ultimately show ?thesis using Cons.IH [of "uart_flush U w"] by simp
  qed
qed simp

subsection \<open>Frames in between\<close>

text \<open>What a byte does to the port and to the channel does not depend on the counters.\<close>

lemma transmit_any_counters:
  assumes "transmit H f m c = Some (ok, m', c')"
  shows "\<exists>d'. transmit H f m d = Some (ok, m', d')"
proof (cases "twai m")
  case None
  with assms show ?thesis by (simp add: transmit_def)
next
  case (Some tw)
  then obtain esp where "to_esp H f = Some esp" using assms by (cases "to_esp H f") (simp_all add: transmit_def)
  with Some assms show ?thesis by (cases esp) (simp_all add: transmit_def split_beta)
qed

definition same_effect ::
  "(bool \<times> bool \<times> 't bridge \<times> conn_op list) run \<Rightarrow> (bool \<times> bool \<times> 't bridge \<times> conn_op list) run \<Rightarrow> bool" where
  "same_effect r r' \<longleftrightarrow> (\<forall>op ts b ops. r = Some (op, ts, b, ops) \<longrightarrow> (\<exists>d. r' = Some (op, ts, d, ops) \<and> CAN d = CAN b))"

lemma same_effect_simps [simp]:
  "same_effect (Some (op, ts, b, ops)) (Some (op', ts', d, ops')) \<longleftrightarrow> op' = op \<and> ts' = ts \<and> ops' = ops \<and> CAN d = CAN b"
  "same_effect None r"
  by (auto simp: same_effect_def)

lemma same_effect_if:
  "(c \<Longrightarrow> same_effect r r') \<Longrightarrow> (\<not> c \<Longrightarrow> same_effect s s') \<Longrightarrow> same_effect (if c then r else s) (if c then r' else s')"
  by simp

lemma dispatch_tx_any_counters [simp]:
  assumes "CAN d = CAN b"
  shows "same_effect (dispatch_tx H line cmd iface op ts b) (dispatch_tx H line cmd iface op ts d)"
proof (cases "parse_tx line")
  case None
  then show ?thesis by (simp add: dispatch_tx_def)
next
  case (Some fr)
  show ?thesis
  proof (cases fr)
    case None
    with Some assms show ?thesis by (simp add: dispatch_tx_def Let_def)
  next
    case f: (Some f)
    show ?thesis
    proof (cases "transmit H f (CAN b) (count_in iface (cnt b))")
      case None
      with Some f assms show ?thesis by (simp add: dispatch_tx_def Let_def)
    next
      case tx: (Some r)
      obtain ok m c where "r = (ok, m, c)" by (cases r)
      moreover from this obtain c' where "transmit H f (CAN b) (count_in iface (cnt d)) = Some (ok, m, c')"
        using tx transmit_any_counters by blast
      ultimately show ?thesis using Some f assms tx by (simp add: dispatch_tx_def Let_def)
    qed
  qed
qed

lemma dispatch_any_counters:
  assumes "CAN d = CAN b"
  shows "same_effect (dispatch H line iface op ts b) (dispatch H line iface op ts d)"
proof (cases "idx line 0")
  case None
  then show ?thesis by (simp add: dispatch_def)
next
  case (Some cmd)
  show ?thesis
    unfolding dispatch_def Some Option.bind.bind_lunit
    by (intro same_effect_if) (use assms in \<open>simp_all add: Let_def split_beta split: option.split\<close>)
qed

lemma feed_any_counters:
  assumes "feed H iface x p b = Some (p', b', ops, w)" "CAN d = CAN b"
  shows "\<exists>d'. feed H iface x p d = Some (p', d', ops, w) \<and> CAN d' = CAN b'"
proof (cases "x = CR \<and> 0 < p_len p")
  case True
  then obtain l op ts where l: "slice (p_line p) 0 (p_len p) = Some l"
    and r: "dispatch H l iface (p_open p) (p_timestamp p) b = Some (op, ts, b', ops)"
      "p' = p\<lparr>p_open := op, p_timestamp := ts, p_len := 0\<rparr>" "w"
    using assms(1) by (auto simp: feed_def split: Option.bind_splits)
  obtain d' where "dispatch H l iface (p_open p) (p_timestamp p) d = Some (op, ts, d', ops)" "CAN d' = CAN b'"
    using dispatch_any_counters [OF assms(2)] r(1) unfolding same_effect_def by blast
  with True l r(2,3) show ?thesis by (simp add: feed_def)
next
  case False
  with assms show ?thesis by (auto simp: feed_def split: if_splits Option.bind_splits)
qed

lemma feed_all_any_counters:
  assumes "feed_all H iface xs p b = Some (p', b', ops, w)" "CAN d = CAN b"
  shows "\<exists>d'. feed_all H iface xs p d = Some (p', d', ops, w) \<and> CAN d' = CAN b'"
  using assms
proof (induction xs arbitrary: p b d ops w)
  case (Cons x xs)
  obtain p1 b1 ops1 w1 where one: "feed H iface x p b = Some (p1, b1, ops1, w1)"
    using Cons.prems(1) by (cases "feed H iface x p b") auto
  then obtain ops2 w2 where rest: "feed_all H iface xs p1 b1 = Some (p', b', ops2, w2)" "ops = ops1 @ ops2" "w = (w1 \<or> w2)"
    using Cons.prems(1) by (cases "feed_all H iface xs p1 b1") auto
  obtain d1 where d1: "feed H iface x p d = Some (p1, d1, ops1, w1)" "CAN d1 = CAN b1"
    using feed_any_counters [OF one Cons.prems(2)] by blast
  from Cons.IH [OF rest(1) d1(2)] d1(1) rest(2,3) show ?case by auto
qed simp

fun rounds_bytes :: "(nat \<times> Act) list \<Rightarrow> bytes" where
  "rounds_bytes [] = []"
| "rounds_bytes ((ms, act) # evs) = act_bytes act @ rounds_bytes evs"

lemma rounds_bytes_zip: "length ts = length acts \<Longrightarrow> rounds_bytes (zip ts acts) = concat (map act_bytes acts)"
  by (induction ts acts rule: list_induct2) simp_all

lemma port_loop_transparent:
  assumes "port_wf p" "CAN d = CAN b" "list_all (\<lambda>act. act \<noteq> Stop \<and> (\<forall>f. act = Frame f \<longrightarrow> wf_frame f)) (map snd evs)"
  shows "\<exists>p' b' ops d' ops' w. port_loop H iface evs p b = Some (p', b', ops, False) \<and>
     feed_all H iface (rounds_bytes evs) p d = Some (p', d', ops', w) \<and>
     CAN d' = CAN b' \<and> subseq ops' ops"
  using assms
proof (induction evs arbitrary: p b d)
  case (Cons ev evs)
  obtain ms act where ev: "ev = (ms, act)" by (cases ev)
  have later: "list_all (\<lambda>act. act \<noteq> Stop \<and> (\<forall>f. act = Frame f \<longrightarrow> wf_frame f)) (map snd evs)"
    using Cons.prems(3) by simp
  show ?case
  proof (cases act)
    case (Bytes bs)
    obtain p1 b1 ops1 w1 where one: "feed_all H iface bs p b = Some (p1, b1, ops1, w1)" "port_wf p1"
      using feed_all_result [OF Cons.prems(1), of H iface bs b 0] by blast
    obtain d1 where d1: "feed_all H iface bs p d = Some (p1, d1, ops1, w1)" "CAN d1 = CAN b1"
      using feed_all_any_counters [OF one(1) Cons.prems(2)] by blast
    obtain p' b' ops d' ops' w where rest: "port_loop H iface evs p1 b1 = Some (p', b', ops, False)"
      "feed_all H iface (rounds_bytes evs) p1 d1 = Some (p', d', ops', w)" "CAN d' = CAN b'" "subseq ops' ops"
      using Cons.IH [OF one(2) d1(2) later] by blast
    have "subseq (ops1 @ ops') (ops1 @ (if w1 then [FlushConn] else []) @ ops)"
      using rest(4) by (simp add: subseq_append' subseq_drop_many)
    then show ?thesis using one(1) d1(1) rest by (auto simp: ev Bytes port_round_def feed_all_append)
  next
    case (Frame f)
    then have wf: "wf_frame f" using Cons.prems(3) by (simp add: ev)
    obtain b1 ops1 where one: "port_round H iface ms (Frame f) p b = Some (p, b1, ops1)" "CAN b1 = CAN b"
      using port_round_frame [OF wf, of H iface ms p b] by (cases "p_open p") auto
    have d1: "CAN d = CAN b1" using one(2) Cons.prems(2) by simp
    obtain p' b' ops d' ops' w where rest: "port_loop H iface evs p b1 = Some (p', b', ops, False)"
      "feed_all H iface (rounds_bytes evs) p d = Some (p', d', ops', w)" "CAN d' = CAN b'" "subseq ops' ops"
      using Cons.IH [OF Cons.prems(1) d1 later] by blast
    then show ?thesis using one(1) by (auto simp: ev Frame subseq_drop_many)
  next
    case Stop
    then show ?thesis using Cons.prems(3) by (simp add: ev)
  qed
qed auto

subsection \<open>The task\<close>

definition uart_port ::
  "('t, 'f) twai_hal \<Rightarrow> ('u, 'w) uart_hal \<Rightarrow> 'w write_all_fn \<Rightarrow> (nat \<times> arrival) list \<Rightarrow> 't bridge \<Rightarrow> 'u \<Rightarrow> 'w
   \<Rightarrow> (port \<times> 't bridge \<times> conn_op list \<times> bool \<times> 'u \<times> 'w) option" where
  "uart_port H U WA evs b u w =
     do { (acts, rxbuf, u') \<leftarrow> uart_acts U (map snd evs) u (replicate 64 0);
          (p, b', ops, stopped) \<leftarrow> port_loop H Serial (zip (map fst evs) acts) port_init b;
          w' \<leftarrow> uart_ops U WA ops w;
          Some (p, b', ops, stopped, u', w') }"

lemma uart_acts_length: "uart_acts U as u buf = Some (acts, buf', u') \<Longrightarrow> length acts = length as"
  by (induction as arbitrary: u buf acts) (auto split: Option.bind_splits)

text \<open>
  C12.  The serial port loses nothing and never ends.  For every receiver that hands out a byte stream
  and every transmitter that takes what it is given: whatever frames arrive, also while a read is
  waiting, which drops that read, and however the polls cut the stream, the task never sees an end of
  the link and never panics; every byte the receiver handed out has been fed to the port exactly once
  and in order, so that its state and the channel are what feeding the stream in one piece gives, with
  the same replies in the same order; and the transmitter has taken exactly what the port wrote.
\<close>

theorem uart_port_lossless:
  assumes "uart_ok U str pos sent" "write_all_ok WA" "list_all wf_frame (concat (map (arrival_frames \<circ> snd) evs))"
    "uart_acts U (map snd evs) u (replicate 64 0) = Some (acts, rxbuf, u')"
  shows "\<exists>p b' ops w'. uart_port H U WA evs b u w = Some (p, b', ops, False, u', w') \<and>
     sent w' = sent w @ written ops \<and>
     (\<exists>d ops' wr. feed_all H Serial (map str [pos u..<pos u']) port_init b = Some (p, d, ops', wr) \<and>
        CAN d = CAN b' \<and> subseq ops' ops)"
proof -
  let ?rounds = "zip (map fst evs) acts"
  have len: "length (map fst evs) = length acts" using uart_acts_length [OF assms(4)] by simp
  have acts: "Stop \<notin> set acts" "concat (map act_bytes acts) = map str [pos u..<pos u']"
    "\<forall>f. Frame f \<in> set acts \<longrightarrow> wf_frame f"
    using uart_acts_ok [OF assms(1,4)] assms(3) by (auto simp: list_all_iff)
  have "map snd ?rounds = acts" using len by simp
  then have "list_all (\<lambda>act. act \<noteq> Stop \<and> (\<forall>f. act = Frame f \<longrightarrow> wf_frame f)) (map snd ?rounds)"
    using acts(1,3) by (auto simp: list_all_iff)
  from port_loop_transparent [OF port_wf_init refl this, of H Serial b]
  obtain p b' ops d ops' wr where loop: "port_loop H Serial ?rounds port_init b = Some (p, b', ops, False)"
    "feed_all H Serial (map str [pos u..<pos u']) port_init b = Some (p, d, ops', wr)" "CAN d = CAN b'" "subseq ops' ops"
    using rounds_bytes_zip [OF len] acts(2) by auto
  obtain w' where "uart_ops U WA ops w = Some w'" "sent w' = sent w @ written ops"
    using uart_ops_sent [OF assms(1,2)] by blast
  with loop assms(4) show ?thesis by (auto simp: uart_port_def)
qed

text \<open>A receiver of a given text, a transmitter that takes two bytes at a time, and a \<^verbatim>\<open>write_all\<close>.\<close>

definition text_uart :: "bytes \<Rightarrow> (nat, bytes) uart_hal" where
  "text_uart xs = \<lparr>read_buffered = (\<lambda>u n. (Inr (take n (drop u xs)), u + length (take n (drop u xs)))),
     sleep_1ms = (\<lambda>u. u), uart_tx_write = (\<lambda>w bs. (Inr (min 2 (length bs)), w @ take (min 2 (length bs)) bs)),
     uart_tx_flush = (\<lambda>w. (Inr (), w))\<rparr>"

definition text_stream :: "bytes \<Rightarrow> nat \<Rightarrow> u8" where
  "text_stream xs i = (if i < length xs then xs ! i else 0)"

function demo_write_all :: "'w write_all_fn" where
  "demo_write_all wr bs w =
     (if bs = [] then Some w
      else case wr bs w of (n, w') \<Rightarrow> if 0 < n \<and> n \<le> length bs then demo_write_all wr (drop n bs) w' else None)"
  by pat_completeness auto
termination by (relation "measure (\<lambda>(wr, bs, w). length bs)") auto

declare demo_write_all.simps [simp del]

lemma demo_write_all_ok: "write_all_ok demo_write_all"
  by (auto simp: write_all_ok_def demo_write_all.simps)

lemma text_uart_ok: "uart_ok (text_uart xs) (text_stream xs) (\<lambda>u. u) (\<lambda>w. w)"
proof -
  have "take n (drop u xs) = map (text_stream xs) [u..<u + length (take n (drop u xs))]" for u n
    by (rule nth_equalityI) (auto simp: text_stream_def)
  then show ?thesis by (auto simp: uart_ok_def text_uart_def)
qed

theorem uart_port_lossless_witness:
  "\<exists>p b' ops w'. uart_port loopback_hal (text_uart [86, 13]) demo_write_all
       [(0, NoFrame), (5, FrameAt 1 True CanFrame_default)]
       \<lparr>CAN = CanManager_new, cnt = counters_init\<rparr> 0 [] = Some (p, b', ops, False, 2, w') \<and>
     w' = written ops \<and>
     (\<exists>d ops' wr. feed_all loopback_hal Serial [86, 13] port_init \<lparr>CAN = CanManager_new, cnt = counters_init\<rparr> = Some (p, d, ops', wr) \<and>
        CAN d = CAN b' \<and> subseq ops' ops)"
proof -
  let ?U = "text_uart [86, 13]" and ?evs = "[(0, NoFrame), (5, FrameAt 1 True CanFrame_default)]"
  have "uart_read ?U 0 (replicate 64 0) = Some (2, [86, 13] @ drop 2 (replicate 64 0), 2)"
    by (subst uart_read.simps) (simp add: text_uart_def)
  then have "uart_acts ?U (map snd ?evs) 0 (replicate 64 0) =
      Some ([Bytes [86, 13], Frame CanFrame_default], [86, 13] @ drop 2 (replicate 64 0), 2)"
    by (simp add: uart_act_def uart_poll_def text_uart_def)
  moreover have "list_all wf_frame (concat (map (arrival_frames \<circ> snd) ?evs))"
    by (simp add: wf_frame_def CanFrame_default_def)
  moreover have "map (text_stream [86, 13]) [0..<2] = [86, 13]" by (simp add: text_stream_def numeral_2_eq_2)
  ultimately show ?thesis
    using uart_port_lossless [OF text_uart_ok demo_write_all_ok, of ?evs "[86, 13]" 0 _ _ 2 loopback_hal
        "\<lparr>CAN = CanManager_new, cnt = counters_init\<rparr>" "[]"] by simp
qed

end
