(* ===== verification/Led.thy ===== *)
theory Led
  imports Bridge_Prelude
begin

text \<open>
  The activity LED: brightness mapping and WS2812B pulse train of \<^verbatim>\<open>src/led.rs\<close>, and the 100 ms tick
  at the end of \<^verbatim>\<open>main\<close> in \<^verbatim>\<open>src/main.rs\<close>, which keeps a ring of ten counter differences.

  The RMT peripheral driver of esp-hal is the record \<open>rmt_hal\<close> of functions.
\<close>

section \<open>Model\<close>

definition FRAMES_FOR_FULL :: u32 where "FRAMES_FOR_FULL = 50"
definition MAX_LEVEL :: u8 where "MAX_LEVEL = 64"
definition MIN_LEVEL :: u8 where "MIN_LEVEL = 4"

text \<open>\<^verbatim>\<open>u32::saturating_mul\<close>.\<close>

definition saturating_mul :: "u32 \<Rightarrow> u32 \<Rightarrow> u32" where
  "saturating_mul a b = of_nat (min (unat a * unat b) (2 ^ 32 - 1))"

definition level_from_count :: "u32 \<Rightarrow> u8" where
  "level_from_count count =
     (if count = 0 then 0
      else let span = ucast (MAX_LEVEL - MIN_LEVEL);
               extra = saturating_mul count span div FRAMES_FOR_FULL
           in ucast (min (ucast MIN_LEVEL + extra) (ucast MAX_LEVEL)))"

definition T0H :: u16 where "T0H = 32"
definition T0L :: u16 where "T0L = 68"
definition T1H :: u16 where "T1H = 64"
definition T1L :: u16 where "T1L = 36"

definition LED_LEN :: nat where "LED_LEN = 25"

datatype pin_level = High | Low

text \<open>\<open>'p\<close> is a \<^verbatim>\<open>PulseCode\<close>, \<open>'c\<close> an idle channel, \<open>'x\<close> a transmission under way.\<close>

record ('p, 'c, 'x) rmt_hal =
  PulseCode_new :: "pin_level \<Rightarrow> u16 \<Rightarrow> pin_level \<Rightarrow> u16 \<Rightarrow> 'p"
  PulseCode_end_marker :: 'p
  rmt_transmit :: "'c \<Rightarrow> 'p list \<Rightarrow> 'c + 'x"
  rmt_wait :: "'x \<Rightarrow> bool \<times> 'c"

definition pulse_bit :: "('p, 'c, 'x) rmt_hal \<Rightarrow> u8 \<Rightarrow> nat \<Rightarrow> 'p" where
  "pulse_bit R byte b =
     (if drop_bit b byte AND 1 \<noteq> 0 then PulseCode_new R High T1H Low T1L
      else PulseCode_new R High T0H Low T0L)"

text \<open>The inner loop over the bits of one byte and the outer loop over the bytes; \<open>i\<close> is the cursor.\<close>

fun pulse_byte :: "('p, 'c, 'x) rmt_hal \<Rightarrow> u8 \<Rightarrow> nat list \<Rightarrow> 'p list \<times> nat \<Rightarrow> ('p list \<times> nat) run" where
  "pulse_byte R byte [] st = Some st"
| "pulse_byte R byte (b # bs) (data, i) =
     do { data \<leftarrow> upd data i (pulse_bit R byte b); pulse_byte R byte bs (data, i + 1) }"

fun pulse_bytes :: "('p, 'c, 'x) rmt_hal \<Rightarrow> bytes \<Rightarrow> 'p list \<times> nat \<Rightarrow> ('p list \<times> nat) run" where
  "pulse_bytes R [] st = Some st"
| "pulse_bytes R (byte # bytes) st =
     do { st \<leftarrow> pulse_byte R byte (rev [0..<8]) st; pulse_bytes R bytes st }"

definition led_data :: "('p, 'c, 'x) rmt_hal \<Rightarrow> u8 \<Rightarrow> u8 \<Rightarrow> u8 \<Rightarrow> 'p list run" where
  "led_data R r g b =
     do { (data, i) \<leftarrow> pulse_bytes R [g, r, b] (replicate LED_LEN (PulseCode_end_marker R), 0);
          Some data }"

text \<open>\<^verbatim>\<open>ActivityLed\<close> holds an optional channel; it is taken for the time of the transmission.\<close>

definition ActivityLed_new :: "'c \<Rightarrow> 'c option" where
  "ActivityLed_new ch = Some ch"

definition set_rgb :: "('p, 'c, 'x) rmt_hal \<Rightarrow> u8 \<Rightarrow> u8 \<Rightarrow> u8 \<Rightarrow> 'c option \<Rightarrow> 'c option run" where
  "set_rgb R r g b led =
     (case led of
        None \<Rightarrow> Some None
      | Some ch \<Rightarrow>
          do { data \<leftarrow> led_data R r g b;
               Some (Some (case rmt_transmit R ch data of
                             Inr txn \<Rightarrow> (case rmt_wait R txn of (ok, c) \<Rightarrow> c)
                           | Inl c \<Rightarrow> c)) })"

text \<open>The tick of \<^verbatim>\<open>main\<close>: what it reads, what it keeps.  A \<^verbatim>\<open>u32\<close> sum wraps in the release profile.\<close>

definition LED_BUCKETS :: nat where "LED_BUCKETS = 10"
definition STATUS_BLUE :: u8 where "STATUS_BLUE = 10"

record led_input =
  in_rx :: u32
  in_tx :: u32
  in_clients :: u32
  in_config_mode :: bool
  in_wifi_connected :: bool

record led_window =
  rx_buckets :: "u32 list"
  tx_buckets :: "u32 list"
  bucket :: nat
  last_rx :: u32
  last_tx :: u32

definition led_window_init :: led_window where
  "led_window_init = \<lparr>rx_buckets = replicate LED_BUCKETS 0, tx_buckets = replicate LED_BUCKETS 0,
     bucket = 0, last_rx = 0, last_tx = 0\<rparr>"

definition status_blue :: "led_input \<Rightarrow> nat \<Rightarrow> u8" where
  "status_blue inp i =
     (let tcp_connected = 0 < in_clients inp;
          wifi_ready = in_config_mode inp \<or> in_wifi_connected inp
      in if tcp_connected then (if i = 0 then 0 else STATUS_BLUE)
         else if wifi_ready then (if i = 0 then STATUS_BLUE else 0)
         else 0)"

text \<open>The result is the colour handed to \<^verbatim>\<open>set_rgb\<close> and the window.\<close>

definition led_tick :: "led_input \<Rightarrow> led_window \<Rightarrow> ((u8 \<times> u8 \<times> u8) \<times> led_window) run" where
  "led_tick inp w =
     do { rb \<leftarrow> upd (rx_buckets w) (bucket w) (in_rx inp - last_rx w);
          tb \<leftarrow> upd (tx_buckets w) (bucket w) (in_tx inp - last_tx w);
          let g = level_from_count (sum_list rb);
              r = level_from_count (sum_list tb);
              b = status_blue inp (bucket w)
          in Some ((r, g, b),
               w\<lparr>rx_buckets := rb, tx_buckets := tb, last_rx := in_rx inp, last_tx := in_tx inp,
                 bucket := (bucket w + 1) mod LED_BUCKETS\<rparr>) }"

fun led_ticks :: "led_input list \<Rightarrow> led_window \<Rightarrow> ((u8 \<times> u8 \<times> u8) list \<times> led_window) run" where
  "led_ticks [] w = Some ([], w)"
| "led_ticks (inp # inps) w =
     do { (col, w) \<leftarrow> led_tick inp w; (cols, w) \<leftarrow> led_ticks inps w; Some (col # cols, w) }"

section \<open>Brightness\<close>

lemma unat_saturating_mul: "unat (saturating_mul a b) = min (unat a * unat b) (2 ^ 32 - 1)"
  by (simp add: saturating_mul_def unsigned_of_nat take_bit_nat_eq_self min_def)

text \<open>The level as a number: four plus 60 per 50 frames, capped at 64.\<close>

lemma unat_level_from_count:
  "unat (level_from_count n) = (if n = 0 then 0 else min (4 + unat n * 60 div 50) 64)"
proof (cases "n = 0")
  case False
  let ?e = "saturating_mul n 60 div FRAMES_FOR_FULL"
  have "unat (60 :: u32) = 60" "unat (50 :: u32) = 50" by simp_all
  then have e: "unat ?e = min (unat n * 60) (2 ^ 32 - 1) div 50"
    by (simp only: unat_div FRAMES_FOR_FULL_def unat_saturating_mul)
  moreover have "min (unat n * 60) (2 ^ 32 - 1) div 50 \<le> (2 ^ 32 - 1) div 50"
    by (rule div_le_mono) simp
  ultimately have small: "unat ?e \<le> 85899345" by simp
  then have "unat (4 + ?e) = 4 + unat ?e"
    by (subst unat_word_ariths(1)) simp
  then have le: "4 + ?e \<le> 64 \<longleftrightarrow> unat ?e \<le> 60" by (simp add: word_le_nat_alt)
  have level: "unat (level_from_count n) = min (4 + unat ?e) 64"
  proof (cases "unat ?e \<le> 60")
    case True
    then have "unat (ucast (4 + ?e) :: u8) = 4 + unat ?e"
      using \<open>unat (4 + ?e) = 4 + unat ?e\<close> by (simp add: unsigned_ucast_eq take_bit_nat_eq_self)
    then show ?thesis
      using False True le by (simp add: level_from_count_def MIN_LEVEL_def MAX_LEVEL_def min_def)
  next
    case False
    then show ?thesis
      using \<open>n \<noteq> 0\<close> le by (simp add: level_from_count_def MIN_LEVEL_def MAX_LEVEL_def min_def)
  qed
  have "min (4 + min x (2 ^ 32 - 1) div 50) 64 = min (4 + x div 50) (64 :: nat)" for x :: nat
  proof (cases "x \<le> 2 ^ 32 - 1")
    case False
    then have "60 \<le> x div 50" by (intro div_le_mono [of 3000 x 50, simplified]) simp
    with False show ?thesis by simp
  qed (simp add: min_def)
  then show ?thesis using False level e by simp
qed (simp add: level_from_count_def)

text \<open>
  Brightness follows the frame rate: no frame is dark, one frame is already visible (level 4 or
  more), more frames never give a darker LED, from 50 frames a second on the level is 64, and no
  count, however large, exceeds it; neither the product nor the sum overflows.
\<close>

lemma level_from_count_scale:
  "level_from_count 0 = 0 \<and> (n \<noteq> 0 \<longrightarrow> 4 \<le> level_from_count n) \<and> level_from_count n \<le> 64 \<and>
   (50 \<le> n \<longrightarrow> level_from_count n = 64) \<and> (n \<le> m \<longrightarrow> level_from_count n \<le> level_from_count m)"
proof -
  have "level_from_count n = 64" if "50 \<le> n"
  proof -
    have "50 \<le> unat n" using that by (simp add: word_le_nat_alt)
    then have "60 \<le> unat n * 60 div 50" by linarith
    moreover have "n \<noteq> 0" using that by auto
    ultimately have "unat (level_from_count n) = unat (64 :: u8)" by (simp add: unat_level_from_count)
    then show ?thesis by (simp only: word_unat_eq_iff)
  qed
  moreover have "level_from_count n \<le> level_from_count m" if "n \<le> m"
  proof -
    have "unat n \<le> unat m" using that by (simp add: word_le_nat_alt)
    then have "unat n * 60 div 50 \<le> unat m * 60 div 50" by (intro div_le_mono) simp
    moreover have "m = 0 \<Longrightarrow> n = 0" using \<open>unat n \<le> unat m\<close> by (simp add: unat_eq_zero)
    ultimately show ?thesis by (auto simp: word_le_nat_alt unat_level_from_count)
  qed
  moreover have "4 \<le> level_from_count n" if "n \<noteq> 0"
    using that by (simp add: word_le_nat_alt unat_level_from_count)
  moreover have "level_from_count n \<le> 64" by (simp add: word_le_nat_alt unat_level_from_count)
  moreover have "level_from_count 0 = 0" by (simp add: level_from_count_def)
  ultimately show ?thesis by blast
qed

section \<open>The pulse train\<close>

lemma pulse_byte_writes:
  "length bs \<le> length junk \<Longrightarrow>
   pulse_byte R byte bs (pre @ junk, length pre) =
     Some (pre @ map (pulse_bit R byte) bs @ drop (length bs) junk, length pre + length bs)"
proof (induction bs arbitrary: pre junk)
  case (Cons b bs)
  then obtain j junk' where j: "junk = j # junk'" by (cases junk) auto
  with Cons Cons.IH [of junk' "pre @ [pulse_bit R byte b]"] show ?case
    by (simp add: upd_def)
qed simp

definition pulse_train :: "('p, 'c, 'x) rmt_hal \<Rightarrow> u8 \<Rightarrow> 'p list" where
  "pulse_train R byte = map (pulse_bit R byte) (rev [0..<8])"

lemma length_pulse_train [simp]: "length (pulse_train R byte) = 8"
  by (simp add: pulse_train_def)

lemma pulse_bytes_writes:
  "8 * length bs \<le> length junk \<Longrightarrow>
   pulse_bytes R bs (pre @ junk, length pre) =
     Some (pre @ concat (map (pulse_train R) bs) @ drop (8 * length bs) junk, length pre + 8 * length bs)"
proof (induction bs arbitrary: pre junk)
  case (Cons b bs)
  have "pulse_byte R b (rev [0..<8]) (pre @ junk, length pre) =
      Some ((pre @ pulse_train R b) @ drop 8 junk, length (pre @ pulse_train R b))"
    using pulse_byte_writes [of "rev [0..<8]" junk R b pre] Cons.prems by (simp add: pulse_train_def)
  with Cons.IH [of "drop 8 junk" "pre @ pulse_train R b"] Cons.prems show ?case
    by (simp add: algebra_simps)
qed simp

lemma led_data_eq:
  "led_data R r g b =
     Some (pulse_train R g @ pulse_train R r @ pulse_train R b @ [PulseCode_end_marker R])"
  using pulse_bytes_writes [of "[g, r, b]" "replicate LED_LEN (PulseCode_end_marker R)" R "[]"]
  by (simp add: led_data_def LED_LEN_def numeral_eq_Suc)

text \<open>What the LED reads: the value of a pulse sequence, most significant bit first.\<close>

definition decode_pulses :: "'p \<Rightarrow> 'p list \<Rightarrow> u8" where
  "decode_pulses one ps = foldl (\<lambda>a p. 2 * a + of_bool (p = one)) 0 ps"

lemma horner_bits:
  "foldl (\<lambda>a b. 2 * a + of_bool (bit (w :: u8) b)) (drop_bit n w) (rev [0..<n]) = w"
proof (induction n)
  case (Suc n)
  have "2 * drop_bit (Suc n) w + of_bool (bit w n) = drop_bit n w"
    using mult_div_mod_eq [of 2 "drop_bit n w"]
    by (simp only: drop_bit_Suc drop_bit_half bit_iff_odd_drop_bit mod_2_eq_odd)
  with Suc show ?case by simp
qed simp

lemma decode_pulse_train:
  assumes "PulseCode_new R High T1H Low T1L \<noteq> PulseCode_new R High T0H Low T0L"
  shows "decode_pulses (PulseCode_new R High T1H Low T1L) (pulse_train R byte) = byte"
proof -
  have "pulse_bit R byte b = PulseCode_new R High T1H Low T1L \<longleftrightarrow> bit byte b" for b
    using assms by (simp add: pulse_bit_def and_one_eq bit_iff_odd_drop_bit odd_iff_mod_2_eq_one)
  then have "decode_pulses (PulseCode_new R High T1H Low T1L) (pulse_train R byte) =
      foldl (\<lambda>a b. 2 * a + of_bool (bit byte b)) (drop_bit 8 byte) (rev [0..<8])"
    by (simp add: decode_pulses_def pulse_train_def foldl_map drop_bit_word_beyond)
  then show ?thesis by (simp only: horner_bits)
qed

text \<open>
  C37.  The pulses sent for a colour are the colour: whenever the two bit pulses can be told apart,
  the 24 pulses read back as green, red and blue in this order, each most significant bit first, the
  twenty-fifth is the end marker, and the channel is there again afterwards whether the transmission
  was refused, failed or succeeded.
\<close>

theorem set_rgb_sends_colour:
  assumes "PulseCode_new R High T1H Low T1L \<noteq> PulseCode_new R High T0H Low T0L"
  shows "\<exists>data. led_data R r g b = Some data \<and> length data = LED_LEN \<and>
     data ! 24 = PulseCode_end_marker R \<and>
     map (\<lambda>k. decode_pulses (PulseCode_new R High T1H Low T1L) (take 8 (drop (8 * k) data))) [0, 1, 2] =
       [g, r, b] \<and>
     (\<exists>c'. set_rgb R r g b (Some ch) = Some (Some c') \<and>
        (c' = (case rmt_transmit R ch data of Inl c \<Rightarrow> c | Inr txn \<Rightarrow> snd (rmt_wait R txn))))"
  using decode_pulse_train [OF assms]
  by (simp add: led_data_eq set_rgb_def LED_LEN_def nth_append prod.case_eq_if split: sum.split)

definition demo_rmt :: "(pin_level \<times> u16 \<times> pin_level \<times> u16, nat, nat) rmt_hal" where
  "demo_rmt = \<lparr>PulseCode_new = (\<lambda>l n l' n'. (l, n, l', n')), PulseCode_end_marker = (Low, 0, Low, 0),
     rmt_transmit = (\<lambda>c ps. if c = 0 then Inl 1 else Inr c), rmt_wait = (\<lambda>c. (True, c + 1))\<rparr>"

theorem set_rgb_sends_colour_witness:
  "\<exists>data. led_data demo_rmt 1 2 3 = Some data \<and> length data = LED_LEN \<and>
     data ! 24 = PulseCode_end_marker demo_rmt \<and>
     map (\<lambda>k. decode_pulses (PulseCode_new demo_rmt High T1H Low T1L) (take 8 (drop (8 * k) data))) [0, 1, 2] =
       [2, 1, 3] \<and>
     (\<exists>c'. set_rgb demo_rmt 1 2 3 (Some 7) = Some (Some c') \<and>
        (c' = (case rmt_transmit demo_rmt 7 data of Inl c \<Rightarrow> c | Inr txn \<Rightarrow> snd (rmt_wait demo_rmt txn))))"
  by (rule set_rgb_sends_colour) (simp add: demo_rmt_def T1H_def T0H_def)

section \<open>The sliding window\<close>

text \<open>The counter read at tick \<open>t\<close>, counted from one; before the first tick it is 0.\<close>

definition sample :: "u32 list \<Rightarrow> nat \<Rightarrow> u32" where
  "sample xs t = (if t = 0 then 0 else xs ! (t - 1))"

text \<open>
  One ring of differences: what \<open>n\<close> ticks have left in it.  Slot \<open>(n + k) mod 10\<close> holds the difference
  written \<open>10 - k\<close> ticks ago.
\<close>

definition ring_ok :: "(nat \<Rightarrow> u32) \<Rightarrow> nat \<Rightarrow> u32 list \<Rightarrow> u32 \<Rightarrow> bool" where
  "ring_ok c n ring l \<longleftrightarrow>
     length ring = 10 \<and> l = c n \<and> sum_list ring = c n - c (n - 10) \<and>
     (\<forall>k < 10. ring ! ((n + k) mod 10) = c (n + k - 9) - c (n + k - 10))"

lemma sum_list_update_word:
  "i < length xs \<Longrightarrow> sum_list (xs[i := v]) = sum_list xs - xs ! i + (v :: u32)"
proof (induction xs arbitrary: i)
  case (Cons x xs)
  then show ?case by (cases i) (simp_all add: algebra_simps)
qed simp

lemma ring_ok_init: "c 0 = 0 \<Longrightarrow> ring_ok c 0 (replicate 10 0) 0"
  by (auto simp: ring_ok_def sum_list_replicate)

lemma ring_ok_step:
  assumes "ring_ok c n ring l"
  shows "ring_ok c (Suc n) (ring[n mod 10 := c (Suc n) - l]) (c (Suc n))"
proof -
  have len: "length ring = 10" and l: "l = c n" using assms by (auto simp: ring_ok_def)
  have old: "ring ! (n mod 10) = c (n - 9) - c (n - 10)"
    using assms unfolding ring_ok_def by (metis add_0_right zero_less_numeral)
  have "sum_list (ring[n mod 10 := c (Suc n) - l]) = c (Suc n) - c (Suc n - 10)"
    using assms len l old by (simp add: sum_list_update_word ring_ok_def)
  moreover have "ring[n mod 10 := c (Suc n) - l] ! ((Suc n + k) mod 10) = c (Suc n + k - 9) - c (Suc n + k - 10)"
    if "k < 10" for k
  proof (cases "k = 9")
    case True
    then have "(Suc n + k) mod 10 = n mod 10" by simp
    then show ?thesis using True len l by simp
  next
    case False
    then have "Suc k < 10" using that by simp
    then have "\<not> 10 dvd Suc k" by (auto dest: dvd_imp_le)
    then have "(Suc n + k) mod 10 \<noteq> n mod 10" by (simp add: mod_eq_dvd_iff_nat)
    moreover have "ring ! ((n + Suc k) mod 10) = c (n + Suc k - 9) - c (n + Suc k - 10)"
      using assms \<open>Suc k < 10\<close> unfolding ring_ok_def by blast
    ultimately show ?thesis by simp
  qed
  ultimately show ?thesis using len by (simp add: ring_ok_def)
qed

definition window_ok :: "led_input list \<Rightarrow> nat \<Rightarrow> led_window \<Rightarrow> bool" where
  "window_ok inps n w \<longleftrightarrow> bucket w = n mod 10 \<and>
     ring_ok (sample (map in_rx inps)) n (rx_buckets w) (last_rx w) \<and>
     ring_ok (sample (map in_tx inps)) n (tx_buckets w) (last_tx w)"

text \<open>The colour of tick \<open>n\<close> (from 0) as the property states it.\<close>

definition tick_colour :: "led_input list \<Rightarrow> nat \<Rightarrow> u8 \<times> u8 \<times> u8" where
  "tick_colour inps n =
     (level_from_count (sample (map in_tx inps) (n + 1) - sample (map in_tx inps) (n - 9)),
      level_from_count (sample (map in_rx inps) (n + 1) - sample (map in_rx inps) (n - 9)),
      status_blue (inps ! n) (n mod 10))"

lemma led_tick_step:
  assumes "window_ok inps n w" "n < length inps"
  shows "\<exists>w'. led_tick (inps ! n) w = Some (tick_colour inps n, w') \<and> window_ok inps (Suc n) w'"
proof -
  let ?rx = "sample (map in_rx inps)" and ?tx = "sample (map in_tx inps)"
  have now: "in_rx (inps ! n) = ?rx (Suc n)" "in_tx (inps ! n) = ?tx (Suc n)"
    using assms(2) by (simp_all add: sample_def)
  have len: "length (rx_buckets w) = 10" "length (tx_buckets w) = 10" "bucket w = n mod 10"
    using assms(1) by (simp_all add: window_ok_def ring_ok_def)
  have rx: "ring_ok ?rx (Suc n) ((rx_buckets w)[n mod 10 := ?rx (Suc n) - last_rx w]) (?rx (Suc n))"
    and tx: "ring_ok ?tx (Suc n) ((tx_buckets w)[n mod 10 := ?tx (Suc n) - last_tx w]) (?tx (Suc n))"
    using assms(1) by (auto simp: window_ok_def intro: ring_ok_step)
  then have "sum_list ((rx_buckets w)[n mod 10 := ?rx (Suc n) - last_rx w]) = ?rx (Suc n) - ?rx (n - 9)"
    "sum_list ((tx_buckets w)[n mod 10 := ?tx (Suc n) - last_tx w]) = ?tx (Suc n) - ?tx (n - 9)"
    by (simp_all add: ring_ok_def)
  then show ?thesis
    using len rx tx
    by (simp add: led_tick_def upd_def now Let_def window_ok_def tick_colour_def LED_BUCKETS_def mod_Suc_eq)
qed

lemma led_ticks_colours:
  assumes "window_ok inps n w" "n \<le> length inps"
  shows "\<exists>w'. led_ticks (drop n inps) w = Some (map (tick_colour inps) [n..<length inps], w')"
  using assms
proof (induction "length inps - n" arbitrary: n w)
  case (Suc k)
  then have n: "n < length inps" by simp
  from led_tick_step [OF Suc.prems(1) n] obtain w' where
    t: "led_tick (inps ! n) w = Some (tick_colour inps n, w')" and ok: "window_ok inps (Suc n) w'" by blast
  from Suc.hyps(1) [of "Suc n"] Suc.hyps(2) ok n obtain w'' where
    "led_ticks (drop (Suc n) inps) w' = Some (map (tick_colour inps) [Suc n..<length inps], w'')" by fastforce
  with t n show ?case by (simp add: Cons_nth_drop_Suc [symmetric] upt_conv_Cons)
qed simp

text \<open>
  The LED shows the last second: after any sequence of ticks, the colour of tick \<open>n\<close> is computed
  from the exact number of frames counted since the reading ten ticks earlier (since boot during the
  first second), red from the transmit and green from the receive counter, also across a wrap of the
  32-bit counters; no bucket access is out of range.
\<close>

lemma led_shows_last_second:
  assumes "n < length inps"
  shows "\<exists>cols w. led_ticks inps led_window_init = Some (cols, w) \<and> length cols = length inps \<and>
     cols ! n = (level_from_count (sample (map in_tx inps) (n + 1) - sample (map in_tx inps) (n - 9)),
                 level_from_count (sample (map in_rx inps) (n + 1) - sample (map in_rx inps) (n - 9)),
                 status_blue (inps ! n) (n mod 10))"
proof -
  have "window_ok inps 0 led_window_init"
    by (simp add: window_ok_def led_window_init_def LED_BUCKETS_def ring_ok_init sample_def)
  then show ?thesis
    using led_ticks_colours [of inps 0 led_window_init] assms by (auto simp: tick_colour_def)
qed

end
