(* ===== verification/Rust_Str.thy ===== *)
theory Rust_Str
  imports Bridge_Prelude "HOL-Library.Sublist"
begin

text \<open>
  The part of Rust's standard library for strings and numbers that the web server, the URL parser and
  the configuration use.  A \<^verbatim>\<open>&str\<close> is its UTF-8 bytes.  All separators in the source are ASCII, and an
  ASCII byte never occurs inside a longer UTF-8 sequence, so splitting is splitting of bytes; the
  functions that look at whole characters (white space) work on the encodings.
\<close>

section \<open>UTF-8 validity\<close>

definition cont :: "u8 \<Rightarrow> bool" where
  "cont b \<longleftrightarrow> 0x80 \<le> b \<and> b \<le> 0xBF"

definition second_ok :: "u8 \<Rightarrow> u8 \<Rightarrow> bool" where
  "second_ok b0 b1 \<longleftrightarrow>
     (if b0 = 0xE0 then 0xA0 \<le> b1 \<and> b1 \<le> 0xBF
      else if b0 = 0xED then 0x80 \<le> b1 \<and> b1 \<le> 0x9F
      else if b0 = 0xF0 then 0x90 \<le> b1 \<and> b1 \<le> 0xBF
      else if b0 = 0xF4 then 0x80 \<le> b1 \<and> b1 \<le> 0x8F
      else cont b1)"

text \<open>\<^verbatim>\<open>core::str::from_utf8(..).is_ok()\<close>.\<close>

fun utf8_ok :: "bytes \<Rightarrow> bool" where
  "utf8_ok [] = True"
| "utf8_ok (b0 # bs) =
     (if b0 < 0x80 then utf8_ok bs
      else if 0xC2 \<le> b0 \<and> b0 \<le> 0xDF then
        (case bs of b1 # r \<Rightarrow> cont b1 \<and> utf8_ok r | _ \<Rightarrow> False)
      else if 0xE0 \<le> b0 \<and> b0 \<le> 0xEF then
        (case bs of b1 # b2 # r \<Rightarrow> second_ok b0 b1 \<and> cont b2 \<and> utf8_ok r | _ \<Rightarrow> False)
      else if 0xF0 \<le> b0 \<and> b0 \<le> 0xF4 then
        (case bs of b1 # b2 # b3 # r \<Rightarrow> second_ok b0 b1 \<and> cont b2 \<and> cont b3 \<and> utf8_ok r | _ \<Rightarrow> False)
      else False)"

definition from_utf8 :: "bytes \<Rightarrow> bytes option" where
  "from_utf8 bs = (if utf8_ok bs then Some bs else None)"

text \<open>
  \<^verbatim>\<open>core::str::from_utf8_unchecked\<close>: its behaviour is undefined unless the bytes are valid UTF-8, so there is
  no result otherwise.
\<close>

definition from_utf8_unchecked :: "bytes \<Rightarrow> bytes run" where
  "from_utf8_unchecked bs = (if utf8_ok bs then Some bs else None)"

lemma utf8_ok_ascii: "list_all (\<lambda>b. b < 0x80) bs \<Longrightarrow> utf8_ok bs"
  by (induction bs) simp_all

lemma utf8_ok_append_ascii: "list_all (\<lambda>b. b < 0x80) as \<Longrightarrow> utf8_ok (as @ bs) = utf8_ok bs"
  by (induction as) simp_all

text \<open>The length of a sequence is fixed by its first byte.\<close>

lemma utf8_ok_lead:
  "b0 < 0x80 \<Longrightarrow> utf8_ok (b0 # bs) = utf8_ok bs"
  "\<not> b0 < 0x80 \<Longrightarrow> 0xC2 \<le> b0 \<and> b0 \<le> 0xDF \<Longrightarrow>
     utf8_ok (b0 # bs) = (case bs of b1 # r \<Rightarrow> cont b1 \<and> utf8_ok r | _ \<Rightarrow> False)"
  "\<not> b0 < 0x80 \<Longrightarrow> \<not> (0xC2 \<le> b0 \<and> b0 \<le> 0xDF) \<Longrightarrow> 0xE0 \<le> b0 \<and> b0 \<le> 0xEF \<Longrightarrow>
     utf8_ok (b0 # bs) = (case bs of b1 # b2 # r \<Rightarrow> second_ok b0 b1 \<and> cont b2 \<and> utf8_ok r | _ \<Rightarrow> False)"
  "\<not> b0 < 0x80 \<Longrightarrow> \<not> (0xC2 \<le> b0 \<and> b0 \<le> 0xDF) \<Longrightarrow> \<not> (0xE0 \<le> b0 \<and> b0 \<le> 0xEF) \<Longrightarrow>
     utf8_ok (b0 # bs) = (0xF0 \<le> b0 \<and> b0 \<le> 0xF4 \<and>
       (case bs of b1 # b2 # b3 # r \<Rightarrow> second_ok b0 b1 \<and> cont b2 \<and> cont b3 \<and> utf8_ok r | _ \<Rightarrow> False))"
  by (simp_all only: utf8_ok.simps(2) if_True if_False simp_thms) (auto simp del: utf8_ok.simps)

lemma utf8_ok_append: "utf8_ok as \<Longrightarrow> utf8_ok (as @ bs) = utf8_ok bs"
proof (induction as rule: length_induct)
  case (1 as)
  show ?case
  proof (cases as)
    case (Cons b0 r)
    note IH = 1(1) [rule_format, unfolded Cons] and ok = 1(2) [unfolded Cons]
    consider "b0 < 0x80" | "\<not> b0 < 0x80" "0xC2 \<le> b0 \<and> b0 \<le> 0xDF"
      | "\<not> b0 < 0x80" "\<not> (0xC2 \<le> b0 \<and> b0 \<le> 0xDF)" "0xE0 \<le> b0 \<and> b0 \<le> 0xEF"
      | "\<not> b0 < 0x80" "\<not> (0xC2 \<le> b0 \<and> b0 \<le> 0xDF)" "\<not> (0xE0 \<le> b0 \<and> b0 \<le> 0xEF)" by blast
    then show ?thesis
    proof cases
      case 1
      from ok IH show ?thesis unfolding Cons append_Cons utf8_ok_lead(1) [OF 1] by simp
    next
      case 2
      from ok IH show ?thesis unfolding Cons append_Cons utf8_ok_lead(2) [OF 2] by (cases r) (simp_all del: utf8_ok.simps)
    next
      case 3
      from ok IH show ?thesis unfolding Cons append_Cons utf8_ok_lead(3) [OF 3]
        by (cases r; cases "tl r") (simp_all del: utf8_ok.simps)
    next
      case 4
      from ok IH show ?thesis unfolding Cons append_Cons utf8_ok_lead(4) [OF 4]
        by (cases r; cases "tl r"; cases "tl (tl r)") (simp_all del: utf8_ok.simps)
    qed
  qed simp
qed

section \<open>Searching and splitting\<close>

text \<open>\<^verbatim>\<open>split_once\<close> and \<^verbatim>\<open>rsplit_once\<close> for a character, \<^verbatim>\<open>split_once\<close> for a string.\<close>

fun split_once :: "u8 \<Rightarrow> bytes \<Rightarrow> (bytes \<times> bytes) option" where
  "split_once c [] = None"
| "split_once c (x # xs) =
     (if x = c then Some ([], xs)
      else case split_once c xs of None \<Rightarrow> None | Some (a, b) \<Rightarrow> Some (x # a, b))"

definition rsplit_once :: "u8 \<Rightarrow> bytes \<Rightarrow> (bytes \<times> bytes) option" where
  "rsplit_once c s = (case split_once c (rev s) of None \<Rightarrow> None | Some (a, b) \<Rightarrow> Some (rev b, rev a))"

definition strip_prefix :: "bytes \<Rightarrow> bytes \<Rightarrow> bytes option" where
  "strip_prefix p s = (if take (length p) s = p then Some (drop (length p) s) else None)"

fun split_once_str :: "bytes \<Rightarrow> bytes \<Rightarrow> (bytes \<times> bytes) option" where
  "split_once_str p [] = (if p = [] then Some ([], []) else None)"
| "split_once_str p (x # xs) =
     (case strip_prefix p (x # xs) of
        Some r \<Rightarrow> Some ([], r)
      | None \<Rightarrow> (case split_once_str p xs of None \<Rightarrow> None | Some (a, b) \<Rightarrow> Some (x # a, b)))"

text \<open>\<^verbatim>\<open>windows(n).position(..)\<close>: the first offset at which the needle occurs.\<close>

fun find_sub :: "bytes \<Rightarrow> bytes \<Rightarrow> nat \<Rightarrow> nat option" where
  "find_sub p [] i = (if p = [] then Some i else None)"
| "find_sub p (x # xs) i = (if take (length p) (x # xs) = p then Some i else find_sub p xs (i + 1))"

text \<open>\<^verbatim>\<open>split\<close> for a character and for a non-empty string.\<close>

fun split_char :: "u8 \<Rightarrow> bytes \<Rightarrow> bytes list" where
  "split_char c [] = [[]]"
| "split_char c (x # xs) =
     (if x = c then [] # split_char c xs
      else case split_char c xs of [] \<Rightarrow> [[x]] | y # ys \<Rightarrow> (x # y) # ys)"

lemma split_once_str_shorter:
  "split_once_str p s = Some (a, b) \<Longrightarrow> s = a @ p @ b"
proof (induction s arbitrary: a b)
  case (Cons x xs)
  show ?case
  proof (cases "strip_prefix p (x # xs)")
    case None
    with Cons show ?thesis by (auto split: option.splits)
  next
    case (Some r)
    then have "take (length p) (x # xs) = p" "r = drop (length p) (x # xs)"
      by (auto simp: strip_prefix_def split: if_splits)
    with Some Cons.prems show ?thesis
      using append_take_drop_id [of "length p" "x # xs"] by simp
  qed
qed (simp split: if_splits)

function split_str :: "bytes \<Rightarrow> bytes \<Rightarrow> bytes list" where
  "split_str p s =
     (if p = [] then [s]
      else case split_once_str p s of None \<Rightarrow> [s] | Some (a, b) \<Rightarrow> a # split_str p b)"
  by pat_completeness auto
termination
  by (relation "measure (\<lambda>(p, s). length s)") (auto dest!: split_once_str_shorter)

declare split_str.simps [simp del]

text \<open>\<^verbatim>\<open>lines\<close>: pieces ended by LF, a CR before the LF dropped, no piece after a final LF.\<close>

definition chomp_cr :: "bytes \<Rightarrow> bytes" where
  "chomp_cr l = (if l \<noteq> [] \<and> last l = 13 then butlast l else l)"

function str_lines :: "bytes \<Rightarrow> bytes list" where
  "str_lines s =
     (if s = [] then []
      else case split_once 10 s of None \<Rightarrow> [s] | Some (a, b) \<Rightarrow> chomp_cr a # str_lines b)"
  by pat_completeness auto

lemma split_once_Some:
  "split_once c s = Some (a, b) \<Longrightarrow> s = a @ c # b \<and> c \<notin> set a"
  by (induction s arbitrary: a b) (auto split: if_splits option.splits)

lemma split_once_append: "c \<notin> set a \<Longrightarrow> split_once c (a @ c # b) = Some (a, b)"
  by (induction a) auto

lemma split_once_None: "split_once c s = None \<longleftrightarrow> c \<notin> set s"
  by (induction s) (auto split: option.splits)

termination str_lines
  by (relation "measure length") (auto dest!: split_once_Some)

declare str_lines.simps [simp del]

lemma rsplit_once_Some:
  "rsplit_once c s = Some (a, b) \<Longrightarrow> s = a @ c # b \<and> c \<notin> set b"
  by (auto simp: rsplit_once_def dest!: split_once_Some split: option.splits)
    (metis append.assoc append_Cons append_Nil rev.simps(2) rev_append rev_rev_ident)

lemma rsplit_once_append: "c \<notin> set b \<Longrightarrow> rsplit_once c (a @ c # b) = Some (a, b)"
  using split_once_append [of c "rev b" "rev a"] by (simp add: rsplit_once_def)

lemma find_sub_sound:
  "find_sub p s i = Some k \<Longrightarrow> i \<le> k \<and> take (length p) (drop (k - i) s) = p \<and> k - i + length p \<le> length s"
proof (induction s arbitrary: i)
  case (Cons x xs)
  show ?case
  proof (cases "take (length p) (x # xs) = p")
    case True
    then have "length p \<le> length (x # xs)" using length_take [of "length p" "x # xs"] by simp
    with True Cons.prems show ?thesis by simp
  next
    case False
    with Cons.prems have "find_sub p xs (i + 1) = Some k" by simp
    then have "i + 1 \<le> k" "take (length p) (drop (k - (i + 1)) xs) = p" "k - (i + 1) + length p \<le> length xs"
      using Cons.IH by blast+
    moreover have "drop (k - i) (x # xs) = drop (k - (i + 1)) xs"
      using \<open>i + 1 \<le> k\<close> by (simp add: Suc_diff_Suc [symmetric] drop_Cons')
    ultimately show ?thesis by auto
  qed
qed (simp split: if_splits)

section \<open>White space\<close>

text \<open>The encodings of the characters with Unicode property White_Space.\<close>

definition ws_encodings :: "bytes list" where
  "ws_encodings =
     [[9], [10], [11], [12], [13], [32], [0xC2, 0x85], [0xC2, 0xA0], [0xE1, 0x9A, 0x80],
      [0xE2, 0x80, 0x80], [0xE2, 0x80, 0x81], [0xE2, 0x80, 0x82], [0xE2, 0x80, 0x83],
      [0xE2, 0x80, 0x84], [0xE2, 0x80, 0x85], [0xE2, 0x80, 0x86], [0xE2, 0x80, 0x87],
      [0xE2, 0x80, 0x88], [0xE2, 0x80, 0x89], [0xE2, 0x80, 0x8A], [0xE2, 0x80, 0xA8],
      [0xE2, 0x80, 0xA9], [0xE2, 0x80, 0xAF], [0xE2, 0x81, 0x9F], [0xE3, 0x80, 0x80]]"

text \<open>The rest after one character of the given encodings, if the string starts with one.\<close>

definition strip_one :: "bytes list \<Rightarrow> bytes \<Rightarrow> bytes option" where
  "strip_one encs s =
     (case filter (\<lambda>e. e \<noteq> [] \<and> take (length e) s = e) encs of [] \<Rightarrow> None | e # _ \<Rightarrow> Some (drop (length e) s))"

lemma strip_one_shorter: "strip_one encs s = Some r \<Longrightarrow> length r < length s"
proof -
  assume "strip_one encs s = Some r"
  then obtain e es where f: "filter (\<lambda>e. e \<noteq> [] \<and> take (length e) s = e) encs = e # es" and r: "r = drop (length e) s"
    by (auto simp: strip_one_def split: list.splits)
  have "e \<in> set (filter (\<lambda>e. e \<noteq> [] \<and> take (length e) s = e) encs)" by (simp add: f)
  then have "0 < length e" "s \<noteq> []" by auto
  then show ?thesis by (simp add: r)
qed

function trim_encs :: "bytes list \<Rightarrow> bytes \<Rightarrow> bytes" where
  "trim_encs encs s = (case strip_one encs s of None \<Rightarrow> s | Some r \<Rightarrow> trim_encs encs r)"
  by pat_completeness auto
termination
  by (relation "measure (\<lambda>(encs, s). length s)") (auto dest: strip_one_shorter)

declare trim_encs.simps [simp del]

definition trim_start :: "bytes \<Rightarrow> bytes" where
  "trim_start s = trim_encs ws_encodings s"

definition trim_end :: "bytes \<Rightarrow> bytes" where
  "trim_end s = rev (trim_encs (map rev ws_encodings) (rev s))"

definition trim :: "bytes \<Rightarrow> bytes" where
  "trim s = trim_end (trim_start s)"

text \<open>\<^verbatim>\<open>split_whitespace\<close>: \<open>w\<close> is the word being read, reversed.\<close>

function words_acc :: "bytes \<Rightarrow> bytes \<Rightarrow> bytes list" where
  "words_acc w s =
     (case strip_one ws_encodings s of
        Some r \<Rightarrow> (if w = [] then words_acc [] r else rev w # words_acc [] r)
      | None \<Rightarrow> (case s of [] \<Rightarrow> (if w = [] then [] else [rev w]) | x # xs \<Rightarrow> words_acc (x # w) xs))"
  by pat_completeness auto
termination
  by (relation "measure (\<lambda>(w, s). length s)") (auto dest: strip_one_shorter)

declare words_acc.simps [simp del]

definition split_whitespace :: "bytes \<Rightarrow> bytes list" where
  "split_whitespace s = words_acc [] s"

text \<open>\<^verbatim>\<open>trim_end_matches\<close> for a character.\<close>

definition trim_end_char :: "u8 \<Rightarrow> bytes \<Rightarrow> bytes" where
  "trim_end_char c s = rev (dropWhile (\<lambda>x. x = c) (rev s))"

section \<open>Characters\<close>

definition to_ascii_lower :: "u8 \<Rightarrow> u8" where
  "to_ascii_lower b = (if asc CHR ''A'' \<le> b \<and> b \<le> asc CHR ''Z'' then b + 32 else b)"

definition eq_ignore_ascii_case :: "bytes \<Rightarrow> bytes \<Rightarrow> bool" where
  "eq_ignore_ascii_case a b \<longleftrightarrow> map to_ascii_lower a = map to_ascii_lower b"

definition is_ascii_digit :: "u8 \<Rightarrow> bool" where
  "is_ascii_digit b \<longleftrightarrow> asc CHR ''0'' \<le> b \<and> b \<le> asc CHR ''9''"

definition is_ascii_alphanumeric :: "u8 \<Rightarrow> bool" where
  "is_ascii_alphanumeric b \<longleftrightarrow>
     is_ascii_digit b \<or> (asc CHR ''A'' \<le> b \<and> b \<le> asc CHR ''Z'') \<or> (asc CHR ''a'' \<le> b \<and> b \<le> asc CHR ''z'')"

section \<open>Numbers\<close>

text \<open>
  \<^verbatim>\<open>str::parse\<close> for an unsigned type with largest value \<open>maxv\<close>: an optional plus sign, at least one
  digit, nothing else, no overflow.
\<close>

definition digit_val :: "u8 \<Rightarrow> nat" where
  "digit_val b = unat (b - asc CHR ''0'')"

fun dec_acc :: "nat \<Rightarrow> nat \<Rightarrow> bytes \<Rightarrow> nat option" where
  "dec_acc maxv v [] = Some v"
| "dec_acc maxv v (b # bs) =
     (if is_ascii_digit b then
        let v' = v * 10 + digit_val b in if maxv < v' then None else dec_acc maxv v' bs
      else None)"

definition parse_uint :: "nat \<Rightarrow> bytes \<Rightarrow> nat option" where
  "parse_uint maxv s =
     (case s of
        [] \<Rightarrow> None
      | b # bs \<Rightarrow>
          if b = asc CHR ''+'' then (if bs = [] then None else dec_acc maxv 0 bs)
          else dec_acc maxv 0 s)"

lemma dec_acc_le: "v \<le> maxv \<Longrightarrow> dec_acc maxv v s = Some n \<Longrightarrow> n \<le> maxv"
  by (induction maxv v s rule: dec_acc.induct) (auto simp: Let_def split: if_splits)

lemma parse_uint_le: "parse_uint maxv s = Some n \<Longrightarrow> n \<le> maxv"
  by (auto simp: parse_uint_def intro: dec_acc_le [of 0] simp del: dec_acc.simps split: list.splits if_splits)

text \<open>Decimal output, \<^verbatim>\<open>{}\<close>, and its digits.\<close>

definition digit_char :: "nat \<Rightarrow> u8" where
  "digit_char d = asc CHR ''0'' + of_nat d"

fun show_nat :: "nat \<Rightarrow> bytes" where
  "show_nat n = (if n < 10 then [digit_char n] else show_nat (n div 10) @ [digit_char (n mod 10)])"

declare show_nat.simps [simp del]

lemma digit_char_props:
  assumes "d < 10"
  shows "is_ascii_digit (digit_char d)" "digit_val (digit_char d) = d"
proof -
  have "d \<in> {0, 1, 2, 3, 4, 5, 6, 7, 8, 9}" using assms by auto
  then show "is_ascii_digit (digit_char d)" "digit_val (digit_char d) = d"
    by (auto simp: is_ascii_digit_def digit_char_def digit_val_def)
qed

lemma dec_acc_append:
  "dec_acc maxv v (a @ b) = (case dec_acc maxv v a of None \<Rightarrow> None | Some w \<Rightarrow> dec_acc maxv w b)"
  by (induction maxv v a rule: dec_acc.induct) (auto simp: Let_def)

lemma dec_acc_show: "n \<le> maxv \<Longrightarrow> dec_acc maxv 0 (show_nat n) = Some n"
proof (induction n rule: show_nat.induct)
  case (1 n)
  show ?case
  proof (cases "n < 10")
    case True
    with 1 show ?thesis by (subst show_nat.simps) (simp add: digit_char_props)
  next
    case False
    with 1 have "dec_acc maxv 0 (show_nat (n div 10)) = Some (n div 10)" by simp
    with False 1 show ?thesis
      by (subst show_nat.simps) (simp add: dec_acc_append digit_char_props Let_def)
  qed
qed

lemma show_nat_digits: "list_all is_ascii_digit (show_nat n)"
proof (induction n rule: show_nat.induct)
  case (1 n)
  then show ?case by (subst show_nat.simps) (simp add: digit_char_props)
qed

lemma show_nat_not_Nil [simp]: "show_nat n \<noteq> []"
  by (subst show_nat.simps) simp

lemma parse_show: "n \<le> maxv \<Longrightarrow> parse_uint maxv (show_nat n) = Some n"
proof -
  assume n: "n \<le> maxv"
  obtain b bs where s: "show_nat n = b # bs" by (cases "show_nat n") auto
  then have "is_ascii_digit b" using show_nat_digits [of n] by simp
  then have "b \<noteq> asc CHR ''+''" by (auto simp: is_ascii_digit_def)
  then show ?thesis using s dec_acc_show [OF n] by (simp add: parse_uint_def)
qed

section \<open>Trimming\<close>

text \<open>A visible ASCII character neither begins nor ends an encoding of white space.\<close>

definition visible :: "u8 \<Rightarrow> bool" where
  "visible b \<longleftrightarrow> 0x21 \<le> b \<and> b \<le> 0x7E"

lemma strip_one_other_head:
  assumes "list_all (\<lambda>e. e = [] \<or> hd e \<noteq> d) encs"
  shows "strip_one encs (d # s) = None"
proof -
  have "\<not> (e \<noteq> [] \<and> take (length e) (d # s) = e)" if "e \<in> set encs" for e
    using assms that by (cases e) (auto simp: list_all_iff)
  then have "filter (\<lambda>e. e \<noteq> [] \<and> take (length e) (d # s) = e) encs = []" by (simp add: filter_empty_conv)
  then show ?thesis by (simp add: strip_one_def)
qed

lemma ws_heads: "list_all (\<lambda>e. e = [] \<or> \<not> visible (hd e)) (ws_encodings @ map rev ws_encodings)"
  by (simp add: ws_encodings_def visible_def)

lemma trim_encs_visible:
  assumes "visible d" "encs = ws_encodings \<or> encs = map rev ws_encodings"
  shows "trim_encs encs (d # s) = d # s"
proof -
  have "list_all (\<lambda>e. e = [] \<or> hd e \<noteq> d) encs" using ws_heads assms by (auto simp: list_all_iff)
  then show ?thesis by (subst trim_encs.simps) (simp add: strip_one_other_head)
qed

lemma trim_encs_blanks:
  assumes "set a \<subseteq> {9, 32}" "encs = ws_encodings \<or> encs = map rev ws_encodings"
  shows "trim_encs encs (a @ s) = trim_encs encs s"
  using assms(1)
proof (induction a)
  case (Cons x a)
  have "strip_one encs (x # a @ s) = Some (a @ s)"
    using Cons.prems assms(2) by (auto simp: strip_one_def ws_encodings_def)
  then show ?case using Cons by (subst trim_encs.simps) simp
qed simp

lemma trim_blanks:
  assumes "set (a @ b) \<subseteq> {9, 32}" "s \<noteq> []" "visible (hd s)" "visible (last s)"
  shows "trim (a @ s @ b) = s"
proof -
  have "trim_start (a @ s @ b) = s @ b"
    using assms trim_encs_blanks [of a ws_encodings "s @ b"] by (cases s) (simp_all add: trim_start_def trim_encs_visible)
  moreover have "trim_end (s @ b) = s"
    using assms trim_encs_blanks [of "rev b" "map rev ws_encodings" "rev s"]
    by (cases s rule: rev_cases) (simp_all add: trim_end_def trim_encs_visible)
  ultimately show ?thesis by (simp add: trim_def)
qed

lemma visible_digit: "is_ascii_digit b \<Longrightarrow> visible b"
  by (auto simp: is_ascii_digit_def visible_def word_le_nat_alt)

lemma trim_digits: "list_all is_ascii_digit s \<Longrightarrow> trim s = s"
proof (cases "s = []")
  case True
  then show ?thesis
    by (simp add: trim_def trim_start_def trim_end_def trim_encs.simps strip_one_def ws_encodings_def)
next
  case False
  moreover assume "list_all is_ascii_digit s"
  ultimately show ?thesis using trim_blanks [of "[]" "[]" s] by (simp add: list_all_iff visible_digit)
qed

lemma digits_utf8: "list_all is_ascii_digit s \<Longrightarrow> from_utf8 s = Some s"
proof -
  assume "list_all is_ascii_digit s"
  then have "list_all (\<lambda>b. b < 0x80) s"
    by (auto simp: is_ascii_digit_def word_less_nat_alt word_le_nat_alt elim!: list.pred_mono_strong)
  then show ?thesis by (simp add: from_utf8_def utf8_ok_ascii)
qed

text \<open>Trimming only removes bytes at the two ends.\<close>

lemma trim_encs_suffix: "suffix (trim_encs encs s) s"
proof (induction encs s rule: trim_encs.induct)
  case (1 encs s)
  show ?case
  proof (cases "strip_one encs s")
    case None
    then show ?thesis by (subst trim_encs.simps) simp
  next
    case (Some r)
    then have "suffix r s" by (auto simp: strip_one_def suffix_drop split: list.splits)
    with 1 [OF Some] Some show ?thesis by (subst trim_encs.simps) (auto intro: suffix_order.trans)
  qed
qed

lemma trim_sublist: "sublist (trim s) s"
proof -
  have "sublist (trim_start s) s" using trim_encs_suffix by (simp add: trim_start_def suffix_imp_sublist)
  moreover have "prefix (trim_end t) t" for t
    using trim_encs_suffix [of "map rev ws_encodings" "rev t"] by (simp add: trim_end_def suffix_to_prefix)
  ultimately show ?thesis unfolding trim_def by (meson prefix_imp_sublist sublist_order.order_trans)
qed

section \<open>Little-endian words and chunked random fill\<close>

definition le_bytes16 :: "u16 \<Rightarrow> bytes" where
  "le_bytes16 w = [ucast w, ucast (drop_bit 8 w)]"

definition le_bytes32 :: "u32 \<Rightarrow> bytes" where
  "le_bytes32 w = [ucast w, ucast (drop_bit 8 w), ucast (drop_bit 16 w), ucast (drop_bit 24 w)]"

definition le_word16 :: "bytes \<Rightarrow> u16" where
  "le_word16 bs = ucast (bs ! 0) OR push_bit 8 (ucast (bs ! 1))"

definition le_word32 :: "bytes \<Rightarrow> u32" where
  "le_word32 bs =
     ucast (bs ! 0) OR push_bit 8 (ucast (bs ! 1)) OR push_bit 16 (ucast (bs ! 2)) OR push_bit 24 (ucast (bs ! 3))"

lemma le_word16_bytes [simp]: "le_word16 (le_bytes16 w) = w"
  unfolding le_word16_def le_bytes16_def
  by (rule bit_word_eqI) (auto simp: bit_simps)

lemma le_word32_bytes [simp]: "le_word32 (le_bytes32 w) = w"
proof (rule bit_word_eqI)
  fix n assume n: "n < LENGTH(32)"
  consider "n < 8" | "8 \<le> n" "n < 16" | "16 \<le> n" "n < 24" | "24 \<le> n" "n < 32" using n by fastforce
  then show "bit (le_word32 (le_bytes32 w)) n = bit w n"
    by cases (auto simp: le_word32_def le_bytes32_def bit_simps dest: bit_imp_le_length)
qed

lemma length_le_bytes [simp]: "length (le_bytes16 v) = 2" "length (le_bytes32 w) = 4"
  by (simp_all add: le_bytes16_def le_bytes32_def)

text \<open>
  \<^verbatim>\<open>for chunk in dest.chunks_mut(4)\<close> with one random word per chunk; \<open>rnd k\<close> is the \<open>k\<close>-th word drawn.
\<close>

function fill_chunks :: "(nat \<Rightarrow> u32) \<Rightarrow> nat \<Rightarrow> bytes \<Rightarrow> bytes" where
  "fill_chunks rnd k dest =
     (if dest = [] then []
      else take (length (take 4 dest)) (le_bytes32 (rnd k)) @ fill_chunks rnd (k + 1) (drop 4 dest))"
  by pat_completeness auto
termination
  by (relation "measure (\<lambda>(rnd, k, dest). length dest)") auto

declare fill_chunks.simps [simp del]

lemma length_fill_chunks [simp]: "length (fill_chunks rnd k dest) = length dest"
proof (induction rnd k dest rule: fill_chunks.induct)
  case (1 rnd k dest)
  then show ?case by (subst fill_chunks.simps) (auto simp: min_def)
qed

end
