(* ===== verification/Config.thy ===== *)
theory Config
  imports Rust_Str
begin

text \<open>
  \<^verbatim>\<open>src/config.rs\<close>: the four configuration structs kept in the NVS partition, their setters and
  readers, their memory image (\<^verbatim>\<open>#[repr(C, align(4))]\<close> on a little-endian machine) and the load and
  save functions.

  Flash, partition table, SHA-256 and the random generator are outside the repository.  The first two
  are the record \<open>flash_api\<close>; the hash is a function argument, and a source of random words is a
  function that gives the \<open>k\<close>-th word drawn.
\<close>

section \<open>Model: flash\<close>

text \<open>
  \<open>'fl\<close> is the flash, \<open>'pt\<close> a parsed partition table, \<open>'p\<close> a partition.  \<^verbatim>\<open>Inl ()\<close> is an error.
\<close>

record ('fl, 'pt, 'p) flash_api =
  read_partition_table :: "'fl \<Rightarrow> unit + 'pt"
  find_nvs :: "'pt \<Rightarrow> unit + 'p option"
  part_read :: "'fl \<Rightarrow> 'p \<Rightarrow> nat \<Rightarrow> nat \<Rightarrow> unit + bytes"
  part_write :: "'fl \<Rightarrow> 'p \<Rightarrow> nat \<Rightarrow> bytes \<Rightarrow> (unit + unit) \<times> 'fl"

text \<open>The look-up of the NVS partition with which every load and save begins.\<close>

definition nvs_partition :: "('fl, 'pt, 'p) flash_api \<Rightarrow> 'fl \<Rightarrow> 'p option" where
  "nvs_partition F fl =
     (case read_partition_table F fl of
        Inl e \<Rightarrow> None
      | Inr pt \<Rightarrow> (case find_nvs F pt of Inl e \<Rightarrow> None | Inr r \<Rightarrow> r))"

definition ok_bytes :: "unit + bytes \<Rightarrow> bytes option" where
  "ok_bytes r = (case r of Inl e \<Rightarrow> None | Inr bs \<Rightarrow> Some bs)"

section \<open>Model: WiFi credentials\<close>

definition DEFAULT_NAME :: bytes where "DEFAULT_NAME = ascii ''espcan-br''"
definition DEFAULT_UART_BAUD :: u32 where "DEFAULT_UART_BAUD = 115200"

definition WIFI_CONFIG_MAGIC :: u32 where "WIFI_CONFIG_MAGIC = 0xC0F16001"
definition WIFI_CONFIG_OFFSET :: nat where "WIFI_CONFIG_OFFSET = 0"
definition DEVICE_CONFIG_MAGIC :: u32 where "DEVICE_CONFIG_MAGIC = 0xDE71CE01"
definition DEVICE_CONFIG_OFFSET :: nat where "DEVICE_CONFIG_OFFSET = 128"
definition AUTOCONN_CONFIG_MAGIC :: u32 where "AUTOCONN_CONFIG_MAGIC = 0xAC0C0002"
definition AUTOCONN_CONFIG_OFFSET :: nat where "AUTOCONN_CONFIG_OFFSET = 256"
definition URL_MAX :: nat where "URL_MAX = 256"
definition AUTH_CONFIG_MAGIC :: u32 where "AUTH_CONFIG_MAGIC = 0xA0710101"
definition AUTH_CONFIG_OFFSET :: nat where "AUTH_CONFIG_OFFSET = 640"

record WifiConfig =
  w_magic :: u32
  ssid :: bytes
  ssid_len :: u8
  password :: bytes
  password_len :: u8
  w_padding :: bytes

definition WifiConfig_new :: WifiConfig where
  "WifiConfig_new = \<lparr>w_magic = 0, ssid = replicate 32 0, ssid_len = 0, password = replicate 64 0,
     password_len = 0, w_padding = replicate 2 0\<rparr>"

definition wifi_is_valid :: "WifiConfig \<Rightarrow> bool" where
  "wifi_is_valid c \<longleftrightarrow> w_magic c = WIFI_CONFIG_MAGIC \<and> 0 < ssid_len c"

definition ssid_str :: "WifiConfig \<Rightarrow> bytes run" where
  "ssid_str c = (if ssid_len c = 0 then Some [] else slice (ssid c) 0 (unat (ssid_len c)))"

definition password_str :: "WifiConfig \<Rightarrow> bytes run" where
  "password_str c = (if password_len c = 0 then Some [] else slice (password c) 0 (unat (password_len c)))"

definition set_credentials :: "bytes \<Rightarrow> bytes \<Rightarrow> WifiConfig \<Rightarrow> WifiConfig run" where
  "set_credentials s p c =
     (let c = c\<lparr>w_magic := WIFI_CONFIG_MAGIC, ssid_len := of_nat (min (length s) 32)\<rparr> in
      do { src \<leftarrow> slice s 0 (unat (ssid_len c));
           a \<leftarrow> copy_prefix (ssid c) (unat (ssid_len c)) src;
           let c = c\<lparr>ssid := a, password_len := of_nat (min (length p) 64)\<rparr> in
           do { src \<leftarrow> slice p 0 (unat (password_len c));
                a \<leftarrow> copy_prefix (password c) (unat (password_len c)) src;
                Some (c\<lparr>password := a\<rparr>) } })"

definition wifi_as_bytes :: "WifiConfig \<Rightarrow> bytes" where
  "wifi_as_bytes c = le_bytes32 (w_magic c) @ ssid c @ [ssid_len c] @ password c @ [password_len c] @ w_padding c"

definition wifi_size :: nat where "wifi_size = 104"

definition wifi_read_unaligned :: "bytes \<Rightarrow> WifiConfig" where
  "wifi_read_unaligned bs =
     \<lparr>w_magic = le_word32 bs, ssid = take 32 (drop 4 bs), ssid_len = bs ! 36,
      password = take 64 (drop 37 bs), password_len = bs ! 101, w_padding = take 2 (drop 102 bs)\<rparr>"

definition wifi_from_bytes :: "bytes \<Rightarrow> WifiConfig option" where
  "wifi_from_bytes bs =
     (if length bs < wifi_size then None
      else let config = wifi_read_unaligned bs in if wifi_is_valid config then Some config else None)"

definition load_wifi :: "('fl, 'pt, 'p) flash_api \<Rightarrow> 'fl \<Rightarrow> WifiConfig option" where
  "load_wifi F fl =
     do { part \<leftarrow> nvs_partition F fl;
          buf \<leftarrow> ok_bytes (part_read F fl part WIFI_CONFIG_OFFSET 128);
          wifi_from_bytes buf }"

definition save_wifi :: "('fl, 'pt, 'p) flash_api \<Rightarrow> WifiConfig \<Rightarrow> 'fl \<Rightarrow> ((unit + unit) \<times> 'fl) run" where
  "save_wifi F c fl =
     (case nvs_partition F fl of
        None \<Rightarrow> Some (Inl (), fl)
      | Some part \<Rightarrow>
          do { aligned \<leftarrow> copy_prefix (replicate 128 0) (length (wifi_as_bytes c)) (wifi_as_bytes c);
               Some (part_write F fl part WIFI_CONFIG_OFFSET aligned) })"

section \<open>Model: device name and baud rate\<close>

record DeviceConfig =
  d_magic :: u32
  dev_name :: bytes
  name_len :: u8
  d_pad :: bytes
  dev_baud :: u32

definition DeviceConfig_new :: DeviceConfig where
  "DeviceConfig_new = \<lparr>d_magic = 0, dev_name = replicate 32 0, name_len = 0, d_pad = replicate 3 0,
     dev_baud = DEFAULT_UART_BAUD\<rparr>"

definition device_set :: "bytes \<Rightarrow> u32 \<Rightarrow> DeviceConfig \<Rightarrow> DeviceConfig run" where
  "device_set name b c =
     (let c = c\<lparr>d_magic := DEVICE_CONFIG_MAGIC, name_len := of_nat (min (length name) 32)\<rparr> in
      do { src \<leftarrow> slice name 0 (unat (name_len c));
           a \<leftarrow> copy_prefix (dev_name c) (unat (name_len c)) src;
           Some (c\<lparr>dev_name := a, dev_baud := b\<rparr>) })"

definition device_defaults :: "DeviceConfig run" where
  "device_defaults = device_set DEFAULT_NAME DEFAULT_UART_BAUD DeviceConfig_new"

definition device_is_valid :: "DeviceConfig \<Rightarrow> bool" where
  "device_is_valid c \<longleftrightarrow> d_magic c = DEVICE_CONFIG_MAGIC \<and> 0 < name_len c"

definition name_str :: "DeviceConfig \<Rightarrow> bytes run" where
  "name_str c = (if name_len c = 0 then Some DEFAULT_NAME else slice (dev_name c) 0 (unat (name_len c)))"

definition device_baud :: "DeviceConfig \<Rightarrow> u32" where
  "device_baud c = (if dev_baud c = 0 then DEFAULT_UART_BAUD else dev_baud c)"

definition device_as_bytes :: "DeviceConfig \<Rightarrow> bytes" where
  "device_as_bytes c = le_bytes32 (d_magic c) @ dev_name c @ [name_len c] @ d_pad c @ le_bytes32 (dev_baud c)"

definition device_size :: nat where "device_size = 44"

definition device_read_unaligned :: "bytes \<Rightarrow> DeviceConfig" where
  "device_read_unaligned bs =
     \<lparr>d_magic = le_word32 bs, dev_name = take 32 (drop 4 bs), name_len = bs ! 36,
      d_pad = take 3 (drop 37 bs), dev_baud = le_word32 (drop 40 bs)\<rparr>"

definition device_from_bytes :: "bytes \<Rightarrow> DeviceConfig option" where
  "device_from_bytes bs =
     (if length bs < device_size then None
      else let config = device_read_unaligned bs in if device_is_valid config then Some config else None)"

definition load_device :: "('fl, 'pt, 'p) flash_api \<Rightarrow> 'fl \<Rightarrow> DeviceConfig option" where
  "load_device F fl =
     do { part \<leftarrow> nvs_partition F fl;
          buf \<leftarrow> ok_bytes (part_read F fl part DEVICE_CONFIG_OFFSET 64);
          device_from_bytes buf }"

definition save_device :: "('fl, 'pt, 'p) flash_api \<Rightarrow> DeviceConfig \<Rightarrow> 'fl \<Rightarrow> ((unit + unit) \<times> 'fl) run" where
  "save_device F c fl =
     (case nvs_partition F fl of
        None \<Rightarrow> Some (Inl (), fl)
      | Some part \<Rightarrow>
          do { aligned \<leftarrow> copy_prefix (replicate 64 0) (length (device_as_bytes c)) (device_as_bytes c);
               Some (part_write F fl part DEVICE_CONFIG_OFFSET aligned) })"

section \<open>Model: outbound URL\<close>

record AutoConnectConfig =
  ac_magic :: u32
  ac_enable :: u8
  ac_pad :: u8
  url_len :: u16
  url :: bytes

definition AutoConnectConfig_new :: AutoConnectConfig where
  "AutoConnectConfig_new = \<lparr>ac_magic = 0, ac_enable = 0, ac_pad = 0, url_len = 0, url = replicate URL_MAX 0\<rparr>"

definition autoconnect_is_valid :: "AutoConnectConfig \<Rightarrow> bool" where
  "autoconnect_is_valid c \<longleftrightarrow> ac_magic c = AUTOCONN_CONFIG_MAGIC"

definition ac_enabled :: "AutoConnectConfig \<Rightarrow> bool" where
  "ac_enabled c \<longleftrightarrow> ac_enable c \<noteq> 0 \<and> 0 < url_len c"

definition ac_enable_set :: "AutoConnectConfig \<Rightarrow> bool" where
  "ac_enable_set c \<longleftrightarrow> ac_enable c \<noteq> 0"

definition url_str :: "AutoConnectConfig \<Rightarrow> bytes run" where
  "url_str c =
     (let n = min (unat (url_len c)) URL_MAX in
      if n = 0 then Some []
      else do { s \<leftarrow> slice (url c) 0 n;
                Some (case from_utf8 s of Some t \<Rightarrow> t | None \<Rightarrow> []) })"

definition autoconnect_set :: "bool \<Rightarrow> bytes \<Rightarrow> AutoConnectConfig \<Rightarrow> AutoConnectConfig run" where
  "autoconnect_set en u c =
     (let c = c\<lparr>ac_magic := AUTOCONN_CONFIG_MAGIC, ac_enable := (if en then 1 else 0)\<rparr>;
          n = min (length u) URL_MAX;
          c = c\<lparr>url_len := of_nat n\<rparr> in
      do { src \<leftarrow> slice u 0 n;
           a \<leftarrow> copy_prefix (url c) n src;
           Some (c\<lparr>url := a\<rparr>) })"

definition autoconnect_as_bytes :: "AutoConnectConfig \<Rightarrow> bytes" where
  "autoconnect_as_bytes c = le_bytes32 (ac_magic c) @ [ac_enable c, ac_pad c] @ le_bytes16 (url_len c) @ url c"

definition autoconnect_size :: nat where "autoconnect_size = 264"

definition autoconnect_read_unaligned :: "bytes \<Rightarrow> AutoConnectConfig" where
  "autoconnect_read_unaligned bs =
     \<lparr>ac_magic = le_word32 bs, ac_enable = bs ! 4, ac_pad = bs ! 5, url_len = le_word16 (drop 6 bs),
      url = take 256 (drop 8 bs)\<rparr>"

definition autoconnect_from_bytes :: "bytes \<Rightarrow> AutoConnectConfig option" where
  "autoconnect_from_bytes bs =
     (if length bs < autoconnect_size then None
      else let config = autoconnect_read_unaligned bs
           in if autoconnect_is_valid config then Some config else None)"

definition load_autoconnect :: "('fl, 'pt, 'p) flash_api \<Rightarrow> 'fl \<Rightarrow> AutoConnectConfig option" where
  "load_autoconnect F fl =
     do { part \<leftarrow> nvs_partition F fl;
          buf \<leftarrow> ok_bytes (part_read F fl part AUTOCONN_CONFIG_OFFSET 384);
          autoconnect_from_bytes buf }"

definition save_autoconnect ::
  "('fl, 'pt, 'p) flash_api \<Rightarrow> AutoConnectConfig \<Rightarrow> 'fl \<Rightarrow> ((unit + unit) \<times> 'fl) run" where
  "save_autoconnect F c fl =
     (case nvs_partition F fl of
        None \<Rightarrow> Some (Inl (), fl)
      | Some part \<Rightarrow>
          do { aligned \<leftarrow> copy_prefix (replicate 384 0) (length (autoconnect_as_bytes c)) (autoconnect_as_bytes c);
               Some (part_write F fl part AUTOCONN_CONFIG_OFFSET aligned) })"

section \<open>Model: web login\<close>

record AuthConfig =
  au_magic :: u32
  au_user :: bytes
  user_len :: u8
  has_pass :: u8
  au_pad :: bytes
  salt :: bytes
  pass_hash :: bytes

definition AuthConfig_new :: AuthConfig where
  "AuthConfig_new = \<lparr>au_magic = 0, au_user = replicate 32 0, user_len = 0, has_pass = 0,
     au_pad = replicate 2 0, salt = replicate 16 0, pass_hash = replicate 32 0\<rparr>"

definition auth_is_valid :: "AuthConfig \<Rightarrow> bool" where
  "auth_is_valid c \<longleftrightarrow> au_magic c = AUTH_CONFIG_MAGIC"

definition auth_is_set :: "AuthConfig \<Rightarrow> bool" where
  "auth_is_set c \<longleftrightarrow> auth_is_valid c \<and> 0 < user_len c \<and> has_pass c \<noteq> 0"

definition user_str :: "AuthConfig \<Rightarrow> bytes run" where
  "user_str c = (if user_len c = 0 then Some [] else slice (au_user c) 0 (unat (user_len c)))"

text \<open>\<open>sha\<close> is the digest of the whole message; the source feeds it the salt and then the password.\<close>

definition salted_hash :: "(bytes \<Rightarrow> bytes) \<Rightarrow> bytes \<Rightarrow> bytes \<Rightarrow> bytes run" where
  "salted_hash sha slt pw = copy_prefix (replicate 32 0) 32 (sha (slt @ pw))"

text \<open>The loop of \<^verbatim>\<open>ct_eq\<close> over the indices still to visit.\<close>

fun ct_diff :: "nat list \<Rightarrow> bytes \<Rightarrow> bytes \<Rightarrow> u8 \<Rightarrow> u8 run" where
  "ct_diff [] a b diff = Some diff"
| "ct_diff (i # is) a b diff =
     do { x \<leftarrow> idx a i; y \<leftarrow> idx b i; ct_diff is a b (diff OR (x XOR y)) }"

definition ct_eq :: "bytes \<Rightarrow> bytes \<Rightarrow> bool run" where
  "ct_eq a b = do { diff \<leftarrow> ct_diff [0..<32] a b 0; Some (diff = 0) }"

definition auth_set :: "(bytes \<Rightarrow> bytes) \<Rightarrow> (nat \<Rightarrow> u32) \<Rightarrow> bytes \<Rightarrow> bytes \<Rightarrow> AuthConfig \<Rightarrow> AuthConfig run" where
  "auth_set sha rnd user pw c =
     (let c = c\<lparr>au_magic := AUTH_CONFIG_MAGIC\<rparr> in
      if user = [] \<or> pw = [] then
        Some (c\<lparr>user_len := 0, has_pass := 0, au_user := replicate 32 0, salt := replicate 16 0,
                pass_hash := replicate 32 0\<rparr>)
      else
        (let c = c\<lparr>user_len := of_nat (min (length user) 32)\<rparr> in
         do { src \<leftarrow> slice user 0 (unat (user_len c));
              a \<leftarrow> copy_prefix (au_user c) (unat (user_len c)) src;
              let c = c\<lparr>au_user := a, salt := fill_chunks rnd 0 (salt c)\<rparr> in
              do { h \<leftarrow> salted_hash sha (salt c) pw;
                   Some (c\<lparr>pass_hash := h, has_pass := 1\<rparr>) } }))"

definition auth_verify :: "(bytes \<Rightarrow> bytes) \<Rightarrow> AuthConfig \<Rightarrow> bytes \<Rightarrow> bytes \<Rightarrow> bool run" where
  "auth_verify sha c user pw =
     (if \<not> auth_is_set c then Some True
      else do { u \<leftarrow> slice (au_user c) 0 (unat (user_len c));
                if user \<noteq> u then Some False
                else do { computed \<leftarrow> salted_hash sha (salt c) pw;
                          ct_eq computed (pass_hash c) } })"

definition auth_as_bytes :: "AuthConfig \<Rightarrow> bytes" where
  "auth_as_bytes c =
     le_bytes32 (au_magic c) @ au_user c @ [user_len c, has_pass c] @ au_pad c @ salt c @ pass_hash c"

definition auth_size :: nat where "auth_size = 88"

definition auth_read_unaligned :: "bytes \<Rightarrow> AuthConfig" where
  "auth_read_unaligned bs =
     \<lparr>au_magic = le_word32 bs, au_user = take 32 (drop 4 bs), user_len = bs ! 36, has_pass = bs ! 37,
      au_pad = take 2 (drop 38 bs), salt = take 16 (drop 40 bs), pass_hash = take 32 (drop 56 bs)\<rparr>"

definition auth_from_bytes :: "bytes \<Rightarrow> AuthConfig option" where
  "auth_from_bytes bs =
     (if length bs < auth_size then None
      else let config = auth_read_unaligned bs in if auth_is_valid config then Some config else None)"

definition load_auth :: "('fl, 'pt, 'p) flash_api \<Rightarrow> 'fl \<Rightarrow> AuthConfig option" where
  "load_auth F fl =
     do { part \<leftarrow> nvs_partition F fl;
          buf \<leftarrow> ok_bytes (part_read F fl part AUTH_CONFIG_OFFSET 128);
          auth_from_bytes buf }"

definition save_auth :: "('fl, 'pt, 'p) flash_api \<Rightarrow> AuthConfig \<Rightarrow> 'fl \<Rightarrow> ((unit + unit) \<times> 'fl) run" where
  "save_auth F c fl =
     (case nvs_partition F fl of
        None \<Rightarrow> Some (Inl (), fl)
      | Some part \<Rightarrow>
          do { aligned \<leftarrow> copy_prefix (replicate 128 0) (length (auth_as_bytes c)) (auth_as_bytes c);
               Some (part_write F fl part AUTH_CONFIG_OFFSET aligned) })"

section \<open>What the firmware relies on of the flash driver\<close>

text \<open>
  A read returns as many bytes as asked for.  A successful write to the NVS partition stores its bytes
  at its offset, changes no other range, and leaves the partition table alone.
\<close>

definition flash_ok :: "('fl, 'pt, 'p) flash_api \<Rightarrow> bool" where
  "flash_ok F \<longleftrightarrow>
     (\<forall>fl part off n bs. part_read F fl part off n = Inr bs \<longrightarrow> length bs = n) \<and>
     (\<forall>fl part off bs fl'. nvs_partition F fl = Some part \<and> part_write F fl part off bs = (Inr (), fl') \<longrightarrow>
        nvs_partition F fl' = Some part \<and> part_read F fl' part off (length bs) = Inr bs \<and>
        (\<forall>off' n. off' + n \<le> off \<or> off + length bs \<le> off' \<longrightarrow>
           part_read F fl' part off' n = part_read F fl part off' n))"

text \<open>
  The contract of one stored struct: its image fits its slot, decoding the padded image gives the
  struct back, and load and save go through the slot.
\<close>

locale flash_slot =
  fixes enc :: "'c \<Rightarrow> bytes" and dec :: "bytes \<Rightarrow> 'c option" and good :: "'c \<Rightarrow> bool"
    and off slot :: nat
    and load :: "('fl, 'pt, 'p) flash_api \<Rightarrow> 'fl \<Rightarrow> 'c option"
    and save :: "('fl, 'pt, 'p) flash_api \<Rightarrow> 'c \<Rightarrow> 'fl \<Rightarrow> ((unit + unit) \<times> 'fl) run"
  assumes enc_fits: "good c \<Longrightarrow> length (enc c) \<le> slot"
    and dec_enc: "good c \<Longrightarrow> length pad = slot - length (enc c) \<Longrightarrow> dec (enc c @ pad) = Some c"
    and load_eq: "load F fl = nvs_partition F fl \<bind> (\<lambda>part. ok_bytes (part_read F fl part off slot) \<bind> dec)"
    and save_eq: "save F c fl = (case nvs_partition F fl of None \<Rightarrow> Some (Inl (), fl)
      | Some part \<Rightarrow> copy_prefix (replicate slot 0) (length (enc c)) (enc c) \<bind>
          (\<lambda>aligned. Some (part_write F fl part off aligned)))"
begin

lemma save_total: "good c \<Longrightarrow> \<exists>r. save F c fl = Some r"
  using enc_fits [of c] by (auto simp: save_eq run_simps split: option.splits)

lemma save_writes:
  assumes "save F c fl = Some (Inr (), fl')"
  shows "\<exists>part bs. nvs_partition F fl = Some part \<and> length bs = slot \<and>
     bs = enc c @ replicate (slot - length (enc c)) 0 \<and> part_write F fl part off bs = (Inr (), fl')"
  using assms by (auto simp: save_eq copy_prefix_def split: option.splits if_splits)

lemma load_after_save:
  assumes "flash_ok F" "good c" "save F c fl = Some (Inr (), fl')"
  shows "load F fl' = Some c"
proof -
  from save_writes [OF assms(3)] obtain part bs where w: "nvs_partition F fl = Some part" "length bs = slot"
    "bs = enc c @ replicate (slot - length (enc c)) 0" "part_write F fl part off bs = (Inr (), fl')" by blast
  have "nvs_partition F fl' = Some part" "part_read F fl' part off slot = Inr bs"
    using assms(1) w(1,2,4) unfolding flash_ok_def by blast+
  moreover have "dec bs = Some c" unfolding w(3) by (rule dec_enc [OF assms(2)]) simp
  ultimately show ?thesis by (simp add: load_eq ok_bytes_def)
qed

lemma load_after_other_write:
  assumes "flash_ok F" "nvs_partition F fl = Some part" "part_write F fl part off' bs = (Inr (), fl')"
    "off + slot \<le> off' \<or> off' + length bs \<le> off"
  shows "load F fl' = load F fl"
proof -
  have "nvs_partition F fl' = Some part" "part_read F fl' part off slot = part_read F fl part off slot"
    using assms unfolding flash_ok_def by blast+
  then show ?thesis using assms(2) by (simp add: load_eq)
qed

end

section \<open>The memory images\<close>

definition wifi_good :: "WifiConfig \<Rightarrow> bool" where
  "wifi_good c \<longleftrightarrow> length (ssid c) = 32 \<and> length (password c) = 64 \<and> length (w_padding c) = 2 \<and> wifi_is_valid c"

definition device_good :: "DeviceConfig \<Rightarrow> bool" where
  "device_good c \<longleftrightarrow> length (dev_name c) = 32 \<and> length (d_pad c) = 3 \<and> device_is_valid c"

definition autoconnect_good :: "AutoConnectConfig \<Rightarrow> bool" where
  "autoconnect_good c \<longleftrightarrow> length (url c) = 256 \<and> autoconnect_is_valid c"

definition auth_good :: "AuthConfig \<Rightarrow> bool" where
  "auth_good c \<longleftrightarrow> length (au_user c) = 32 \<and> length (au_pad c) = 2 \<and> length (salt c) = 16 \<and>
     length (pass_hash c) = 32 \<and> auth_is_valid c"

lemma le_word_append [simp]:
  "le_word32 (le_bytes32 w @ r) = w" "le_word16 (le_bytes16 v @ r) = v"
  using le_word32_bytes [of w] le_word16_bytes [of v]
  by (simp_all add: le_word32_def le_word16_def nth_append)

interpretation wifi_slot: flash_slot wifi_as_bytes wifi_from_bytes wifi_good WIFI_CONFIG_OFFSET 128 load_wifi save_wifi
proof unfold_locales
  fix c and pad :: bytes assume "wifi_good c" "length pad = 128 - length (wifi_as_bytes c)"
  then show "wifi_from_bytes (wifi_as_bytes c @ pad) = Some c"
    by (simp add: wifi_from_bytes_def wifi_read_unaligned_def wifi_as_bytes_def wifi_good_def wifi_size_def
        wifi_is_valid_def nth_append Let_def)
qed (simp_all add: wifi_as_bytes_def wifi_good_def load_wifi_def save_wifi_def)

interpretation device_slot: flash_slot device_as_bytes device_from_bytes device_good DEVICE_CONFIG_OFFSET 64 load_device save_device
proof unfold_locales
  fix c and pad :: bytes assume "device_good c" "length pad = 64 - length (device_as_bytes c)"
  then show "device_from_bytes (device_as_bytes c @ pad) = Some c"
    by (simp add: device_from_bytes_def device_read_unaligned_def device_as_bytes_def device_good_def device_size_def
        device_is_valid_def nth_append Let_def)
qed (simp_all add: device_as_bytes_def device_good_def load_device_def save_device_def)

interpretation autoconnect_slot: flash_slot autoconnect_as_bytes autoconnect_from_bytes autoconnect_good
  AUTOCONN_CONFIG_OFFSET 384 load_autoconnect save_autoconnect
proof unfold_locales
  fix c and pad :: bytes assume "autoconnect_good c" "length pad = 384 - length (autoconnect_as_bytes c)"
  then show "autoconnect_from_bytes (autoconnect_as_bytes c @ pad) = Some c"
    by (simp add: autoconnect_from_bytes_def autoconnect_read_unaligned_def autoconnect_as_bytes_def
        autoconnect_good_def autoconnect_size_def autoconnect_is_valid_def nth_append Let_def)
qed (simp_all add: autoconnect_as_bytes_def autoconnect_good_def load_autoconnect_def save_autoconnect_def)

interpretation auth_slot: flash_slot auth_as_bytes auth_from_bytes auth_good AUTH_CONFIG_OFFSET 128 load_auth save_auth
proof unfold_locales
  fix c and pad :: bytes assume "auth_good c" "length pad = 128 - length (auth_as_bytes c)"
  then show "auth_from_bytes (auth_as_bytes c @ pad) = Some c"
    by (simp add: auth_from_bytes_def auth_read_unaligned_def auth_as_bytes_def auth_good_def auth_size_def
        auth_is_valid_def nth_append Let_def)
qed (simp_all add: auth_as_bytes_def auth_good_def load_auth_def save_auth_def)

section \<open>Saving and loading\<close>

text \<open>All that a boot reads.\<close>

definition settings ::
  "('fl, 'pt, 'p) flash_api \<Rightarrow> 'fl \<Rightarrow>
     WifiConfig option \<times> DeviceConfig option \<times> AutoConnectConfig option \<times> AuthConfig option" where
  "settings F fl = (load_wifi F fl, load_device F fl, load_autoconnect F fl, load_auth F fl)"

lemmas slot_offsets = WIFI_CONFIG_OFFSET_def DEVICE_CONFIG_OFFSET_def AUTOCONN_CONFIG_OFFSET_def AUTH_CONFIG_OFFSET_def

lemma other_slots_kept:
  assumes "flash_ok F" "nvs_partition F fl = Some part" "part_write F fl part off bs = (Inr (), fl')"
  shows "128 \<le> off \<Longrightarrow> load_wifi F fl' = load_wifi F fl"
    "off + length bs \<le> 128 \<or> 192 \<le> off \<Longrightarrow> load_device F fl' = load_device F fl"
    "off + length bs \<le> 256 \<or> 640 \<le> off \<Longrightarrow> load_autoconnect F fl' = load_autoconnect F fl"
    "off + length bs \<le> 640 \<Longrightarrow> load_auth F fl' = load_auth F fl"
  using wifi_slot.load_after_other_write [OF assms] device_slot.load_after_other_write [OF assms]
    autoconnect_slot.load_after_other_write [OF assms] auth_slot.load_after_other_write [OF assms]
  by (auto simp: slot_offsets)

lemma save_wifi_settings:
  assumes "flash_ok F" "wifi_good c" "save_wifi F c fl = Some (Inr (), fl')"
  shows "settings F fl' = (Some c, snd (settings F fl))"
proof -
  from wifi_slot.save_writes [OF assms(3)] obtain part bs where
    "nvs_partition F fl = Some part" "length bs = 128" "part_write F fl part WIFI_CONFIG_OFFSET bs = (Inr (), fl')" by blast
  with other_slots_kept [OF assms(1)] wifi_slot.load_after_save [OF assms] show ?thesis
    by (simp add: settings_def slot_offsets)
qed

lemma save_device_settings:
  assumes "flash_ok F" "device_good c" "save_device F c fl = Some (Inr (), fl')"
  shows "settings F fl' = (load_wifi F fl, Some c, load_autoconnect F fl, load_auth F fl)"
proof -
  from device_slot.save_writes [OF assms(3)] obtain part bs where
    "nvs_partition F fl = Some part" "length bs = 64" "part_write F fl part DEVICE_CONFIG_OFFSET bs = (Inr (), fl')" by blast
  with other_slots_kept [OF assms(1)] device_slot.load_after_save [OF assms] show ?thesis
    by (simp add: settings_def slot_offsets)
qed

lemma save_autoconnect_settings:
  assumes "flash_ok F" "autoconnect_good c" "save_autoconnect F c fl = Some (Inr (), fl')"
  shows "settings F fl' = (load_wifi F fl, load_device F fl, Some c, load_auth F fl)"
proof -
  from autoconnect_slot.save_writes [OF assms(3)] obtain part bs where
    "nvs_partition F fl = Some part" "length bs = 384" "part_write F fl part AUTOCONN_CONFIG_OFFSET bs = (Inr (), fl')" by blast
  with other_slots_kept [OF assms(1)] autoconnect_slot.load_after_save [OF assms] show ?thesis
    by (simp add: settings_def slot_offsets)
qed

lemma save_auth_settings:
  assumes "flash_ok F" "auth_good c" "save_auth F c fl = Some (Inr (), fl')"
  shows "settings F fl' = (load_wifi F fl, load_device F fl, load_autoconnect F fl, Some c)"
proof -
  from auth_slot.save_writes [OF assms(3)] obtain part bs where
    "nvs_partition F fl = Some part" "length bs = 128" "part_write F fl part AUTH_CONFIG_OFFSET bs = (Inr (), fl')" by blast
  with other_slots_kept [OF assms(1)] auth_slot.load_after_save [OF assms] show ?thesis
    by (simp add: settings_def slot_offsets)
qed

text \<open>A flash of plain bytes with one partition, for the witnesses.\<close>

definition demo_flash :: "(bytes, unit, unit) flash_api" where
  "demo_flash = \<lparr>read_partition_table = (\<lambda>fl. Inr ()), find_nvs = (\<lambda>pt. Inr (Some ())),
     part_read = (\<lambda>fl p off n. if off + n \<le> length fl then Inr (take n (drop off fl)) else Inl ()),
     part_write = (\<lambda>fl p off bs. if off + length bs \<le> length fl
       then (Inr (), take off fl @ bs @ drop (off + length bs) fl) else (Inl (), fl))\<rparr>"

lemma overlay_read:
  assumes "off + length bs \<le> length fl"
  shows "take (length bs) (drop off (take off fl @ bs @ drop (off + length bs) fl)) = bs"
    "length (take off fl @ bs @ drop (off + length bs) fl) = length fl"
    "off' + n \<le> off \<or> off + length bs \<le> off' \<Longrightarrow>
     take n (drop off' (take off fl @ bs @ drop (off + length bs) fl)) = take n (drop off' fl)"
  using assms by (auto simp: drop_take min_def)

lemma demo_flash_ok: "flash_ok demo_flash"
proof -
  have nvs: "nvs_partition demo_flash fl = Some ()" for fl
    by (simp add: nvs_partition_def demo_flash_def)
  have rd: "part_read demo_flash fl p off n = (if off + n \<le> length fl then Inr (take n (drop off fl)) else Inl ())"
    for fl p off n by (simp add: demo_flash_def)
  have wr: "part_write demo_flash fl p off bs = (Inr (), fl') \<longleftrightarrow>
      off + length bs \<le> length fl \<and> fl' = take off fl @ bs @ drop (off + length bs) fl" for fl p off bs fl'
    by (auto simp: demo_flash_def)
  show ?thesis
    unfolding flash_ok_def nvs rd wr
    by (auto simp: overlay_read simp del: take_append drop_append length_append split: if_splits)
qed

text \<open>
  C21.  A save changes exactly its own setting.  Whatever the flash held, after a successful save of a
  valid struct the next boot loads that very struct back from its slot, and the other three settings
  are loaded as before: memory images and slots neither lose nor overlap a byte.
\<close>

theorem save_updates_one_setting:
  assumes "flash_ok F"
  shows "(\<forall>c fl fl'. wifi_good c \<and> Config.save_wifi F c fl = Some (Inr (), fl') \<longrightarrow>
       settings F fl' = (Some c, load_device F fl, load_autoconnect F fl, load_auth F fl)) \<and>
     (\<forall>c fl fl'. device_good c \<and> Config.save_device F c fl = Some (Inr (), fl') \<longrightarrow>
       settings F fl' = (load_wifi F fl, Some c, load_autoconnect F fl, load_auth F fl)) \<and>
     (\<forall>c fl fl'. autoconnect_good c \<and> Config.save_autoconnect F c fl = Some (Inr (), fl') \<longrightarrow>
       settings F fl' = (load_wifi F fl, load_device F fl, Some c, load_auth F fl)) \<and>
     (\<forall>c fl fl'. auth_good c \<and> Config.save_auth F c fl = Some (Inr (), fl') \<longrightarrow>
       settings F fl' = (load_wifi F fl, load_device F fl, load_autoconnect F fl, Some c))"
  using save_wifi_settings [OF assms] save_device_settings [OF assms] save_autoconnect_settings [OF assms]
    save_auth_settings [OF assms]
  by (auto simp: settings_def)

text \<open>A valid struct saved on a blank flash is the one that is loaded back.\<close>

theorem save_updates_one_setting_witness:
  "let c = WifiConfig_new\<lparr>w_magic := WIFI_CONFIG_MAGIC, ssid_len := 3\<rparr>; fl = replicate 1024 0 in
   \<exists>fl'. Config.save_wifi demo_flash c fl = Some (Inr (), fl') \<and>
     settings demo_flash fl' = (Some c, load_device demo_flash fl, load_autoconnect demo_flash fl, load_auth demo_flash fl)"
proof -
  let ?c = "WifiConfig_new\<lparr>w_magic := WIFI_CONFIG_MAGIC, ssid_len := 3\<rparr>" and ?fl = "replicate 1024 0 :: bytes"
  have good: "wifi_good ?c" by (simp add: wifi_good_def WifiConfig_new_def wifi_is_valid_def)
  have "length (wifi_as_bytes ?c) = 104" by (simp add: wifi_as_bytes_def WifiConfig_new_def)
  then obtain fl' where "Config.save_wifi demo_flash ?c ?fl = Some (Inr (), fl')"
    by (simp add: save_wifi_def nvs_partition_def copy_prefix_def demo_flash_def WIFI_CONFIG_OFFSET_def)
  with good save_updates_one_setting [OF demo_flash_ok] show ?thesis unfolding Let_def by blast
qed

section \<open>Setting and reading back\<close>

lemma unat_of_nat_min [simp]:
  "k < 256 \<Longrightarrow> unat (of_nat (min n k) :: u8) = min n k"
  "k < 65536 \<Longrightarrow> unat (of_nat (min n k) :: u16) = min n k"
  by (simp_all add: unsigned_of_nat take_bit_nat_eq_self min_def)

lemma of_nat_min_eq_0 [simp]:
  "0 < k \<Longrightarrow> k < 256 \<Longrightarrow> (of_nat (min n k) :: u8) = 0 \<longleftrightarrow> n = 0"
  "0 < k \<Longrightarrow> k < 65536 \<Longrightarrow> (of_nat (min n k) :: u16) = 0 \<longleftrightarrow> n = 0"
  using unat_of_nat_min [of k n] by (auto simp flip: unat_eq_zero)

text \<open>Storing a string into the front of a fixed array, then reading the prefix.\<close>

lemma store_prefix:
  assumes "length dst = k"
  shows "slice s 0 (min (length s) k) = Some (take k s)"
    "copy_prefix dst (min (length s) k) (take k s) = Some (take k s @ drop (length s) dst)"
    "slice (take k s @ drop (length s) dst) 0 (min (length s) k) = Some (take k s)"
    "length (take k s @ drop (length s) dst) = k"
  using assms by (auto simp: slice_def copy_prefix_def min_def)

lemma set_credentials_result:
  assumes "length (ssid c0) = 32" "length (password c0) = 64" "length (w_padding c0) = 2"
  shows "\<exists>c. set_credentials s p c0 = Some c \<and> ssid_str c = Some (take 32 s) \<and>
     password_str c = Some (take 64 p) \<and> (wifi_is_valid c \<longleftrightarrow> s \<noteq> []) \<and> (s \<noteq> [] \<longrightarrow> wifi_good c)"
  using store_prefix [OF assms(1), of s] store_prefix [OF assms(2), of p] assms(3)
  by (auto simp: set_credentials_def ssid_str_def password_str_def wifi_is_valid_def wifi_good_def
      Let_def word_neq_0_conv [symmetric])

lemma device_set_result:
  assumes "length (dev_name c0) = 32" "length (d_pad c0) = 3"
  shows "\<exists>c. device_set n b c0 = Some c \<and> name_str c = Some (if n = [] then DEFAULT_NAME else take 32 n) \<and>
     device_baud c = (if b = 0 then DEFAULT_UART_BAUD else b) \<and> (n \<noteq> [] \<longrightarrow> device_good c)"
  using store_prefix [OF assms(1), of n] assms(2)
  by (auto simp: device_set_def name_str_def device_baud_def device_is_valid_def device_good_def
      Let_def word_neq_0_conv [symmetric])

lemma autoconnect_set_result:
  assumes "length (url c0) = 256"
  shows "\<exists>c. autoconnect_set en u c0 = Some c \<and>
     url_str c = Some (if utf8_ok (take 256 u) then take 256 u else []) \<and>
     (ac_enabled c \<longleftrightarrow> en \<and> u \<noteq> []) \<and> autoconnect_good c"
proof (cases "u = []")
  case True
  then show ?thesis
    using assms by (simp add: autoconnect_set_def url_str_def ac_enabled_def autoconnect_good_def
        autoconnect_is_valid_def slice_def copy_prefix_def Let_def)
next
  case False
  then have "min (length u) 256 \<noteq> 0" by simp
  with False store_prefix [OF assms, of u] show ?thesis
    by (auto simp: autoconnect_set_def url_str_def ac_enabled_def autoconnect_good_def autoconnect_is_valid_def
        URL_MAX_def from_utf8_def Let_def word_neq_0_conv [symmetric])
qed

text \<open>
  What is set is what is read: from the freshly built structs the setters never panic, and the
  readers give the string back, cut to the array (32 bytes of SSID or name, 64 of password, 256 of
  URL); an empty SSID leaves the struct invalid, an empty name and a zero baud rate read as the
  defaults, a URL whose cut text is not UTF-8 reads as empty, and a struct the web page stores can be
  saved (its shape and validity are those that saving needs).
\<close>

lemma setters_read_back:
  "(\<exists>c. set_credentials s p WifiConfig_new = Some c \<and> ssid_str c = Some (take 32 s) \<and>
      password_str c = Some (take 64 p) \<and> (wifi_good c \<longleftrightarrow> s \<noteq> [])) \<and>
   (\<exists>d. device_defaults = Some d \<and> name_str d = Some DEFAULT_NAME \<and>
      (\<exists>c. device_set n b d = Some c \<and> name_str c = Some (if n = [] then DEFAULT_NAME else take 32 n) \<and>
         device_baud c = (if b = 0 then DEFAULT_UART_BAUD else b) \<and> (device_good c \<longleftrightarrow> n \<noteq> []))) \<and>
   (\<exists>c. autoconnect_set en u AutoConnectConfig_new = Some c \<and>
      url_str c = Some (if utf8_ok (take 256 u) then take 256 u else []) \<and>
      (ac_enabled c \<longleftrightarrow> en \<and> u \<noteq> []) \<and> autoconnect_good c)"
proof (intro conjI)
  show "\<exists>c. set_credentials s p WifiConfig_new = Some c \<and> ssid_str c = Some (take 32 s) \<and>
      password_str c = Some (take 64 p) \<and> (wifi_good c \<longleftrightarrow> s \<noteq> [])"
    using set_credentials_result [of WifiConfig_new s p] by (auto simp: WifiConfig_new_def wifi_good_def)
next
  have "DEFAULT_NAME \<noteq> []" "take 32 DEFAULT_NAME = DEFAULT_NAME" by (simp_all add: DEFAULT_NAME_def)
  then obtain d where d: "device_defaults = Some d" "name_str d = Some DEFAULT_NAME" "device_good d"
    using device_set_result [of DeviceConfig_new DEFAULT_NAME DEFAULT_UART_BAUD]
    by (auto simp: DeviceConfig_new_def device_defaults_def)
  then have shape: "length (dev_name d) = 32" "length (d_pad d) = 3" by (simp_all add: device_good_def)
  have "n = [] \<Longrightarrow> device_set n b d = Some c \<Longrightarrow> \<not> device_good c" for c
    by (auto simp: device_set_def slice_def copy_prefix_def device_good_def device_is_valid_def)
  with device_set_result [OF shape, of n b] d(1,2)
  show "\<exists>d. device_defaults = Some d \<and> name_str d = Some DEFAULT_NAME \<and>
      (\<exists>c. device_set n b d = Some c \<and> name_str c = Some (if n = [] then DEFAULT_NAME else take 32 n) \<and>
         device_baud c = (if b = 0 then DEFAULT_UART_BAUD else b) \<and> (device_good c \<longleftrightarrow> n \<noteq> []))"
    by metis
next
  show "\<exists>c. autoconnect_set en u AutoConnectConfig_new = Some c \<and>
      url_str c = Some (if utf8_ok (take 256 u) then take 256 u else []) \<and>
      (ac_enabled c \<longleftrightarrow> en \<and> u \<noteq> []) \<and> autoconnect_good c"
    by (rule autoconnect_set_result) (simp add: AutoConnectConfig_new_def URL_MAX_def)
qed

section \<open>The web login\<close>

lemma ct_diff_value:
  "list_all (\<lambda>i. i < length a \<and> i < length b) is \<Longrightarrow>
   \<exists>d. ct_diff is a b e = Some d \<and> (d = 0 \<longleftrightarrow> e = 0 \<and> (\<forall>i \<in> set is. a ! i = b ! i))"
proof (induction "is" arbitrary: e)
  case (Cons i "is")
  then have "ct_diff (i # is) a b e = ct_diff is a b (e OR (a ! i XOR b ! i))" by (simp add: idx_def)
  moreover have "e OR (a ! i XOR b ! i) = 0 \<longleftrightarrow> e = 0 \<and> a ! i = b ! i"
    by (auto simp: bit_eq_iff bit_simps)
  ultimately show ?case using Cons by auto
qed simp

text \<open>On two 32-byte hashes the constant-time comparison is equality.\<close>

lemma ct_eq_value:
  assumes "length a = 32" "length b = 32"
  shows "ct_eq a b = Some (a = b)"
proof -
  have "(\<forall>i \<in> set [0..<32]. a ! i = b ! i) \<longleftrightarrow> a = b" using assms by (auto simp: list_eq_iff_nth_eq)
  moreover have "list_all (\<lambda>i. i < length a \<and> i < length b) [0..<32]" using assms by (simp add: list_all_iff)
  ultimately obtain d where "ct_diff [0..<32] a b 0 = Some d" "d = 0 \<longleftrightarrow> a = b"
    using ct_diff_value [of a b "[0..<32]" 0] by auto
  then show ?thesis by (simp add: ct_eq_def)
qed

lemma auth_verify_set:
  assumes "auth_good c" "auth_is_set c" "\<And>m. length (sha m) = 32" "unat (user_len c) \<le> 32"
  shows "auth_verify sha c u p =
     Some (u = take (unat (user_len c)) (au_user c) \<and> sha (salt c @ p) = pass_hash c)"
  using assms ct_eq_value [of "sha (salt c @ p)" "pass_hash c"]
  by (simp add: auth_verify_def slice_def auth_good_def salted_hash_def copy_prefix_def)

lemma auth_set_result:
  assumes "\<And>m. length (sha m) = 32"
  shows "\<exists>c. auth_set sha rnd user pw AuthConfig_new = Some c \<and> auth_good c \<and>
     (auth_is_set c \<longleftrightarrow> user \<noteq> [] \<and> pw \<noteq> []) \<and>
     (\<forall>u p. auth_verify sha c u p =
        Some (if user = [] \<or> pw = [] then True
              else u = take 32 user \<and> sha (salt c @ p) = sha (salt c @ pw)))"
proof (cases "user = [] \<or> pw = []")
  case True
  then show ?thesis
    by (auto simp: auth_set_def AuthConfig_new_def auth_good_def auth_is_valid_def auth_is_set_def auth_verify_def)
next
  case False
  let ?c = "AuthConfig_new\<lparr>au_magic := AUTH_CONFIG_MAGIC, user_len := of_nat (min (length user) 32),
      au_user := take 32 user @ drop (length user) (au_user AuthConfig_new),
      salt := fill_chunks rnd 0 (salt AuthConfig_new)\<rparr>"
  let ?c' = "?c\<lparr>pass_hash := sha (salt ?c @ pw), has_pass := 1\<rparr>"
  have len: "length (au_user AuthConfig_new) = 32" by (simp add: AuthConfig_new_def)
  have set: "auth_set sha rnd user pw AuthConfig_new = Some ?c'"
    using False store_prefix [OF len, of user] assms
    by (simp add: auth_set_def Let_def salted_hash_def copy_prefix_def [of "replicate 32 0"])
  moreover have good: "auth_good ?c'"
    using assms by (simp add: auth_good_def auth_is_valid_def AuthConfig_new_def)
  moreover have on: "auth_is_set ?c'"
    using False by (simp add: auth_is_set_def auth_is_valid_def word_neq_0_conv [symmetric])
  moreover have "take (unat (user_len ?c')) (au_user ?c') = take 32 user"
    using store_prefix(3) [OF len, of user] by (simp add: slice_def)
  moreover have "unat (user_len ?c') \<le> 32" by simp
  ultimately show ?thesis
    using False auth_verify_set [OF good on assms] by auto
qed

text \<open>A stand-in for the hash: the message itself, cut or padded to 32 bytes.\<close>

definition demo_sha :: "bytes \<Rightarrow> bytes" where
  "demo_sha m = take 32 (drop 16 m @ replicate 32 0)"

section \<open>Lengths that come from flash\<close>

text \<open>
  The length bytes that a load takes from flash are not checked: an image with the right magic
  number and an SSID length above 32 is accepted as valid, and reading the SSID then panics.  (The URL
  reader clamps its length; the readers of SSID, password, name and user do not.)
\<close>

lemma stored_ssid_length_unchecked:
  assumes "length bs = 128" "take 4 bs = le_bytes32 WIFI_CONFIG_MAGIC" "32 < bs ! 36"
  shows "\<exists>c. wifi_from_bytes bs = Some c \<and> ssid_str c = None"
proof -
  have "bs = take 4 bs @ drop 4 bs" by simp
  then have "le_word32 bs = WIFI_CONFIG_MAGIC" using assms(2) le_word_append(1) by metis
  moreover have "32 < unat (bs ! 36)" using assms(3) by (simp add: word_less_nat_alt)
  ultimately show ?thesis
    using assms(1)
    by (auto simp: wifi_from_bytes_def wifi_read_unaligned_def wifi_is_valid_def wifi_size_def ssid_str_def
        slice_def Let_def word_less_nat_alt)
qed

end
