(* ===== verification/Boot.thy ===== *)
theory Boot
  imports Config
begin

text \<open>
  The start of \<^verbatim>\<open>main\<close> in \<^verbatim>\<open>src/main.rs\<close>: the four settings are loaded from flash, missing ones replaced
  by defaults, and their content decides between configuration mode (access point) and station mode.
\<close>

section \<open>Model\<close>

record boot_state =
  boot_config_mode :: bool
  boot_wifi :: WifiConfig
  boot_device :: DeviceConfig
  boot_auto :: AutoConnectConfig
  boot_auth :: AuthConfig

definition boot :: "('fl, 'pt, 'p) flash_api \<Rightarrow> 'fl \<Rightarrow> boot_state run" where
  "boot F fl =
     (let saved = load_wifi F fl in
      do { dev \<leftarrow> (case load_device F fl of Some d \<Rightarrow> Some d | None \<Rightarrow> device_defaults);
           let auto = (case load_autoconnect F fl of Some a \<Rightarrow> a | None \<Rightarrow> AutoConnectConfig_new);
               authcfg = (case load_auth F fl of Some a \<Rightarrow> a | None \<Rightarrow> AuthConfig_new);
               config_mode = (\<not> (case saved of Some c \<Rightarrow> wifi_is_valid c | None \<Rightarrow> False))
           in Some \<lparr>boot_config_mode = config_mode,
                    boot_wifi = (case saved of Some c \<Rightarrow> c | None \<Rightarrow> WifiConfig_new),
                    boot_device = dev, boot_auto = auto, boot_auth = authcfg\<rparr> })"

datatype radio_mode = AccessPoint bytes | Station bytes bytes

definition radio_config :: "boot_state \<Rightarrow> radio_mode run" where
  "radio_config s =
     (if boot_config_mode s then do { n \<leftarrow> name_str (boot_device s); Some (AccessPoint n) }
      else do { n \<leftarrow> ssid_str (boot_wifi s); p \<leftarrow> password_str (boot_wifi s); Some (Station n p) })"

definition uart_baud :: "boot_state \<Rightarrow> u32" where
  "uart_baud s = device_baud (boot_device s)"

section \<open>What a boot finds\<close>

lemma boot_settings:
  "settings F fl = (sw, sd, sa, su) \<Longrightarrow>
   boot F fl = (case sd of Some d \<Rightarrow> Some d | None \<Rightarrow> device_defaults) \<bind> (\<lambda>dev.
     Some \<lparr>boot_config_mode = (\<not> (case sw of Some c \<Rightarrow> wifi_is_valid c | None \<Rightarrow> False)),
           boot_wifi = (case sw of Some c \<Rightarrow> c | None \<Rightarrow> WifiConfig_new), boot_device = dev,
           boot_auto = (case sa of Some a \<Rightarrow> a | None \<Rightarrow> AutoConnectConfig_new),
           boot_auth = (case su of Some a \<Rightarrow> a | None \<Rightarrow> AuthConfig_new)\<rparr>)"
  by (auto simp: settings_def boot_def Let_def)

lemma device_defaults_total: "\<exists>d. device_defaults = Some d \<and> name_str d = Some DEFAULT_NAME"
  using device_set_result [of DeviceConfig_new DEFAULT_NAME DEFAULT_UART_BAUD]
  by (auto simp: DeviceConfig_new_def device_defaults_def DEFAULT_NAME_def)

lemma boot_total: "\<exists>s. boot F fl = Some s"
proof -
  obtain d where d: "device_defaults = Some d" using device_defaults_total by blast
  show ?thesis by (cases "load_device F fl") (simp_all add: boot_def Let_def d)
qed

text \<open>A flash without settings: configuration mode under the default name, login off.\<close>

lemma boot_blank:
  assumes "settings F fl = (None, None, None, None)"
  shows "\<exists>s. boot F fl = Some s \<and> radio_config s = Some (AccessPoint DEFAULT_NAME) \<and> \<not> auth_is_set (boot_auth s) \<and>
     \<not> ac_enabled (boot_auto s)"
proof -
  obtain d where d: "device_defaults = Some d" "name_str d = Some DEFAULT_NAME" using device_defaults_total by blast
  show ?thesis
    by (simp add: d boot_settings [OF assms] radio_config_def auth_is_set_def auth_is_valid_def AuthConfig_new_def
        ac_enabled_def AutoConnectConfig_new_def)
qed

text \<open>Stored credentials: station mode with them.\<close>

lemma boot_station:
  assumes "settings F fl = (Some c, r)" "wifi_is_valid c" "ssid_str c = Some n" "password_str c = Some p"
  shows "\<exists>s. boot F fl = Some s \<and> radio_config s = Some (Station n p)"
proof -
  obtain sd sa su where r: "r = (sd, sa, su)" by (cases r) auto
  obtain dev where "(case sd of Some d \<Rightarrow> Some d | None \<Rightarrow> device_defaults) = Some dev"
    using device_defaults_total by (cases sd) auto
  then show ?thesis using assms by (simp add: boot_settings r radio_config_def)
qed

end
