(* ===== verification/Mdns.thy ===== *)
theory Mdns
  imports Config
begin

text \<open>
  \<^verbatim>\<open>src/mdns.rs\<close>: the multicast DNS responder.  The fixed-capacity vector of the heapless crate is the
  record \<open>hvec\<close> of functions; sockets are reduced to the datagrams that go in and out.
\<close>

section \<open>Model\<close>

record 'v hvec =
  vec_new :: 'v
  vec_push :: "u8 \<Rightarrow> 'v \<Rightarrow> 'v option"
  vec_extend :: "bytes \<Rightarrow> 'v \<Rightarrow> 'v option"
  vec_bytes :: "'v \<Rightarrow> bytes"

definition NAME_MAX :: nat where "NAME_MAX = 32"

definition from_be_bytes16 :: "u8 \<Rightarrow> u8 \<Rightarrow> u16" where
  "from_be_bytes16 a b = push_bit 8 (ucast a) OR ucast b"

definition append_a_record :: "'v hvec \<Rightarrow> bytes \<Rightarrow> bytes \<Rightarrow> 'v \<Rightarrow> 'v option" where
  "append_a_record V ip host r =
     do { r \<leftarrow> vec_push V (of_nat (length host)) r;
          r \<leftarrow> vec_extend V host r;
          r \<leftarrow> vec_push V 5 r;
          r \<leftarrow> vec_extend V (ascii ''local'') r;
          r \<leftarrow> vec_push V 0 r;
          r \<leftarrow> vec_extend V [0x00, 0x01] r;
          r \<leftarrow> vec_extend V [0x80, 0x01] r;
          r \<leftarrow> vec_extend V [0x00, 0x00, 0x00, 0x78] r;
          r \<leftarrow> vec_extend V [0x00, 0x04] r;
          vec_extend V ip r }"

definition build_announcement :: "'v hvec \<Rightarrow> bytes \<Rightarrow> bytes \<Rightarrow> 'v option" where
  "build_announcement V ip host =
     do { r \<leftarrow> vec_extend V [0x00, 0x00] (vec_new V);
          r \<leftarrow> vec_extend V [0x84, 0x00] r;
          r \<leftarrow> vec_extend V [0x00, 0x00] r;
          r \<leftarrow> vec_extend V [0x00, 0x01] r;
          r \<leftarrow> vec_extend V [0x00, 0x00] r;
          r \<leftarrow> vec_extend V [0x00, 0x00] r;
          append_a_record V ip host r }"

text \<open>
  The loop over the labels of the question.  \<open>Some None\<close> is the early \<^verbatim>\<open>return None\<close>; otherwise the
  position, the number of labels and the flag \<^verbatim>\<open>matches\<close> when the loop ends.
\<close>

definition label_differs :: "bytes list \<Rightarrow> nat \<Rightarrow> bytes \<Rightarrow> bool" where
  "label_differs expected i label \<longleftrightarrow>
     \<not> i < length expected \<or> length label \<noteq> length (expected ! i) \<or>
     \<not> list_all (\<lambda>(a, b). to_ascii_lower a = to_ascii_lower b) (zip label (expected ! i))"

function walk_labels :: "bytes \<Rightarrow> bytes list \<Rightarrow> nat \<Rightarrow> nat \<Rightarrow> bool \<Rightarrow> (nat \<times> nat \<times> bool) option run" where
  "walk_labels query expected pos i m =
     (if pos < length query then
        do { b \<leftarrow> idx query pos;
             if unat b = 0 then Some (Some (pos + 1, i, m))
             else if 63 < unat b \<or> length query < pos + 1 + unat b then Some None
             else do { label \<leftarrow> slice query (pos + 1) (pos + 1 + unat b);
                       walk_labels query expected (pos + 1 + unat b) (i + 1)
                         (if label_differs expected i label then False else m) } }
      else Some (Some (pos, i, m)))"
  by pat_completeness auto
termination
  by (relation "measure (\<lambda>(query, expected, pos, i, m). length query - pos)") auto

declare walk_labels.simps [simp del]

text \<open>The answer for a question already accepted.\<close>

definition response_for :: "'v hvec \<Rightarrow> bytes \<Rightarrow> bytes \<Rightarrow> bytes \<Rightarrow> 'v option run" where
  "response_for V query ip host =
     do { qid \<leftarrow> slice query 0 2;
          Some (do { r \<leftarrow> vec_extend V qid (vec_new V);
                     r \<leftarrow> vec_extend V [0x84, 0x00] r;
                     r \<leftarrow> vec_extend V [0x00, 0x00] r;
                     r \<leftarrow> vec_extend V [0x00, 0x01] r;
                     r \<leftarrow> vec_extend V [0x00, 0x00] r;
                     r \<leftarrow> vec_extend V [0x00, 0x00] r;
                     append_a_record V ip host r }) }"

definition build_response :: "'v hvec \<Rightarrow> bytes \<Rightarrow> bytes \<Rightarrow> bytes \<Rightarrow> 'v option run" where
  "build_response V query ip host =
     (if length query < 12 then Some None
      else do {
        q2 \<leftarrow> idx query 2; q3 \<leftarrow> idx query 3;
        let flags = from_be_bytes16 q2 q3 in
        if drop_bit 15 flags AND 1 \<noteq> 0 then Some None
        else do {
          q4 \<leftarrow> idx query 4; q5 \<leftarrow> idx query 5;
          if from_be_bytes16 q4 q5 = 0 then Some None
          else do {
            w \<leftarrow> walk_labels query [host, ascii ''local''] 12 0 True;
            try_opt w (\<lambda>(pos, i, m).
              if \<not> m \<or> i \<noteq> 2 \<or> length query < pos + 4 then Some None
              else do {
                a \<leftarrow> idx query pos; b \<leftarrow> idx query (pos + 1);
                c \<leftarrow> idx query (pos + 2); d \<leftarrow> idx query (pos + 3);
                let qtype = from_be_bytes16 a b; qclass = from_be_bytes16 c d in
                if (qtype \<noteq> 1 \<and> qtype \<noteq> 255) \<or> qclass AND 0x7FFF \<noteq> 1 then Some None
                else response_for V query ip host }) } } })"

text \<open>
  The parts of \<^verbatim>\<open>responder_task\<close>: waiting for connectivity over the polls of flag and address, the
  snapshot of the host name, and one round of the receive loop (the received length and sender, or an
  error; the result is the datagram sent).
\<close>

fun wait_for_ip :: "(bool \<times> bytes option) list \<Rightarrow> bytes option" where
  "wait_for_ip [] = None"
| "wait_for_ip ((wifi_connected, sta_ip) # polls) =
     (if wifi_connected then (case sta_ip of Some ip \<Rightarrow> Some ip | None \<Rightarrow> wait_for_ip polls)
      else wait_for_ip polls)"

definition mdns_host :: "DeviceConfig \<Rightarrow> bytes run" where
  "mdns_host cfg =
     do { n \<leftarrow> name_str cfg;
          let len = min (length n) NAME_MAX in
          do { src \<leftarrow> slice n 0 len;
               name_buf \<leftarrow> copy_prefix (replicate NAME_MAX 0) len src;
               slice name_buf 0 len } }"

definition responder_round ::
  "'v hvec \<Rightarrow> bytes \<Rightarrow> (nat \<times> 'a) option \<Rightarrow> bytes \<Rightarrow> bytes \<Rightarrow> ('v \<times> 'a) option run" where
  "responder_round V query received octets host =
     (case received of
        None \<Rightarrow> Some None
      | Some (len, src) \<Rightarrow>
          if len < 12 then Some None
          else do { q \<leftarrow> slice query 0 len;
                    r \<leftarrow> build_response V q octets host;
                    Some (case r of None \<Rightarrow> None | Some resp \<Rightarrow> Some (resp, src)) })"

text \<open>
  The whole task.  What \<^verbatim>\<open>recv_from\<close> delivers is a datagram, copied to the front of \<^verbatim>\<open>query\<close>, with its
  sender's address, or an error; what is sent is a vector and its destination.  The arguments after the
  configuration are the polls of flag and address, whether joining the group and binding the port
  succeed, and what is received.
\<close>

definition MDNS_PORT :: u16 where "MDNS_PORT = 5353"

definition mdns_endpoint :: "bytes \<Rightarrow> bytes \<times> u16" where
  "mdns_endpoint addr = (addr, MDNS_PORT)"

datatype udp_recv = Datagram bytes bytes | RecvError

fun responder_loop ::
  "'v hvec \<Rightarrow> bytes \<Rightarrow> bytes \<Rightarrow> bytes \<Rightarrow> udp_recv list \<Rightarrow> ('v \<times> bytes \<times> u16) list run" where
  "responder_loop V octets host query [] = Some []"
| "responder_loop V octets host query (RecvError # es) =
     do { r \<leftarrow> responder_round V query (None :: (nat \<times> bytes) option) octets host;
          sent \<leftarrow> responder_loop V octets host query es;
          Some (case r of None \<Rightarrow> sent | Some (resp, src) \<Rightarrow> (resp, mdns_endpoint src) # sent) }"
| "responder_loop V octets host query (Datagram d src # es) =
     do { query \<leftarrow> copy_prefix query (length d) d;
          r \<leftarrow> responder_round V query (Some (length d, src)) octets host;
          sent \<leftarrow> responder_loop V octets host query es;
          Some (case r of None \<Rightarrow> sent | Some (resp, src) \<Rightarrow> (resp, mdns_endpoint src) # sent) }"

definition responder_task ::
  "'v hvec \<Rightarrow> DeviceConfig \<Rightarrow> (bool \<times> bytes option) list \<Rightarrow> bool \<Rightarrow> bool \<Rightarrow> udp_recv list
   \<Rightarrow> ('v \<times> bytes \<times> u16) list run" where
  "responder_task V cfg polls joined bound es =
     (case wait_for_ip polls of
        None \<Rightarrow> Some []
      | Some octets \<Rightarrow>
          do { host \<leftarrow> mdns_host cfg;
               if \<not> joined then Some []
               else if \<not> bound then Some []
               else do { sent \<leftarrow> responder_loop V octets host (replicate 512 0) es;
                         Some (case build_announcement V octets host of
                                 Some ann \<Rightarrow> (ann, mdns_endpoint [224, 0, 0, 251]) # sent
                               | None \<Rightarrow> sent) } })"

section \<open>The vector\<close>

text \<open>A heapless vector of capacity 512: it appends what fits and refuses the rest.\<close>

definition hvec_ok :: "'v hvec \<Rightarrow> bool" where
  "hvec_ok V \<longleftrightarrow> vec_bytes V (vec_new V) = [] \<and>
     (\<forall>v bs. if length (vec_bytes V v) + length bs \<le> 512
             then (\<exists>v'. vec_extend V bs v = Some v' \<and> vec_bytes V v' = vec_bytes V v @ bs)
             else vec_extend V bs v = None) \<and>
     (\<forall>v b. vec_push V b v = vec_extend V [b] v)"

definition list_hvec :: "bytes hvec" where
  "list_hvec = \<lparr>vec_new = [], vec_push = (\<lambda>b v. if length v < 512 then Some (v @ [b]) else None),
     vec_extend = (\<lambda>bs v. if length v + length bs \<le> 512 then Some (v @ bs) else None), vec_bytes = (\<lambda>v. v)\<rparr>"

lemma list_hvec_ok: "hvec_ok list_hvec"
  by (auto simp: hvec_ok_def list_hvec_def fun_eq_iff)

definition extends :: "'v hvec \<Rightarrow> ('v \<Rightarrow> 'v option) \<Rightarrow> bytes \<Rightarrow> bool" where
  "extends V f bs \<longleftrightarrow> (\<forall>v. length (vec_bytes V v) + length bs \<le> 512 \<longrightarrow>
     (\<exists>v'. f v = Some v' \<and> vec_bytes V v' = vec_bytes V v @ bs))"

lemma extends_extend: "hvec_ok V \<Longrightarrow> extends V (vec_extend V bs) bs"
  unfolding extends_def hvec_ok_def by metis

lemma extends_push: "hvec_ok V \<Longrightarrow> extends V (vec_push V b) [b]"
  unfolding extends_def hvec_ok_def by metis

lemma extends_bind:
  "extends V f as \<Longrightarrow> extends V g bs \<Longrightarrow> extends V (\<lambda>v. f v \<bind> g) (as @ bs)"
  unfolding extends_def by (auto simp: bind_eq_Some_conv) (metis add.assoc append_assoc length_append add_leD1 option.inject bind.bind_lunit)

definition a_record :: "bytes \<Rightarrow> bytes \<Rightarrow> bytes" where
  "a_record ip host =
     of_nat (length host) # host @ 5 # ascii ''local'' @ [0, 0, 1, 0x80, 1, 0, 0, 0, 0x78, 0, 4] @ ip"

lemma extends_a_record: "hvec_ok V \<Longrightarrow> extends V (append_a_record V ip host) (a_record ip host)"
proof -
  assume V: "hvec_ok V"
  have "extends V (append_a_record V ip host)
      ([of_nat (length host)] @ host @ [5] @ ascii ''local'' @ [0] @ [0, 1] @ [0x80, 1] @ [0, 0, 0, 0x78] @ [0, 4] @ ip)"
    unfolding append_a_record_def [abs_def]
    by (intro extends_bind extends_extend [OF V] extends_push [OF V])
  then show ?thesis by (simp add: a_record_def)
qed

text \<open>Id, flags of an authoritative response, no question, one answer.\<close>

definition answer_header :: "bytes \<Rightarrow> bytes" where
  "answer_header qid = qid @ [0x84, 0, 0, 0, 0, 1, 0, 0, 0, 0]"

definition answer_from :: "'v hvec \<Rightarrow> bytes \<Rightarrow> bytes \<Rightarrow> bytes \<Rightarrow> 'v option" where
  "answer_from V qid ip host =
     do { r \<leftarrow> vec_extend V qid (vec_new V);
          r \<leftarrow> vec_extend V [0x84, 0x00] r;
          r \<leftarrow> vec_extend V [0x00, 0x00] r;
          r \<leftarrow> vec_extend V [0x00, 0x01] r;
          r \<leftarrow> vec_extend V [0x00, 0x00] r;
          r \<leftarrow> vec_extend V [0x00, 0x00] r;
          append_a_record V ip host r }"

lemma answer_from_bytes:
  assumes V: "hvec_ok V" and small: "length qid = 2" "length ip = 4" "length host \<le> 32"
  shows "\<exists>r. answer_from V qid ip host = Some r \<and> vec_bytes V r = answer_header qid @ a_record ip host"
proof -
  have "extends V (\<lambda>v. vec_extend V qid v \<bind> (\<lambda>r. vec_extend V [0x84, 0x00] r \<bind> (\<lambda>r. vec_extend V [0x00, 0x00] r \<bind>
      (\<lambda>r. vec_extend V [0x00, 0x01] r \<bind> (\<lambda>r. vec_extend V [0x00, 0x00] r \<bind> (\<lambda>r. vec_extend V [0x00, 0x00] r \<bind>
        append_a_record V ip host))))))
      (qid @ [0x84, 0x00] @ [0x00, 0x00] @ [0x00, 0x01] @ [0x00, 0x00] @ [0x00, 0x00] @ a_record ip host)"
    by (intro extends_bind extends_extend [OF V] extends_a_record [OF V])
  then show ?thesis
    using V small unfolding extends_def hvec_ok_def
    by (auto simp: answer_from_def answer_header_def a_record_def dest!: spec [of _ "vec_new V"])
qed

section \<open>The question\<close>

definition wire_labels :: "bytes list \<Rightarrow> bytes" where
  "wire_labels ls = concat (map (\<lambda>l. of_nat (length l) # l) ls)"

lemma wire_labels_simps [simp]:
  "wire_labels [] = []" "wire_labels (l # ls) = of_nat (length l) # l @ wire_labels ls"
  by (simp_all add: wire_labels_def)

definition label_ok :: "bytes \<Rightarrow> bool" where
  "label_ok l \<longleftrightarrow> l \<noteq> [] \<and> length l \<le> 63"

fun labels_match :: "bytes list \<Rightarrow> nat \<Rightarrow> bytes list \<Rightarrow> bool" where
  "labels_match expected i [] = True"
| "labels_match expected i (l # ls) \<longleftrightarrow>
     i < length expected \<and> eq_ignore_ascii_case l (expected ! i) \<and> labels_match expected (i + 1) ls"

lemma label_differs_iff:
  "label_differs expected i l \<longleftrightarrow> \<not> (i < length expected \<and> eq_ignore_ascii_case l (expected ! i))"
  by (auto simp: label_differs_def eq_ignore_ascii_case_def list_eq_iff_zip_eq list_all_iff zip_map1 zip_map2
      split_beta dest: map_eq_imp_length_eq)

text \<open>One step of the walk, seen from the suffix that starts at the position.\<close>

lemma walk_labels_step:
  assumes "drop pos q = n # l @ r" "unat n = length l"
  shows "walk_labels q expected pos i m =
     (if l = [] then Some (Some (pos + 1, i, m))
      else if 63 < length l then Some None
      else walk_labels q expected (pos + 1 + length l) (i + 1) (m \<and> \<not> label_differs expected i l))"
proof -
  have pos: "pos < length q" and n: "q ! pos = n"
    using assms(1) by (auto simp: nth_via_drop not_le[symmetric] dest: drop_eq_Nil2[THEN iffD2])
  have "drop (pos + 1) q = l @ r" using assms(1) pos by (metis Cons_nth_drop_Suc Suc_eq_plus1 list.inject)
  then have "take (length l) (drop (pos + 1) q) = l" and len: "pos + 1 + length l \<le> length q"
    using length_drop [of "pos + 1" q] pos by auto
  then have "slice q (pos + 1) (pos + 1 + length l) = Some l" by (simp add: slice_def)
  then show ?thesis
    using pos n len assms(2) by (subst walk_labels.simps) (auto simp: idx_def)
qed

lemma drop_label:
  assumes "drop pos q = n # l @ r"
  shows "drop (pos + 1 + length l) q = r"
proof -
  have "drop (1 + length l) (drop pos q) = r" using assms by simp
  then show ?thesis by (simp add: add.commute add.left_commute)
qed

lemma unat_label_len: "length l \<le> 63 \<Longrightarrow> unat (of_nat (length l) :: u8) = length l"
  by (simp add: unsigned_of_nat take_bit_nat_eq_self)

lemma walk_labels_complete:
  "list_all label_ok ls \<Longrightarrow> drop pos q = wire_labels ls @ 0 # rest \<Longrightarrow>
   walk_labels q expected pos i m =
     Some (Some (pos + length (wire_labels ls) + 1, i + length ls, m \<and> labels_match expected i ls))"
proof (induction ls arbitrary: pos i m)
  case Nil
  then show ?case using walk_labels_step [of pos q 0 "[]" rest] by simp
next
  case (Cons l ls)
  then have d: "drop pos q = of_nat (length l) # l @ (wire_labels ls @ 0 # rest)" by simp
  have l: "l \<noteq> []" "length l \<le> 63" using Cons.prems(1) by (auto simp: label_ok_def)
  have "walk_labels q expected pos i m = walk_labels q expected (pos + 1 + length l) (i + 1) (m \<and> \<not> label_differs expected i l)"
    using walk_labels_step [OF d unat_label_len [OF l(2)]] l by simp
  also have "\<dots> = Some (Some (pos + 1 + length l + length (wire_labels ls) + 1, i + 1 + length ls,
      (m \<and> \<not> label_differs expected i l) \<and> labels_match expected (i + 1) ls))"
    using Cons.prems(1) drop_label [OF d] by (intro Cons.IH) simp_all
  finally show ?case by (auto simp: label_differs_iff)
qed

text \<open>A complete label at the position: what the walk cuts out of the query there.\<close>

lemma label_at:
  assumes "pos < length q" "q ! pos = n" "n \<noteq> 0" "unat n \<le> 63" "pos + 1 + unat n \<le> length q"
  shows "\<exists>l. label_ok l \<and> unat n = length l \<and> n = of_nat (length l) \<and> slice q (pos + 1) (pos + 1 + unat n) = Some l \<and>
     drop pos q = n # l @ drop (pos + 1 + unat n) q"
proof -
  let ?l = "take (unat n) (drop (pos + 1) q)"
  have len: "length ?l = unat n" using assms(5) by simp
  have "drop pos q = n # drop (pos + 1) q" using Cons_nth_drop_Suc [OF assms(1)] assms(2) by simp
  also have "drop (pos + 1) q = ?l @ drop (unat n) (drop (pos + 1) q)" by (simp only: append_take_drop_id)
  also have "drop (unat n) (drop (pos + 1) q) = drop (pos + 1 + unat n) q" by (simp add: add.commute)
  finally have "drop pos q = n # ?l @ drop (pos + 1 + unat n) q" .
  moreover have "label_ok ?l" using len assms(3,4) by (auto simp: label_ok_def unat_eq_zero simp flip: length_0_conv)
  moreover have "slice q (pos + 1) (pos + 1 + unat n) = Some ?l" using assms(5) by (simp add: slice_def)
  ultimately show ?thesis using len by (intro exI [of _ ?l]) simp
qed

lemma walk_labels_sound:
  "pos \<le> length q \<Longrightarrow> walk_labels q expected pos i m = Some (Some (p', i', m')) \<Longrightarrow>
   \<exists>ls. list_all label_ok ls \<and> i' = i + length ls \<and> m' = (m \<and> labels_match expected i ls) \<and>
     ((\<exists>rest. drop pos q = wire_labels ls @ 0 # rest \<and> p' = pos + length (wire_labels ls) + 1) \<or> p' = length q)"
proof (induction q expected pos i m rule: walk_labels.induct)
  case (1 q expected pos i m)
  consider "pos = length q" | "pos < length q" "q ! pos = 0 \<or> 63 < unat (q ! pos) \<or> length q < pos + 1 + unat (q ! pos)"
    | n where "pos < length q" "q ! pos = n" "n \<noteq> 0" "unat n \<le> 63" "pos + 1 + unat n \<le> length q"
    using 1(2) by (metis le_neq_implies_less not_le)
  then show ?case
  proof cases
    case 1
    then have "walk_labels q expected pos i m = Some (Some (pos, i, m))" by (subst walk_labels.simps) simp
    with "1.prems" 1 show ?thesis by (intro exI [of _ "[]"]) auto
  next
    case 2
    then have "walk_labels q expected pos i m = (if q ! pos = 0 then Some (Some (pos + 1, i, m)) else Some None)"
      by (subst walk_labels.simps) (auto simp: idx_def unat_eq_zero)
    with "1.prems" have "q ! pos = 0" "p' = pos + 1" "i' = i" "m' = m" by (auto split: if_splits)
    with 2(1) show ?thesis by (intro exI [of _ "[]"]) (simp flip: Cons_nth_drop_Suc)
  next
    case (3 n)
    obtain l where l: "label_ok l" "unat n = length l" "n = of_nat (length l)" "slice q (pos + 1) (pos + 1 + unat n) = Some l"
      "drop pos q = n # l @ drop (pos + 1 + unat n) q"
      using label_at [OF 3] by blast
    let ?m = "m \<and> \<not> label_differs expected i l"
    have if_eq: "(if label_differs expected i l then False else m) = ?m" by simp
    have step: "walk_labels q expected pos i m = walk_labels q expected (pos + 1 + length l) (i + 1) ?m"
      using walk_labels_step [OF l(5,2)] l(1) by (simp add: label_ok_def)
    have "\<exists>ls. list_all label_ok ls \<and> i' = i + 1 + length ls \<and> m' = (?m \<and> labels_match expected (i + 1) ls) \<and>
        ((\<exists>rest. drop (pos + 1 + unat n) q = wire_labels ls @ 0 # rest \<and>
           p' = pos + 1 + unat n + length (wire_labels ls) + 1) \<or> p' = length q)"
      using "1.IH" [OF 3(1), of n l] 3 l(1) [unfolded label_ok_def] l(2,4) "1.prems"(2) step
      by (simp add: idx_def unat_eq_zero if_eq)
    then obtain ls where "list_all label_ok ls" "i' = i + 1 + length ls" "m' = (?m \<and> labels_match expected (i + 1) ls)"
      "(\<exists>rest. drop (pos + 1 + unat n) q = wire_labels ls @ 0 # rest \<and>
         p' = pos + 1 + unat n + length (wire_labels ls) + 1) \<or> p' = length q" by blast
    then show ?thesis using l(1,2,3,5) by (intro exI [of _ "l # ls"]) (auto simp: label_differs_iff)
  qed
qed

text \<open>
  What the responder should answer: a query (not a response) with a question section that starts with
  the name \<open>host.local\<close>, upper and lower case alike, type A or ANY, class IN (the top bit aside).
\<close>

definition asks_for :: "bytes \<Rightarrow> bytes \<Rightarrow> bool" where
  "asks_for host q \<longleftrightarrow>
     12 \<le> length q \<and> \<not> bit (q ! 2) 7 \<and> \<not> (q ! 4 = 0 \<and> q ! 5 = 0) \<and>
     (\<exists>l1 l2 a b c d rest. drop 12 q = wire_labels [l1, l2] @ 0 # a # b # c # d # rest \<and>
        eq_ignore_ascii_case l1 host \<and> eq_ignore_ascii_case l2 (ascii ''local'') \<and>
        from_be_bytes16 a b \<in> {1, 255} \<and> from_be_bytes16 c d AND 0x7FFF = 1)"

lemma asks_forI:
  assumes "12 \<le> length q" "\<not> bit (q ! 2) 7" "\<not> (q ! 4 = 0 \<and> q ! 5 = 0)"
    "drop 12 q = wire_labels [l1, l2] @ 0 # a # b # c # d # rest"
    "eq_ignore_ascii_case l1 host" "eq_ignore_ascii_case l2 (ascii ''local'')"
    "from_be_bytes16 a b \<in> {1, 255}" "from_be_bytes16 c d AND 0x7FFF = 1"
  shows "asks_for host q"
  using assms unfolding asks_for_def by blast

lemma flags_response_bit: "drop_bit 15 (from_be_bytes16 a b) AND 1 \<noteq> 0 \<longleftrightarrow> bit a 7"
proof -
  have "drop_bit 15 (from_be_bytes16 a b) AND 1 \<noteq> 0 \<longleftrightarrow> bit (from_be_bytes16 a b) 15"
    by (simp add: and_one_eq bit_iff_odd_drop_bit odd_iff_mod_2_eq_one)
  also have "\<dots> \<longleftrightarrow> bit a 7"
    by (auto simp: from_be_bytes16_def bit_simps dest: bit_imp_le_length)
  finally show ?thesis .
qed

lemma from_be_bytes16_eq_0: "from_be_bytes16 a b = 0 \<longleftrightarrow> a = 0 \<and> b = 0"
proof
  assume z: "from_be_bytes16 a b = 0"
  have "\<not> bit a n" for n
  proof
    assume "bit a n"
    then have "n < 8" using bit_imp_le_length by fastforce
    with \<open>bit a n\<close> have "bit (from_be_bytes16 a b) (n + 8)" by (simp add: from_be_bytes16_def bit_simps)
    then show False using z by simp
  qed
  moreover have "\<not> bit b n" for n
  proof
    assume "bit b n"
    then have "n < 8" using bit_imp_le_length by fastforce
    with \<open>bit b n\<close> have "bit (from_be_bytes16 a b) n" by (simp add: from_be_bytes16_def bit_simps)
    then show False using z by simp
  qed
  ultimately show "a = 0 \<and> b = 0" by (simp add: bit_eq_iff)
qed (simp add: from_be_bytes16_def)

lemma eq_ignore_ascii_case_length: "eq_ignore_ascii_case a b \<Longrightarrow> length a = length b"
  by (auto simp: eq_ignore_ascii_case_def dest: map_eq_imp_length_eq)

lemma response_for_eq: "2 \<le> length q \<Longrightarrow> response_for V q ip host = Some (answer_from V (take 2 q) ip host)"
  by (simp add: response_for_def answer_from_def slice_def)

text \<open>The part after the label walk.\<close>

definition finish_response :: "'v hvec \<Rightarrow> bytes \<Rightarrow> bytes \<Rightarrow> bytes \<Rightarrow> nat \<times> nat \<times> bool \<Rightarrow> 'v option run" where
  "finish_response V query ip host = (\<lambda>(pos, i, m).
     if \<not> m \<or> i \<noteq> 2 \<or> length query < pos + 4 then Some None
     else if from_be_bytes16 (query ! pos) (query ! (pos + 1)) \<notin> {1, 255} \<or>
       from_be_bytes16 (query ! (pos + 2)) (query ! (pos + 3)) AND 0x7FFF \<noteq> 1 then Some None
     else response_for V query ip host)"

lemma build_response_eq:
  "build_response V q ip host =
     (if length q < 12 \<or> bit (q ! 2) 7 \<or> (q ! 4 = 0 \<and> q ! 5 = 0) then Some None
      else do { w \<leftarrow> walk_labels q [host, ascii ''local''] 12 0 True; try_opt w (finish_response V q ip host) })"
proof -
  have "(\<lambda>(pos, i, m).
      if \<not> m \<or> i \<noteq> 2 \<or> length q < pos + 4 then Some None
      else do {
        a \<leftarrow> idx q pos; b \<leftarrow> idx q (pos + 1); c \<leftarrow> idx q (pos + 2); d \<leftarrow> idx q (pos + 3);
        let qtype = from_be_bytes16 a b; qclass = from_be_bytes16 c d in
        if (qtype \<noteq> 1 \<and> qtype \<noteq> 255) \<or> qclass AND 0x7FFF \<noteq> 1 then Some None
        else response_for V q ip host }) = finish_response V q ip host"
    by (auto simp: finish_response_def fun_eq_iff idx_def Let_def)
  then show ?thesis
    by (simp add: build_response_def idx_def Let_def flags_response_bit from_be_bytes16_eq_0 del: ascii_simps)
qed

lemma walk_labels_total:
  "pos \<le> length q \<Longrightarrow> \<exists>w. walk_labels q expected pos i m = Some w"
proof (induction q expected pos i m rule: walk_labels.induct)
  case (1 q expected pos i m)
  then show ?case by (subst walk_labels.simps) (auto simp: idx_def slice_def)
qed

text \<open>The four bytes after the name of the question.\<close>

lemma question_bytes:
  assumes "drop pos q = a # b # c # d # rest"
  shows "pos + 4 \<le> length q \<and> q ! pos = a \<and> q ! (pos + 1) = b \<and> q ! (pos + 2) = c \<and> q ! (pos + 3) = d"
proof -
  have "length (drop pos q) = 4 + length rest" unfolding assms by simp
  then have len: "pos + 4 \<le> length q" unfolding length_drop by linarith
  then show ?thesis
    using assms nth_drop [of pos q 0] nth_drop [of pos q 1] nth_drop [of pos q 2] nth_drop [of pos q 3] by simp
qed

lemma finish_response_asks:
  assumes "12 \<le> length q" "\<not> bit (q ! 2) 7" "\<not> (q ! 4 = 0 \<and> q ! 5 = 0)"
    and m: "m = labels_match [host, ascii ''local''] 0 ls"
    and walk: "(\<exists>rest. drop 12 q = wire_labels ls @ 0 # rest \<and> pos = 12 + length (wire_labels ls) + 1) \<or> pos = length q"
    and accepted: "finish_response V q ip host (pos, length ls, m) \<noteq> Some None"
  shows "asks_for host q \<and> finish_response V q ip host (pos, length ls, m) = response_for V q ip host"
proof -
  have good: m "length ls = 2" "pos + 4 \<le> length q"
    and ty: "from_be_bytes16 (q ! pos) (q ! (pos + 1)) \<in> {1, 255}" "from_be_bytes16 (q ! (pos + 2)) (q ! (pos + 3)) AND 0x7FFF = 1"
    and fin: "finish_response V q ip host (pos, length ls, m) = response_for V q ip host"
    using accepted by (auto simp: finish_response_def split: if_splits)
  obtain l1 l2 where l: "ls = [l1, l2]" using good(2) by (auto simp: numeral_2_eq_2 length_Suc_conv)
  obtain rest where d: "drop 12 q = wire_labels ls @ 0 # rest" and pos: "pos = 12 + length (wire_labels ls) + 1"
    using walk good(3) by auto
  have rest: "rest = drop pos q" using arg_cong [OF d, of "drop (length (wire_labels ls) + 1)"] pos by simp
  have "4 \<le> length rest" using rest good(3) by simp
  then obtain a b c e rest' where r: "rest = a # b # c # e # rest'" by (auto simp: numeral_eq_Suc Suc_le_length_iff)
  have "q ! pos = a" "q ! (pos + 1) = b" "q ! (pos + 2) = c" "q ! (pos + 3) = e"
    using question_bytes [of pos q a b c e rest'] r rest by simp_all
  with ty have ty': "from_be_bytes16 a b \<in> {1, 255}" "from_be_bytes16 c e AND 0x7FFF = 1" by simp_all
  have "drop 12 q = wire_labels [l1, l2] @ 0 # a # b # c # e # rest'" using d l r by simp
  moreover have "eq_ignore_ascii_case l1 host" "eq_ignore_ascii_case l2 (ascii ''local'')"
    using good(1) m l by (simp_all del: ascii_simps)
  ultimately show ?thesis using assms(1-3) ty' fin asks_forI [of q l1 l2 a b c e rest' host] by blast
qed

lemma build_response_declines_or_answers:
  "build_response V q ip host = Some None \<or>
   (asks_for host q \<and> build_response V q ip host = Some (answer_from V (take 2 q) ip host))"
proof (cases "length q < 12 \<or> bit (q ! 2) 7 \<or> (q ! 4 = 0 \<and> q ! 5 = 0)")
  case True
  then show ?thesis by (auto simp: build_response_eq)
next
  case False
  then obtain w where w: "walk_labels q [host, ascii ''local''] 12 0 True = Some w"
    using walk_labels_total [of 12 q] by fastforce
  show ?thesis
  proof (cases w)
    case None
    with w show ?thesis by (simp add: build_response_eq)
  next
    case (Some t)
    obtain pos i m where t: "t = (pos, i, m)" by (cases t)
    from False w Some t obtain ls where ls: "i = 0 + length ls" "m = (True \<and> labels_match [host, ascii ''local''] 0 ls)"
      "(\<exists>rest. drop 12 q = wire_labels ls @ 0 # rest \<and> pos = 12 + length (wire_labels ls) + 1) \<or> pos = length q"
      using walk_labels_sound [of 12 q] by (metis not_le)
    have res: "build_response V q ip host = finish_response V q ip host (pos, i, m)"
      using False w Some t by (auto simp add: build_response_eq simp del: ascii_simps)
    show ?thesis
      using False res ls finish_response_asks [of q m host ls pos V ip] response_for_eq [of q V ip host]
      by (auto simp del: ascii_simps)
  qed
qed

lemma asks_for_answered:
  assumes "asks_for host q" "host \<noteq> []" "length host \<le> 63"
  shows "build_response V q ip host = Some (answer_from V (take 2 q) ip host)"
proof -
  from assms(1) obtain l1 l2 a b c d rest where
    q: "12 \<le> length q" "\<not> bit (q ! 2) 7" "\<not> (q ! 4 = 0 \<and> q ! 5 = 0)"
    and dr: "drop 12 q = wire_labels [l1, l2] @ 0 # a # b # c # d # rest"
    and l: "eq_ignore_ascii_case l1 host" "eq_ignore_ascii_case l2 (ascii ''local'')"
    and ty: "from_be_bytes16 a b \<in> {1, 255}" "from_be_bytes16 c d AND 0x7FFF = 1"
    unfolding asks_for_def by blast
  let ?pos = "12 + length (wire_labels [l1, l2]) + 1"
  have "length l1 = length host" "length l2 = 5" using l by (auto dest: eq_ignore_ascii_case_length)
  then have "list_all label_ok [l1, l2]" using assms(2,3) by (auto simp: label_ok_def)
  from walk_labels_complete [OF this dr, of "[host, ascii ''local'']" 0 True] l
  have w: "walk_labels q [host, ascii ''local''] 12 0 True = Some (Some (?pos, 2, True))"
    by (simp del: ascii_simps wire_labels_simps)
  have "drop ?pos q = drop (length (wire_labels [l1, l2]) + 1) (drop 12 q)"
    by (simp only: drop_drop ac_simps)
  also have "\<dots> = a # b # c # d # rest" by (simp only: dr drop_append) simp
  finally have r: "drop ?pos q = a # b # c # d # rest" .
  have "finish_response V q ip host (?pos, 2, True) = response_for V q ip host"
    unfolding finish_response_def prod.case using question_bytes [OF r] ty by (simp del: wire_labels_simps)
  then have "build_response V q ip host = response_for V q ip host"
    unfolding build_response_eq w using q by (auto simp del: wire_labels_simps)
  then show ?thesis using q(1) by (simp add: response_for_eq)
qed

lemma build_response_spec:
  assumes "hvec_ok V" "host \<noteq> []" "length host \<le> 32" "length ip = 4"
  shows "\<exists>res. build_response V q ip host = Some res \<and> (res \<noteq> None \<longleftrightarrow> asks_for host q) \<and>
     (\<forall>r. res = Some r \<longrightarrow> vec_bytes V r = answer_header (take 2 q) @ a_record ip host)"
proof (cases "asks_for host q")
  case True
  then have "length (take 2 q) = 2" by (simp add: asks_for_def)
  then obtain r where "answer_from V (take 2 q) ip host = Some r" "vec_bytes V r = answer_header (take 2 q) @ a_record ip host"
    using answer_from_bytes [OF assms(1) _ assms(4,3)] by blast
  then show ?thesis using True asks_for_answered [OF True assms(2), of V ip] assms(3) by simp
next
  case False
  then show ?thesis using build_response_declines_or_answers [of V q ip host] by auto
qed

text \<open>The announcement is built for every configured name, as the record that is answered later.\<close>

lemma announcement_bytes:
  assumes "hvec_ok V" "length ip = 4" "mdns_host cfg = Some host"
  shows "\<exists>r. build_announcement V ip host = Some r \<and>
     vec_bytes V r = answer_header [0, 0] @ a_record ip host \<and> length (vec_bytes V r) \<le> 512 \<and>
     (\<exists>n. name_str cfg = Some n \<and> host = take 32 n)"
proof -
  obtain n where n: "name_str cfg = Some n" using assms(3) by (auto simp: mdns_host_def bind_eq_Some_conv)
  then have h: "host = take 32 n" "length host \<le> 32"
    using assms(3) by (auto simp: mdns_host_def slice_def copy_prefix_def NAME_MAX_def min_def split: if_splits)
  have "build_announcement V ip host = answer_from V [0, 0] ip host"
    by (simp add: build_announcement_def answer_from_def)
  moreover obtain r where "answer_from V [0, 0] ip host = Some r" "vec_bytes V r = answer_header [0, 0] @ a_record ip host"
    using answer_from_bytes [OF assms(1) _ assms(2) h(2), of "[0, 0]"] by auto
  moreover have "length (answer_header [0, 0] @ a_record ip host) \<le> 512"
    using h(2) assms(2) by (simp add: answer_header_def a_record_def)
  ultimately show ?thesis using n h(1) by simp
qed

lemma mdns_host_name:
  assumes "name_str cfg = Some n"
  shows "mdns_host cfg = Some (take 32 n)"
  using assms by (simp add: mdns_host_def slice_def copy_prefix_def NAME_MAX_def min_def)

section \<open>The task\<close>

text \<open>The datagrams that should go out in answer to what comes in.\<close>

fun expected_answers :: "bytes \<Rightarrow> bytes \<Rightarrow> udp_recv list \<Rightarrow> (bytes \<times> bytes \<times> u16) list" where
  "expected_answers ip host [] = []"
| "expected_answers ip host (RecvError # es) = expected_answers ip host es"
| "expected_answers ip host (Datagram d src # es) =
     (if asks_for host d then [(answer_header (take 2 d) @ a_record ip host, src, 5353)] else []) @ expected_answers ip host es"

fun recv_fits :: "udp_recv \<Rightarrow> bool" where
  "recv_fits RecvError \<longleftrightarrow> True"
| "recv_fits (Datagram d src) \<longleftrightarrow> length d \<le> 512"

definition sent_bytes :: "'v hvec \<Rightarrow> ('v \<times> bytes \<times> u16) list \<Rightarrow> (bytes \<times> bytes \<times> u16) list" where
  "sent_bytes V sent = map (\<lambda>(v, dest). (vec_bytes V v, dest)) sent"

lemma responder_round_spec:
  assumes "hvec_ok V" "host \<noteq> []" "length host \<le> 32" "length ip = 4" "length d \<le> length query"
  shows "\<exists>r. responder_round V (d @ drop (length d) query) (Some (length d, src)) ip host = Some r \<and>
     (case r of None \<Rightarrow> \<not> asks_for host d
      | Some (v, dest) \<Rightarrow> asks_for host d \<and> vec_bytes V v = answer_header (take 2 d) @ a_record ip host \<and> dest = src)"
proof (cases "length d < 12")
  case True
  then show ?thesis by (simp add: responder_round_def asks_for_def)
next
  case False
  have "slice (d @ drop (length d) query) 0 (length d) = Some d" by (simp add: slice_def)
  moreover obtain res where "build_response V d ip host = Some res" "res \<noteq> None \<longleftrightarrow> asks_for host d"
    "\<And>r. res = Some r \<Longrightarrow> vec_bytes V r = answer_header (take 2 d) @ a_record ip host"
    using build_response_spec [OF assms(1-4), of d] by blast
  ultimately show ?thesis
    using False by (cases res) (simp_all add: responder_round_def)
qed

lemma responder_loop_spec:
  assumes "hvec_ok V" "host \<noteq> []" "length host \<le> 32" "length ip = 4" "list_all recv_fits es" "length query = 512"
  shows "\<exists>sent. responder_loop V ip host query es = Some sent \<and> sent_bytes V sent = expected_answers ip host es"
  using assms(5,6)
proof (induction es arbitrary: query)
  case Nil
  then show ?case by (simp add: sent_bytes_def)
next
  case (Cons e es)
  show ?case
  proof (cases e)
    case RecvError
    with Cons show ?thesis by (auto simp: responder_round_def)
  next
    case (Datagram d src)
    then have d: "length d \<le> 512" "list_all recv_fits es" using Cons.prems by simp_all
    then have q: "copy_prefix query (length d) d = Some (d @ drop (length d) query)" "length (d @ drop (length d) query) = 512"
      using Cons.prems(2) by (simp_all add: copy_prefix_def)
    obtain sent where s: "responder_loop V ip host (d @ drop (length d) query) es = Some sent"
      "sent_bytes V sent = expected_answers ip host es" using Cons.IH [OF d(2) q(2)] by blast
    have "length d \<le> length query" using d(1) Cons.prems(2) by simp
    from responder_round_spec [OF assms(1-4) this, of src] q(1) s Datagram show ?thesis
      by (auto simp: sent_bytes_def mdns_endpoint_def MDNS_PORT_def split: option.splits)
  qed
qed

text \<open>
  C38.  The mDNS task as a whole.  It says nothing until WiFi is up with an address, and nothing when
  joining the group or binding the port fails.  Otherwise it first announces the configured device
  name with this address to the multicast group, and then, whatever datagrams and errors arrive, sends
  exactly one answer for each query for its own name, in order, to port 5353 of the host that asked; it
  never panics.
\<close>

theorem mdns_responder_task:
  assumes "hvec_ok V" "name_str cfg = Some n" "n \<noteq> []" "list_all recv_fits es"
    "\<And>ip. wait_for_ip polls = Some ip \<Longrightarrow> length ip = 4"
  shows "\<exists>sent. responder_task V cfg polls joined bound es = Some sent \<and>
     sent_bytes V sent =
       (case wait_for_ip polls of
          None \<Rightarrow> []
        | Some ip \<Rightarrow>
            if joined \<and> bound then
              (answer_header [0, 0] @ a_record ip (take 32 n), [224, 0, 0, 251], 5353) # expected_answers ip (take 32 n) es
            else [])"
proof (cases "wait_for_ip polls")
  case None
  then show ?thesis by (simp add: responder_task_def sent_bytes_def)
next
  case (Some ip)
  have ip: "length ip = 4" using assms(5) [OF Some] .
  have host: "mdns_host cfg = Some (take 32 n)" by (rule mdns_host_name [OF assms(2)])
  obtain sent where s: "responder_loop V ip (take 32 n) (replicate 512 0) es = Some sent"
    "sent_bytes V sent = expected_answers ip (take 32 n) es"
    using responder_loop_spec [OF assms(1) _ _ ip assms(4), of "take 32 n" "replicate 512 0"] assms(3) by auto
  obtain r where "build_announcement V ip (take 32 n) = Some r" "vec_bytes V r = answer_header [0, 0] @ a_record ip (take 32 n)"
    using announcement_bytes [OF assms(1) ip host] by blast
  with Some host s show ?thesis
    by (auto simp: responder_task_def sent_bytes_def mdns_endpoint_def MDNS_PORT_def)
qed

theorem mdns_responder_task_witness:
  "\<exists>sent. responder_task list_hvec DeviceConfig_new [(False, None), (True, None), (True, Some [10, 0, 0, 1])] True True
       [RecvError, Datagram (replicate 40 0) [10, 0, 0, 3],
        Datagram ([0, 7, 0, 0, 0, 1, 0, 0, 0, 0, 0, 0] @ 9 # DEFAULT_NAME @ 5 # ascii ''LOCAL'' @ [0, 0, 1, 0, 1]) [10, 0, 0, 2]] = Some sent \<and>
     sent_bytes list_hvec sent =
       [(answer_header [0, 0] @ a_record [10, 0, 0, 1] DEFAULT_NAME, [224, 0, 0, 251], 5353),
        (answer_header [0, 7] @ a_record [10, 0, 0, 1] DEFAULT_NAME, [10, 0, 0, 2], 5353)]"
proof -
  let ?q = "[0, 7, 0, 0, 0, 1, 0, 0, 0, 0, 0, 0] @ 9 # DEFAULT_NAME @ 5 # ascii ''LOCAL'' @ [0, 0, 1, 0, 1 :: u8]"
  let ?es = "[RecvError, Datagram (replicate 40 0) [10, 0, 0, 3], Datagram ?q [10, 0, 0, 2]]"
  let ?polls = "[(False, None), (True, None), (True, Some [10, 0, 0, 1 :: u8])]"
  have n: "name_str DeviceConfig_new = Some DEFAULT_NAME" "DEFAULT_NAME \<noteq> []" "take 32 DEFAULT_NAME = DEFAULT_NAME"
    "length DEFAULT_NAME = 9"
    by (simp_all add: name_str_def DeviceConfig_new_def DEFAULT_NAME_def)
  have asks: "asks_for DEFAULT_NAME ?q"
    by (rule asks_forI [of _ DEFAULT_NAME "ascii ''LOCAL''" 0 1 0 1 "[]"])
      (simp_all add: eq_ignore_ascii_case_def to_ascii_lower_def from_be_bytes16_def n(4))
  have silent: "\<not> asks_for DEFAULT_NAME (replicate 40 0)" by (simp add: asks_for_def)
  have fit: "list_all recv_fits ?es" by (simp add: n(4))
  have up: "wait_for_ip ?polls = Some [10, 0, 0, 1]" by simp
  then have ip: "length ip = 4" if "wait_for_ip ?polls = Some ip" for ip using that by auto
  have expect: "expected_answers [10, 0, 0, 1] DEFAULT_NAME ?es = [(answer_header [0, 7] @ a_record [10, 0, 0, 1] DEFAULT_NAME, [10, 0, 0, 2], 5353)]"
    using asks silent by simp
  from mdns_responder_task [where polls = ?polls and joined = True and bound = True, OF list_hvec_ok n(1,2) fit ip] show ?thesis
    unfolding up n(3) option.case expect by simp
qed

end
