(* ===== verification/Autoconnect.thy ===== *)
theory Autoconnect
  imports Ports Config
begin

text \<open>
  \<^verbatim>\<open>src/autoconnect.rs\<close>: the outbound connection.  URL and key parsing, the key extraction and the
  pinning verifier that the TLS library calls back, and one iteration of \<^verbatim>\<open>autoconnect_task\<close>.

  Outside the repository, and so arguments of the definitions: the DNS resolver, the TCP socket, the
  TLS library, the hash and signature primitives.  What the TLS library does with the verifier is
  stated by the predicate \<open>tls_ok\<close>.
\<close>

section \<open>Model: status codes and random bytes\<close>

definition DISABLED :: u8 where "DISABLED = 0"
definition CONNECTING :: u8 where "CONNECTING = 1"
definition CONNECTED :: u8 where "CONNECTED = 2"
definition DNS_FAIL :: u8 where "DNS_FAIL = 3"
definition TCP_FAIL :: u8 where "TCP_FAIL = 4"
definition TLS_FAIL :: u8 where "TLS_FAIL = 5"
definition BAD_CONFIG :: u8 where "BAD_CONFIG = 6"
definition PIN_MISMATCH :: u8 where "PIN_MISMATCH = 7"

definition PIN_MISMATCH_BACKOFF_S :: nat where "PIN_MISMATCH_BACKOFF_S = 90"

definition state_str :: "u8 \<Rightarrow> bytes" where
  "state_str code =
     (if code = DISABLED then ascii ''disabled''
      else if code = CONNECTING then ascii ''connecting''
      else if code = CONNECTED then ascii ''connected''
      else if code = DNS_FAIL then ascii ''DNS lookup failed''
      else if code = TCP_FAIL then ascii ''TCP connect failed''
      else if code = TLS_FAIL then ascii ''TLS failed (cert/handshake)''
      else if code = BAD_CONFIG then ascii ''bad URL or pubkey''
      else if code = PIN_MISMATCH then ascii ''server pubkey mismatch''
      else ascii ''?'')"

text \<open>\<^verbatim>\<open>EspRng\<close>: \<open>rnd k\<close> is the \<open>k\<close>-th word of the hardware generator; the number is the next one to draw.\<close>

definition next_u64 :: "(nat \<Rightarrow> u32) \<Rightarrow> nat \<Rightarrow> u64 \<times> nat" where
  "next_u64 rnd k = (push_bit 32 (ucast (rnd k)) OR ucast (rnd (k + 1)), k + 2)"

definition fill_bytes :: "(nat \<Rightarrow> u32) \<Rightarrow> nat \<Rightarrow> bytes \<Rightarrow> bytes" where
  "fill_bytes rnd k dest = fill_chunks rnd k dest"

section \<open>Model: the pinning verifier\<close>

definition extract_p256_pubkey :: "bytes \<Rightarrow> bytes option" where
  "extract_p256_pubkey der =
     (case find_sub [0x03, 0x42, 0x00, 0x04] der 0 of
        None \<Rightarrow> None
      | Some i \<Rightarrow>
          let start = i + 3
          in if start + 65 \<le> length der then Some (take 65 (drop start der)) else None)"

datatype CertificateEntry = X509 bytes | OtherEntry

datatype TlsError = InvalidCertificate | DecodeError | InvalidSignature | InvalidSignatureScheme

datatype SignatureScheme = EcdsaSecp256r1Sha256 | OtherScheme

text \<open>\<open>'h\<close> is a running SHA-256, \<open>'k\<close> a verifying key, \<open>'s\<close> a parsed signature.\<close>

record ('h, 'k, 's) crypto =
  hash_finalize :: "'h \<Rightarrow> bytes"
  from_sec1_bytes :: "bytes \<Rightarrow> 'k option"
  sig_from_der :: "bytes \<Rightarrow> 's option"
  key_verify :: "'k \<Rightarrow> bytes \<Rightarrow> 's \<Rightarrow> bool"

record 'h PinnedVerifier =
  pin :: "bytes option"
  server_key :: "bytes option"
  transcript :: "'h option"

text \<open>The statics the verifier and the task write: status code, last server key, TCP clients.\<close>

record ac_globals =
  AUTOCONNECT_STATE :: u8
  SERVER_PUBKEY :: "bytes option"
  AC_CLIENTS :: u32

definition set_state :: "u8 \<Rightarrow> ac_globals \<Rightarrow> ac_globals" where
  "set_state s g = g\<lparr>AUTOCONNECT_STATE := s\<rparr>"

definition PinnedVerifier_new :: "bytes option \<Rightarrow> 'h PinnedVerifier" where
  "PinnedVerifier_new p = \<lparr>pin = p, server_key = None, transcript = None\<rparr>"

definition verify_certificate ::
  "'h \<Rightarrow> CertificateEntry list \<Rightarrow> 'h PinnedVerifier \<Rightarrow> ac_globals \<Rightarrow> 'h PinnedVerifier \<times> ac_globals" where
  "verify_certificate hash entries v g =
     (let v = v\<lparr>server_key := (case entries of X509 der # _ \<Rightarrow> extract_p256_pubkey der | _ \<Rightarrow> None)\<rparr>;
          g = g\<lparr>SERVER_PUBKEY := server_key v\<rparr>
      in (v\<lparr>transcript := Some hash\<rparr>, g))"

text \<open>\<^verbatim>\<open>dst[a..b].copy_from_slice(src)\<close>.\<close>

definition copy_range :: "'a list \<Rightarrow> nat \<Rightarrow> nat \<Rightarrow> 'a list \<Rightarrow> 'a list run" where
  "copy_range dst a b src =
     (if a \<le> b \<and> b \<le> length dst \<and> length src = b - a then Some (take a dst @ src @ drop b dst) else None)"

text \<open>The signed data of the server's CertificateVerify.\<close>

definition cv_message :: "bytes \<Rightarrow> bytes run" where
  "cv_message hash =
     do { msg \<leftarrow> copy_range (replicate 130 0) 0 64 (replicate 64 0x20);
          msg \<leftarrow> copy_range msg 64 98 (ascii ''TLS 1.3, server CertificateVerify'' @ [0]);
          copy_range msg 98 130 hash }"

definition check_signature ::
  "('h, 'k, 's) crypto \<Rightarrow> SignatureScheme \<Rightarrow> bytes \<Rightarrow> bytes \<Rightarrow> bytes \<Rightarrow> TlsError + unit" where
  "check_signature C scheme key msg sig =
     (case scheme of
        EcdsaSecp256r1Sha256 \<Rightarrow>
          (case from_sec1_bytes C key of
             None \<Rightarrow> Inl DecodeError
           | Some vk \<Rightarrow>
               (case sig_from_der C sig of
                  None \<Rightarrow> Inl DecodeError
                | Some s \<Rightarrow> if key_verify C vk msg s then Inr () else Inl InvalidSignature))
      | OtherScheme \<Rightarrow> Inl InvalidSignatureScheme)"

definition verify_signature ::
  "('h, 'k, 's) crypto \<Rightarrow> SignatureScheme \<Rightarrow> bytes \<Rightarrow> 'h PinnedVerifier \<Rightarrow> ac_globals
   \<Rightarrow> ((TlsError + unit) \<times> 'h PinnedVerifier \<times> ac_globals) run" where
  "verify_signature C scheme sig v g =
     (case server_key v of
        None \<Rightarrow> Some (if pin v \<noteq> None then Inl InvalidCertificate else Inr (), v, g)
      | Some key \<Rightarrow>
          if pin v \<noteq> None \<and> pin v \<noteq> Some key then
            Some (Inl InvalidCertificate, v, set_state PIN_MISMATCH g)
          else
            (case transcript v of
               None \<Rightarrow> Some (Inl DecodeError, v, g)
             | Some hash \<Rightarrow>
                 do { msg \<leftarrow> cv_message (hash_finalize C hash);
                      Some (check_signature C scheme key msg sig, v\<lparr>transcript := None\<rparr>, g) }))"

section \<open>Model: the URL\<close>

record ParsedUrl =
  u_tls :: bool
  u_host :: bytes
  u_port :: u16
  u_pubkey :: "bytes option"
  u_token :: "bytes option"

text \<open>The loop over the query's parameters; a later one replaces an earlier one.\<close>

fun parse_params :: "bytes list \<Rightarrow> bytes option \<times> bytes option \<Rightarrow> bytes option \<times> bytes option" where
  "parse_params [] acc = acc"
| "parse_params (kv # kvs) (pubkey, token) =
     parse_params kvs
       (case split_once (asc CHR ''='') kv of
          None \<Rightarrow> (pubkey, token)
        | Some (k, v) \<Rightarrow>
            if k = ascii ''pubkey'' then (Some v, token)
            else if k = ascii ''token'' then (pubkey, Some v)
            else (pubkey, token))"

definition parse_url :: "bytes \<Rightarrow> ParsedUrl option" where
  "parse_url s =
     do { (scheme, rest) \<leftarrow> split_once_str (ascii ''://'') s;
          tls \<leftarrow> (if scheme = ascii ''tls'' then Some True
                 else if scheme = ascii ''tcp'' then Some False else None);
          let (before_q, query) =
                (case split_once (asc CHR ''?'') rest of
                   Some (b, q) \<Rightarrow> (b, Some q)
                 | None \<Rightarrow> (rest, None));
              authority = trim_end_char (asc CHR ''/'') before_q in
          do { (host, port_str) \<leftarrow> rsplit_once (asc CHR '':'') authority;
               port \<leftarrow> parse_uint 65535 port_str;
               if host = [] then None
               else let (pubkey, token) =
                          (case query of
                             Some q \<Rightarrow> parse_params (split_char (asc CHR ''&'') q) (None, None)
                           | None \<Rightarrow> (None, None))
                    in Some \<lparr>u_tls = tls, u_host = host, u_port = of_nat port, u_pubkey = pubkey,
                             u_token = token\<rparr> } }"

definition hexval :: "u8 \<Rightarrow> u8 option" where
  "hexval c =
     (if asc CHR ''0'' \<le> c \<and> c \<le> asc CHR ''9'' then Some (c - asc CHR ''0'')
      else if asc CHR ''a'' \<le> c \<and> c \<le> asc CHR ''f'' then Some (c - asc CHR ''a'' + 10)
      else if asc CHR ''A'' \<le> c \<and> c \<le> asc CHR ''F'' then Some (c - asc CHR ''A'' + 10)
      else None)"

fun parse_pubkey_loop :: "nat list \<Rightarrow> bytes \<Rightarrow> bytes \<Rightarrow> bytes option run" where
  "parse_pubkey_loop [] b out = Some (Some out)"
| "parse_pubkey_loop (i # is) b out =
     do { c \<leftarrow> idx b (2 * i);
          try_opt (hexval c) (\<lambda>hi.
            do { d \<leftarrow> idx b (2 * i + 1);
                 try_opt (hexval d) (\<lambda>lo.
                   do { out \<leftarrow> upd out i (push_bit 4 hi OR lo);
                        parse_pubkey_loop is b out }) }) }"

definition parse_pubkey :: "bytes \<Rightarrow> bytes option run" where
  "parse_pubkey hex =
     (if length hex \<noteq> 130 then Some None
      else do { r \<leftarrow> parse_pubkey_loop [0..<65] hex (replicate 65 0);
                try_opt r (\<lambda>out.
                  do { x \<leftarrow> idx out 0; if x \<noteq> 4 then Some None else Some (Some out) }) })"

section \<open>Model: resolving, dialling, serving\<close>

datatype IpAddress = Ipv4 bytes | OtherIp

text \<open>\<^verbatim>\<open>str::parse::<Ipv4Addr>\<close> of the standard library: four decimal octets without leading zeros.\<close>

definition parse_octet :: "bytes \<Rightarrow> u8 option" where
  "parse_octet s =
     (if s = [] \<or> 3 < length s \<or> (hd s = asc CHR ''0'' \<and> 1 < length s) then None
      else map_option of_nat (dec_acc 255 0 s))"

definition parse_ipv4 :: "bytes \<Rightarrow> bytes option" where
  "parse_ipv4 s =
     (case map parse_octet (split_char (asc CHR ''.'') s) of
        [Some a, Some b, Some c, Some d] \<Rightarrow> Some [a, b, c, d]
      | _ \<Rightarrow> None)"

fun first_ipv4 :: "IpAddress list \<Rightarrow> bytes option" where
  "first_ipv4 [] = None"
| "first_ipv4 (Ipv4 v # as) = Some v"
| "first_ipv4 (OtherIp # as) = first_ipv4 as"

definition resolve :: "(bytes \<Rightarrow> unit + IpAddress list) \<Rightarrow> bytes \<Rightarrow> bytes option" where
  "resolve dns host =
     (case parse_ipv4 host of
        Some ip \<Rightarrow> Some ip
      | None \<Rightarrow> (case dns host of Inl e \<Rightarrow> None | Inr addrs \<Rightarrow> first_ipv4 addrs))"

definition send_token :: "bytes option \<Rightarrow> conn_op list" where
  "send_token token =
     (case token of
        Some tok \<Rightarrow> [WriteAll (ascii ''H''), WriteAll tok, WriteAll [CR], FlushConn]
      | None \<Rightarrow> [])"

text \<open>
  The messages of the server in the TLS handshake of one iteration: the running hash over the handshake
  up to and including its certificate, the entries of that certificate message, and the scheme and
  signature of its CertificateVerify message.
\<close>

record 'h handshake =
  hs_transcript :: 'h
  hs_entries :: "CertificateEntry list"
  hs_scheme :: SignatureScheme
  hs_signature :: bytes

text \<open>
  What the world answers during one iteration: WiFi flag, resolver, dialling, free subscriber slots,
  the TLS handshake (its messages, and the call that checks them with the verifier it is given) and the
  events of the link.
\<close>

record 'h ac_world =
  wifi_connected :: bool
  dns_query :: "bytes \<Rightarrow> unit + IpAddress list"
  tcp_connect :: "bytes \<Rightarrow> u16 \<Rightarrow> bool"
  live_subs :: nat
  tls_handshake :: "'h handshake"
  tls_open :: "'h PinnedVerifier \<Rightarrow> ac_globals \<Rightarrow> bool \<times> ac_globals"
  link_events :: "(nat \<times> Act) list"

text \<open>
  How an iteration ends: asleep for some seconds before the next one, or still serving the link.
\<close>

datatype ac_outcome = Sleeps nat | Serving

definition ac_serve ::
  "('t, 'f) twai_hal \<Rightarrow> 'h ac_world \<Rightarrow> bytes option \<Rightarrow> ac_globals \<Rightarrow> 't bridge
   \<Rightarrow> (ac_globals \<times> 't bridge \<times> conn_op list \<times> bool) run" where
  "ac_serve H W token g b =
     (let g = set_state CONNECTED g; hello = send_token token in
      do { (b, ops, stopped) \<leftarrow> run_port H Tcp (link_events W) b;
           Some (g, b, hello @ ops, stopped) })"

definition ac_after :: "ac_globals \<Rightarrow> ac_outcome \<times> ac_globals" where
  "ac_after g =
     (let g = g\<lparr>AC_CLIENTS := AC_CLIENTS g - 1\<rparr>;
          backoff = (if AUTOCONNECT_STATE g = PIN_MISMATCH then PIN_MISMATCH_BACKOFF_S else 3)
      in (Sleeps backoff, g))"

text \<open>The pin of the URL: \<open>None\<close> when a key is given that is not valid or not used over TLS.\<close>

definition ac_pin :: "ParsedUrl \<Rightarrow> bytes option option run" where
  "ac_pin u =
     (case u_pubkey u of
        Some h \<Rightarrow> do { k \<leftarrow> parse_pubkey h; Some (if k \<noteq> None \<and> u_tls u then Some k else None) }
      | None \<Rightarrow> Some (Some None))"

text \<open>The part of an iteration after the TCP connection is up.\<close>

definition ac_linked ::
  "('t, 'f) twai_hal \<Rightarrow> 'h ac_world \<Rightarrow> ParsedUrl \<Rightarrow> bytes option \<Rightarrow> ac_globals \<Rightarrow> 't bridge
   \<Rightarrow> (ac_outcome \<times> ac_globals \<times> 't bridge \<times> conn_op list) run" where
  "ac_linked H W u p g b =
     (if \<not> live_subs W < RX_BUS_SUBS then None
      else let g = g\<lparr>AC_CLIENTS := AC_CLIENTS g + 1\<rparr> in
      do { (g, b, ops, over) \<leftarrow>
             (if u_tls u then
                (let (opened, g) = tls_open W (PinnedVerifier_new p) g in
                 if opened then ac_serve H W (u_token u) g b
                 else Some (if AUTOCONNECT_STATE g \<noteq> PIN_MISMATCH then set_state TLS_FAIL g else g, b, [], True))
              else ac_serve H W (u_token u) g b);
           if \<not> over then Some (Serving, g, b, ops)
           else (let (out, g) = ac_after g in Some (out, g, b, ops)) })"

definition autoconnect_round ::
  "('t, 'f) twai_hal \<Rightarrow> 'h ac_world \<Rightarrow> AutoConnectConfig \<Rightarrow> ac_globals \<Rightarrow> 't bridge
   \<Rightarrow> (ac_outcome \<times> ac_globals \<times> 't bridge \<times> conn_op list) run" where
  "autoconnect_round H W cfg g b =
     (if \<not> ac_enabled cfg then Some (Sleeps 3, set_state DISABLED g, b, [])
      else if \<not> wifi_connected W then Some (Sleeps 3, g, b, [])
      else do { s \<leftarrow> url_str cfg;
        case parse_url s of
          None \<Rightarrow> Some (Sleeps 30, set_state BAD_CONFIG g, b, [])
        | Some u \<Rightarrow> do {
            pinned \<leftarrow> ac_pin u;
            case pinned of
              None \<Rightarrow> Some (Sleeps 30, set_state BAD_CONFIG g, b, [])
            | Some p \<Rightarrow>
                (let g = set_state CONNECTING g in
                 case resolve (dns_query W) (u_host u) of
                   None \<Rightarrow> Some (Sleeps 5, set_state DNS_FAIL g, b, [])
                 | Some ip \<Rightarrow>
                     if \<not> tcp_connect W ip (u_port u) then Some (Sleeps 5, set_state TCP_FAIL g, b, [])
                     else ac_linked H W u p g b) } })"

text \<open>
  The loop of \<^verbatim>\<open>autoconnect_task\<close> over the iterations it comes to, each with the settings and the world it
  finds: the pauses made, whether the last link is still up, and what was sent.
\<close>

fun autoconnect_task ::
  "('t, 'f) twai_hal \<Rightarrow> (AutoConnectConfig \<times> 'h ac_world) list \<Rightarrow> ac_globals \<Rightarrow> 't bridge
   \<Rightarrow> (nat list \<times> bool \<times> ac_globals \<times> 't bridge \<times> conn_op list) run" where
  "autoconnect_task H [] g b = Some ([], False, g, b, [])"
| "autoconnect_task H ((cfg, W) # its) g b =
     do { (out, g, b, ops) \<leftarrow> autoconnect_round H W cfg g b;
          case out of
            Serving \<Rightarrow> Some ([], True, g, b, ops)
          | Sleeps n \<Rightarrow> do { (pauses, serving, g, b, ops') \<leftarrow> autoconnect_task H its g b;
                             Some (n # pauses, serving, g, b, ops @ ops') } }"

section \<open>Keys\<close>

interpretation autoconnect_hex: hex_codec hexval hex_digit
proof -
  have "hexval = nibble" by (simp add: fun_eq_iff hexval_def nibble_def)
  then show "hex_codec hexval hex_digit" using slcan_hex.hex_codec_axioms by simp
qed

lemma drop_two: "2 * k + 1 < length b \<Longrightarrow> drop (2 * k) b = b ! (2 * k) # b ! (2 * k + 1) # drop (2 * Suc k) b"
  by (simp add: Cons_nth_drop_Suc)

lemma parse_pubkey_loop_eq:
  assumes "length b = 2 * n" "length out = n" "k \<le> n"
  shows "parse_pubkey_loop [k..<n] b out =
     Some (case unhex_pairs hexval (drop (2 * k) b) of None \<Rightarrow> None | Some bs \<Rightarrow> Some (take k out @ bs))"
  using assms
proof (induction "n - k" arbitrary: k out)
  case 0
  then show ?case by simp
next
  case (Suc m)
  then have k: "k < n" "2 * k + 1 < length b" by auto
  have IH: "parse_pubkey_loop [Suc k..<n] b (out[k := v]) =
      Some (case unhex_pairs hexval (drop (2 * Suc k) b) of None \<Rightarrow> None | Some bs \<Rightarrow> Some (take (Suc k) (out[k := v]) @ bs))"
    for v using Suc k by (intro Suc.hyps(1)) auto
  have "take (Suc k) (out[k := v]) = take k out @ [v]" for v
    using k Suc.prems by (simp add: take_Suc_conv_app_nth)
  with IH k Suc.prems show ?case
    unfolding upt_conv_Cons [OF k(1)] drop_two [OF k(2)] parse_pubkey_loop.simps
    by (auto simp: idx_def upd_def join_nibbles_def split: option.splits)
qed

lemma parse_pubkey_eq:
  "parse_pubkey h = Some (if length h = 130 then
     (case unhex_pairs hexval h of None \<Rightarrow> None | Some k \<Rightarrow> if k ! 0 = 4 then Some k else None) else None)"
proof (cases "length h = 130")
  case True
  have "parse_pubkey_loop [0..<65] h (replicate 65 0) = Some (unhex_pairs hexval h)"
    using True parse_pubkey_loop_eq [of h 65 "replicate 65 0" 0] by (simp add: option.case_eq_if)
  moreover have "length k = 65" if "unhex_pairs hexval h = Some k" for k
    using True length_unhex_pairs [OF that] by simp
  ultimately show ?thesis using True by (auto simp: parse_pubkey_def idx_def split: option.splits)
qed (simp add: parse_pubkey_def)

lemma extract_p256_pubkey_shape:
  assumes "extract_p256_pubkey der = Some k"
  shows "length k = 65 \<and> k ! 0 = 4"
proof -
  from assms obtain i where i: "find_sub [0x03, 0x42, 0x00, 0x04] der 0 = Some i" "i + 68 \<le> length der"
    "k = take 65 (drop (i + 3) der)"
    by (auto simp: extract_p256_pubkey_def Let_def split: option.splits if_splits)
  have "take 4 (drop i der) = [0x03, 0x42, 0x00, 0x04]" using find_sub_sound [OF i(1)] by (simp add: numeral_eq_Suc)
  then have "take 4 (drop i der) ! 3 = 4" by simp
  then have "der ! (i + 3) = 4" using i(2) by simp
  then show ?thesis using i by simp
qed

text \<open>
  The key shown can be pinned: whatever certificate a server presents, a key extracted from it
  is a 65-byte uncompressed point, and its upper-case hexadecimal form, as the status page shows it,
  is accepted by \<^verbatim>\<open>parse_pubkey\<close> and gives exactly that key back.  Conversely an accepted text has 130
  digits and is, up to case, the form of its key; no text makes the parser panic.
\<close>

lemma extracted_key_is_pinnable:
  "(\<forall>der k. extract_p256_pubkey der = Some k \<longrightarrow>
      length k = 65 \<and> parse_pubkey (hex_pairs hex_digit k) = Some (Some k)) \<and>
   (\<forall>h. parse_pubkey h \<noteq> None) \<and>
   (\<forall>h k. parse_pubkey h = Some (Some k) \<longrightarrow>
      length h = 130 \<and> k ! 0 = 4 \<and> hex_pairs hex_digit k = map to_upper h)"
proof (intro conjI allI impI)
  fix der k
  assume e: "extract_p256_pubkey der = Some k"
  then show "length k = 65" using extract_p256_pubkey_shape by blast
  then show "parse_pubkey (hex_pairs hex_digit k) = Some (Some k)"
    using extract_p256_pubkey_shape [OF e] autoconnect_hex.unhex_hex_pairs [of k] by (simp add: parse_pubkey_eq)
next
  fix h show "parse_pubkey h \<noteq> None" by (simp add: parse_pubkey_eq)
next
  fix h k
  assume "parse_pubkey h = Some (Some k)"
  then have "length h = 130" "unhex_pairs hexval h = Some k" "k ! 0 = 4"
    by (auto simp: parse_pubkey_eq split: if_splits option.splits)
  then show "length h = 130" "k ! 0 = 4" "hex_pairs hex_digit k = map to_upper h"
    using autoconnect_hex.hex_unhex_pairs by blast+
qed

section \<open>URLs\<close>

lemma split_once_str_scheme:
  assumes "length s = 3" "asc CHR '':'' \<notin> set s"
  shows "split_once_str (ascii ''://'') (s @ ascii ''://'' @ r) = Some (s, r)"
proof -
  obtain a b c where s: "s = [a, b, c]" using assms(1) by (auto simp: numeral_3_eq_3 length_Suc_conv)
  show ?thesis using assms(2) by (auto simp: s strip_prefix_def)
qed

lemma split_char_no: "c \<notin> set s \<Longrightarrow> split_char c s = [s]"
  by (induction s) auto

lemma split_char_append: "c \<notin> set a \<Longrightarrow> split_char c (a @ c # b) = a # split_char c b"
  by (induction a) auto

lemma show_nat_not_in: "\<not> is_ascii_digit c \<Longrightarrow> c \<notin> set (show_nat n)"
  using show_nat_digits [of n] by (auto simp: list_all_iff)

lemma trim_end_char_slash:
  "s \<noteq> [] \<Longrightarrow> last s \<noteq> c \<Longrightarrow> trim_end_char c (s @ [c]) = s"
  by (cases s rule: rev_cases) (simp_all add: trim_end_char_def)

lemma last_show_nat: "is_ascii_digit (last (show_nat n))"
  using show_nat_digits [of n] by (auto simp: list_all_iff)

lemma parse_url_documented:
  assumes "host \<noteq> []" "asc CHR ''?'' \<notin> set host" "asc CHR ''&'' \<notin> set key" "asc CHR ''&'' \<notin> set tok"
  shows "parse_url ((if tls then ascii ''tls'' else ascii ''tcp'') @ ascii ''://'' @ host @ asc CHR '':'' #
        show_nat (unat port) @ [asc CHR ''/'', asc CHR ''?''] @ ascii ''pubkey='' @ key @ ascii ''&token='' @ tok) =
      Some \<lparr>u_tls = tls, u_host = host, u_port = port, u_pubkey = Some key, u_token = Some tok\<rparr> \<and>
    parse_url ((if tls then ascii ''tls'' else ascii ''tcp'') @ ascii ''://'' @ host @ asc CHR '':'' #
        show_nat (unat port) @ [asc CHR ''/'']) =
      Some \<lparr>u_tls = tls, u_host = host, u_port = port, u_pubkey = None, u_token = None\<rparr>"
proof -
  let ?scheme = "if tls then ascii ''tls'' else ascii ''tcp''"
  let ?auth = "host @ asc CHR '':'' # show_nat (unat port)"
  let ?q = "ascii ''pubkey='' @ key @ ascii ''&token='' @ tok"
  have scheme: "split_once_str (ascii ''://'') (?scheme @ ascii ''://'' @ r) = Some (?scheme, r)" for r
    by (rule split_once_str_scheme) auto
  have nodigit: "\<not> is_ascii_digit (asc CHR ''?'')" "\<not> is_ascii_digit (asc CHR '':'')" "\<not> is_ascii_digit (asc CHR ''/'')"
    by (simp_all add: is_ascii_digit_def)
  have noq: "asc CHR ''?'' \<notin> set (?auth @ [asc CHR ''/''])"
    using assms(2) show_nat_not_in [OF nodigit(1)] by auto
  then have query: "split_once (asc CHR ''?'') ((?auth @ [asc CHR ''/'']) @ asc CHR ''?'' # ?q) = Some (?auth @ [asc CHR ''/''], ?q)"
    and none: "split_once (asc CHR ''?'') (?auth @ [asc CHR ''/'']) = None"
    using split_once_append [of "asc CHR ''?''" "?auth @ [asc CHR ''/'']" ?q] split_once_None by blast+
  have "last ?auth \<noteq> asc CHR ''/''" using last_show_nat [of "unat port"] nodigit(3) by auto
  then have trim: "trim_end_char (asc CHR ''/'') (?auth @ [asc CHR ''/'']) = ?auth"
    by (intro trim_end_char_slash) simp_all
  have hostport: "rsplit_once (asc CHR '':'') ?auth = Some (host, show_nat (unat port))"
    by (rule rsplit_once_append) (rule show_nat_not_in [OF nodigit(2)])
  have port: "parse_uint 65535 (show_nat (unat port)) = Some (unat port)"
    using unsigned_less [of port, where 'a = nat] by (intro parse_show) simp
  have "split_char (asc CHR ''&'') ?q = [ascii ''pubkey='' @ key, ascii ''token='' @ tok]"
    using split_char_append [of "asc CHR ''&''" "ascii ''pubkey='' @ key" "ascii ''token='' @ tok"]
      split_char_no [of "asc CHR ''&''" "ascii ''token='' @ tok"] assms(3,4) by simp
  then have params: "parse_params (split_char (asc CHR ''&'') ?q) (None, None) = (Some key, Some tok)" by simp
  have "?scheme = ascii ''tls'' \<longleftrightarrow> tls" "?scheme = ascii ''tcp'' \<longleftrightarrow> \<not> tls" by simp_all
  then show ?thesis
    unfolding parse_url_def scheme
    using query none trim hostport port params assms(1)
    by (cases tls) (simp_all del: ascii_simps add: Let_def)
qed

text \<open>
  C33.  A well-formed URL is understood: for both schemes, any non-empty host without a question mark
  (colons and slashes in it included), any port, key and token text without an ampersand, the URL of
  the documented form is parsed into exactly these parts; without the query there is no key and no
  token.
\<close>

theorem parse_url_roundtrip:
  assumes "host \<noteq> []" "asc CHR ''?'' \<notin> set host" "asc CHR ''&'' \<notin> set key" "asc CHR ''&'' \<notin> set tok"
  shows "parse_url ((if tls then ascii ''tls'' else ascii ''tcp'') @ ascii ''://'' @ host @ asc CHR '':'' #
        show_nat (unat port) @ [asc CHR ''/'', asc CHR ''?''] @ ascii ''pubkey='' @ key @ ascii ''&token='' @ tok) =
      Some \<lparr>u_tls = tls, u_host = host, u_port = port, u_pubkey = Some key, u_token = Some tok\<rparr> \<and>
    parse_url ((if tls then ascii ''tls'' else ascii ''tcp'') @ ascii ''://'' @ host @ asc CHR '':'' #
        show_nat (unat port) @ [asc CHR ''/'']) =
      Some \<lparr>u_tls = tls, u_host = host, u_port = port, u_pubkey = None, u_token = None\<rparr>"
  using assms by (rule parse_url_documented)

theorem parse_url_roundtrip_witness:
  "parse_url (ascii ''tls'' @ ascii ''://'' @ ascii ''a.b'' @ asc CHR '':'' # show_nat (unat (8443 :: u16)) @
      [asc CHR ''/'', asc CHR ''?''] @ ascii ''pubkey='' @ ascii ''04'' @ ascii ''&token='' @ ascii ''xy'') =
    Some \<lparr>u_tls = True, u_host = ascii ''a.b'', u_port = 8443, u_pubkey = Some (ascii ''04''), u_token = Some (ascii ''xy'')\<rparr>"
  using parse_url_roundtrip [of "ascii ''a.b''" "ascii ''04''" "ascii ''xy''" True 8443] by simp

section \<open>Pinning\<close>

text \<open>
  What the task relies on of the TLS library: a handshake that succeeds has given the verifier the
  certificate of this handshake with the running hash up to it, and then its CertificateVerify
  signature, and both were accepted; a handshake that fails has changed the statics at most through
  these two callbacks.
\<close>

definition tls_ok :: "('h, 'k, 's) crypto \<Rightarrow> 'h ac_world \<Rightarrow> bool" where
  "tls_ok C W \<longleftrightarrow>
     (let hs = tls_handshake W in
      (\<forall>v g g'. tls_open W v g = (True, g') \<longrightarrow>
        (\<exists>v1 g1 v2. verify_certificate (hs_transcript hs) (hs_entries hs) v g = (v1, g1) \<and>
           verify_signature C (hs_scheme hs) (hs_signature hs) v1 g1 = Some (Inr (), v2, g'))) \<and>
      (\<forall>v g g'. tls_open W v g = (False, g') \<longrightarrow>
        g' = g \<or>
        (\<exists>v1 g1. verify_certificate (hs_transcript hs) (hs_entries hs) v g = (v1, g1) \<and>
           (g' = g1 \<or> (\<exists>r v2. verify_signature C (hs_scheme hs) (hs_signature hs) v1 g1 = Some (r, v2, g'))))))"

text \<open>
  The server has proved in this handshake that it holds the key: the first entry of its certificate
  message carries the key, and the signature of its CertificateVerify message verifies under it over the
  text that TLS 1.3 prescribes for this handshake's transcript.
\<close>

definition server_proved :: "('h, 'k, 's) crypto \<Rightarrow> 'h handshake \<Rightarrow> bytes \<Rightarrow> bool" where
  "server_proved C hs key \<longleftrightarrow>
     (\<exists>der rest vk s. hs_entries hs = X509 der # rest \<and> extract_p256_pubkey der = Some key \<and>
        hs_scheme hs = EcdsaSecp256r1Sha256 \<and> from_sec1_bytes C key = Some vk \<and> sig_from_der C (hs_signature hs) = Some s \<and>
        key_verify C vk
          (replicate 64 0x20 @ ascii ''TLS 1.3, server CertificateVerify'' @ 0 # hash_finalize C (hs_transcript hs)) s)"

lemma cv_message_Some: "cv_message h = Some msg \<Longrightarrow>
    msg = replicate 64 0x20 @ ascii ''TLS 1.3, server CertificateVerify'' @ 0 # h"
  by (auto simp: cv_message_def copy_range_def bind_eq_Some_conv numeral_eq_Suc split: if_splits)

lemma check_signature_accepts:
  "check_signature C scheme key msg sig = Inr () \<Longrightarrow>
   scheme = EcdsaSecp256r1Sha256 \<and>
   (\<exists>vk s. from_sec1_bytes C key = Some vk \<and> sig_from_der C sig = Some s \<and> key_verify C vk msg s)"
  by (auto simp: check_signature_def split: SignatureScheme.splits option.splits if_splits)

lemma verify_certificate_fields:
  "verify_certificate hash entries v g = (v1, g1) \<Longrightarrow>
   pin v1 = pin v \<and> AUTOCONNECT_STATE g1 = AUTOCONNECT_STATE g \<and> AC_CLIENTS g1 = AC_CLIENTS g \<and>
   transcript v1 = Some hash \<and>
   (server_key v1 = Some k \<longrightarrow> (\<exists>der rest. entries = X509 der # rest \<and> extract_p256_pubkey der = Some k))"
  by (auto simp: verify_certificate_def Let_def split: list.splits CertificateEntry.splits)

lemma verify_signature_globals:
  "verify_signature C scheme sig v g = Some (r, v', g') \<Longrightarrow>
   g' = g \<or> (g' = set_state PIN_MISMATCH g \<and> r \<noteq> Inr ())"
  by (auto simp: verify_signature_def bind_eq_Some_conv split: option.splits if_splits)

lemma verify_signature_accepts:
  assumes "verify_signature C scheme sig v g = Some (Inr (), v', g')" "pin v = Some key"
  shows "server_key v = Some key \<and> (\<exists>hash msg. transcript v = Some hash \<and> cv_message (hash_finalize C hash) = Some msg \<and>
     check_signature C scheme key msg sig = Inr ())"
  using assms
  by (auto simp: verify_signature_def bind_eq_Some_conv split: option.splits if_splits)

lemma tls_open_pinned:
  assumes "tls_ok C W" "tls_open W (PinnedVerifier_new (Some key)) g = (True, g')"
  shows "server_proved C (tls_handshake W) key"
proof -
  let ?hs = "tls_handshake W"
  from assms obtain v1 g1 v2 where
    c: "verify_certificate (hs_transcript ?hs) (hs_entries ?hs) (PinnedVerifier_new (Some key)) g = (v1, g1)"
    and s: "verify_signature C (hs_scheme ?hs) (hs_signature ?hs) v1 g1 = Some (Inr (), v2, g')"
    unfolding tls_ok_def Let_def by blast
  note fields = verify_certificate_fields [OF c]
  have p: "pin v1 = Some key" using fields by (simp add: PinnedVerifier_new_def)
  from verify_signature_accepts [OF s p] fields obtain msg where k: "server_key v1 = Some key"
    and m: "cv_message (hash_finalize C (hs_transcript ?hs)) = Some msg"
      "check_signature C (hs_scheme ?hs) key msg (hs_signature ?hs) = Inr ()" by auto
  obtain der rest where "hs_entries ?hs = X509 der # rest" "extract_p256_pubkey der = Some key" using fields k by blast
  with check_signature_accepts [OF m(2)] cv_message_Some [OF m(1)]
  show ?thesis unfolding server_proved_def by blast
qed

lemma tls_open_globals:
  assumes "tls_ok C W" "tls_open W v g = (ok, g')"
  shows "AC_CLIENTS g' = AC_CLIENTS g \<and> (AUTOCONNECT_STATE g' = AUTOCONNECT_STATE g \<or>
     (\<not> ok \<and> AUTOCONNECT_STATE g' = PIN_MISMATCH))"
proof -
  have called: "AC_CLIENTS g2 = AC_CLIENTS g \<and> (AUTOCONNECT_STATE g2 = AUTOCONNECT_STATE g \<or>
      (r \<noteq> Inr () \<and> AUTOCONNECT_STATE g2 = PIN_MISMATCH))"
    if "verify_certificate hash entries v g = (v1, g1)" "verify_signature C scheme sig v1 g1 = Some (r, v2, g2)"
    for hash entries v1 g1 scheme sig r v2 g2
    using verify_certificate_fields [OF that(1)] verify_signature_globals [OF that(2)] by (auto simp: set_state_def)
  show ?thesis
  proof (cases ok)
    case True
    then have "tls_open W v g = (True, g')" using assms(2) by simp
    with assms(1) obtain hash entries scheme sig v1 g1 v2 where
      "verify_certificate hash entries v g = (v1, g1)" "verify_signature C scheme sig v1 g1 = Some (Inr (), v2, g')"
      unfolding tls_ok_def Let_def by blast
    from called [OF this] show ?thesis by simp
  next
    case False
    then have "tls_open W v g = (False, g')" using assms(2) by simp
    with assms(1) consider "g' = g" | hash entries v1 where "verify_certificate hash entries v g = (v1, g')"
      | hash entries v1 g1 scheme sig r v2 where "verify_certificate hash entries v g = (v1, g1)"
        "verify_signature C scheme sig v1 g1 = Some (r, v2, g')"
      unfolding tls_ok_def Let_def by blast
    then show ?thesis
    proof cases
      case 2
      from verify_certificate_fields [OF this] show ?thesis by blast
    next
      case 3
      from called [OF this] show ?thesis using False by blast
    qed simp
  qed
qed

text \<open>Every iteration either stops before the link, doing nothing, or links with the pin of the URL.\<close>

lemma autoconnect_round_cases:
  assumes "autoconnect_round H W cfg g b = Some (out, g', b', ops)"
  shows "(\<exists>n c. out = Sleeps n \<and> n \<in> {3, 5, 30} \<and> b' = b \<and> ops = [] \<and>
       (g' = g \<or> AUTOCONNECT_STATE g' = c \<and> c \<in> {DISABLED, BAD_CONFIG, DNS_FAIL, TCP_FAIL} \<and> AC_CLIENTS g' = AC_CLIENTS g)) \<or>
     (\<exists>s u p. url_str cfg = Some s \<and> parse_url s = Some u \<and> ac_pin u = Some (Some p) \<and>
       ac_linked H W u p (set_state CONNECTING g) b = Some (out, g', b', ops))"
proof (cases "ac_enabled cfg \<and> wifi_connected W")
  case False
  then show ?thesis using assms by (auto simp: autoconnect_round_def set_state_def split: if_splits)
next
  case True
  with assms obtain s where s: "url_str cfg = Some s" by (cases "url_str cfg") (auto simp: autoconnect_round_def)
  show ?thesis
  proof (cases "parse_url s")
    case None
    then show ?thesis using assms True s by (auto simp: autoconnect_round_def set_state_def)
  next
    case (Some u)
    with assms True s obtain r where r: "ac_pin u = Some r" by (cases "ac_pin u") (auto simp: autoconnect_round_def)
    show ?thesis
    proof (cases "r = None \<or> resolve (dns_query W) (u_host u) = None")
      case True
      then show ?thesis
        using assms \<open>ac_enabled cfg \<and> wifi_connected W\<close> s Some r
        by (cases r) (auto simp: autoconnect_round_def set_state_def Let_def)
    next
      case False
      then show ?thesis
        using assms True s Some r
        by (auto simp: autoconnect_round_def set_state_def Let_def split: if_splits)
    qed
  qed
qed

lemma ac_serve_Some:
  "ac_serve H W tok g b = Some (g', b', ops, over) \<longleftrightarrow>
     g' = set_state CONNECTED g \<and> (\<exists>ops'. run_port H Tcp (link_events W) b = Some (b', ops', over) \<and> ops = send_token tok @ ops')"
  by (auto simp: ac_serve_def Let_def bind_eq_Some_conv)

text \<open>
  C10.  A pinned key is never bypassed.  If the URL carries a public key, then whenever an iteration
  sends a byte to the server, changes the state of the bridge or keeps serving, the key was valid, the
  connection was TLS, the certificate the server sent in the handshake of this iteration carries exactly
  that key, and the signature it sent in this handshake verifies under it over this handshake's own
  transcript, so that one recorded from another handshake does not do: no command of an unauthenticated
  server is executed and the token is not sent to it.
\<close>

theorem pinned_session_authenticated:
  assumes "tls_ok C W" "autoconnect_round H W cfg g b = Some (out, g', b', ops)"
    "url_str cfg = Some s" "parse_url s = Some u" "u_pubkey u = Some h"
    "ops \<noteq> [] \<or> b' \<noteq> b \<or> out = Serving"
  shows "\<exists>key. parse_pubkey h = Some (Some key) \<and> u_tls u \<and> server_proved C (tls_handshake W) key"
proof -
  from autoconnect_round_cases [OF assms(2)] assms(3,4,6) obtain p where
    p: "ac_pin u = Some (Some p)" and l: "ac_linked H W u p (set_state CONNECTING g) b = Some (out, g', b', ops)"
    by auto
  from p assms(5) obtain key where key: "parse_pubkey h = Some (Some key)" "u_tls u" "p = Some key"
    by (auto simp: ac_pin_def bind_eq_Some_conv split: if_splits)
  let ?g = "(set_state CONNECTING g)\<lparr>AC_CLIENTS := AC_CLIENTS g + 1\<rparr>"
  obtain opened g1 where o: "tls_open W (PinnedVerifier_new (Some key)) ?g = (opened, g1)" by fastforce
  have opened
  proof (rule ccontr)
    assume "\<not> opened"
    with l o key assms(6) show False
      by (auto simp: ac_linked_def Let_def ac_after_def set_state_def split: if_splits)
  qed
  then have "tls_open W (PinnedVerifier_new (Some key)) ?g = (True, g1)" using o by simp
  with tls_open_pinned [OF assms(1)] key show ?thesis by blast
qed

text \<open>
  A world for the witness: a server that presents a certificate with a key and signs, and primitives
  that accept exactly the signature \<open>[1]\<close>; its handshake runs the two callbacks.
\<close>

definition demo_key :: bytes where "demo_key = 4 # replicate 64 0"

definition demo_crypto :: "(bytes, bytes, bytes) crypto" where
  "demo_crypto = \<lparr>hash_finalize = (\<lambda>h. take 32 (h @ replicate 32 0)), from_sec1_bytes = Some, sig_from_der = Some,
     key_verify = (\<lambda>k m s. s = [1])\<rparr>"

definition demo_messages :: "bytes handshake" where
  "demo_messages = \<lparr>hs_transcript = [], hs_entries = [X509 ([3, 0x42, 0] @ demo_key)],
     hs_scheme = EcdsaSecp256r1Sha256, hs_signature = [1]\<rparr>"

definition demo_handshake :: "bytes PinnedVerifier \<Rightarrow> ac_globals \<Rightarrow> bool \<times> ac_globals" where
  "demo_handshake v g =
     (let (v1, g1) = verify_certificate [] [X509 ([3, 0x42, 0] @ demo_key)] v g in
      case verify_signature demo_crypto EcdsaSecp256r1Sha256 [1] v1 g1 of
        Some (Inr u, v2, g2) \<Rightarrow> (True, g2)
      | Some (Inl e, v2, g2) \<Rightarrow> (False, g2)
      | None \<Rightarrow> (False, g1))"

definition demo_world :: "bytes ac_world" where
  "demo_world = \<lparr>wifi_connected = True, dns_query = (\<lambda>_. Inr [Ipv4 [10, 0, 0, 1]]), tcp_connect = (\<lambda>_ _. True),
     live_subs = 0, tls_handshake = demo_messages, tls_open = demo_handshake, link_events = []\<rparr>"

lemma demo_tls_ok: "tls_ok demo_crypto demo_world"
  unfolding tls_ok_def demo_world_def demo_messages_def demo_handshake_def
  by (auto simp: Let_def split: prod.splits option.splits sum.splits)

lemma demo_key_extracted: "extract_p256_pubkey ([3, 0x42, 0] @ demo_key) = Some demo_key"
proof -
  have "find_sub [0x03, 0x42, 0x00, 0x04] ([3, 0x42, 0] @ demo_key) 0 = Some 0" by (simp add: demo_key_def)
  then show ?thesis by (simp add: extract_p256_pubkey_def demo_key_def)
qed

lemma cv_message_total: "length h = 32 \<Longrightarrow> \<exists>m. cv_message h = Some m"
  by (simp add: cv_message_def copy_range_def)

lemma demo_handshake_accepts: "fst (demo_handshake (PinnedVerifier_new (Some demo_key)) g)"
proof -
  obtain m where "cv_message (hash_finalize demo_crypto []) = Some m"
    using cv_message_total [of "hash_finalize demo_crypto []"] by (auto simp: demo_crypto_def)
  then show ?thesis
    using demo_key_extracted
    by (simp add: demo_handshake_def verify_certificate_def verify_signature_def PinnedVerifier_new_def Let_def
        check_signature_def) (simp add: demo_crypto_def)
qed

definition demo_url :: bytes where
  "demo_url = ascii ''tls://h:1/?pubkey='' @ hex_pairs hex_digit demo_key @ ascii ''&token=t''"

definition demo_cfg :: AutoConnectConfig where
  "demo_cfg = \<lparr>ac_magic = AUTOCONN_CONFIG_MAGIC, ac_enable = 1, ac_pad = 0, url_len = 156,
     url = demo_url @ replicate 100 0\<rparr>"

lemma hex_pairs_replicate: "hex_pairs enc (replicate n 0) = replicate (2 * n) (enc 0)"
  by (induction n) simp_all

lemma demo_url_str: "url_str demo_cfg = Some demo_url" "length demo_url = 156"
proof -
  have digits: "hex_pairs hex_digit demo_key = 48 # 52 # replicate 128 48"
    by (simp add: demo_key_def hex_pairs_replicate hex_digit_def)
  then show len: "length demo_url = 156" by (simp add: demo_url_def)
  have "list_all (\<lambda>b. b < 0x80) demo_url"
    unfolding demo_url_def digits by (simp add: list_all_iff)
  then show "url_str demo_cfg = Some demo_url"
    using len by (simp add: url_str_def demo_cfg_def slice_def URL_MAX_def from_utf8_def utf8_ok_ascii)
qed

lemma demo_url_parsed:
  "parse_url demo_url = Some \<lparr>u_tls = True, u_host = ascii ''h'', u_port = 1,
     u_pubkey = Some (hex_pairs hex_digit demo_key), u_token = Some (ascii ''t'')\<rparr>"
proof -
  have amp: "asc CHR ''&'' \<notin> set (hex_pairs hex_digit demo_key)"
    by (simp add: demo_key_def hex_pairs_replicate hex_digit_def)
  have "show_nat (unat (1 :: u16)) = [asc CHR ''1'']" by (subst show_nat.simps) (simp add: digit_char_def)
  then show ?thesis
    using parse_url_documented [of "ascii ''h''" "hex_pairs hex_digit demo_key" "ascii ''t''" True 1] amp
    by (simp add: demo_url_def)
qed

theorem pinned_session_authenticated_witness:
  "\<exists>g' b' ops. autoconnect_round loopback_hal demo_world demo_cfg
       \<lparr>AUTOCONNECT_STATE = 0, SERVER_PUBKEY = None, AC_CLIENTS = 0\<rparr> \<lparr>CAN = CanManager_new, cnt = counters_init\<rparr> =
       Some (Serving, g', b', ops) \<and>
     (\<exists>key. parse_pubkey (hex_pairs hex_digit demo_key) = Some (Some key) \<and> server_proved demo_crypto demo_messages key)"
proof -
  let ?g = "\<lparr>AUTOCONNECT_STATE = 0, SERVER_PUBKEY = None, AC_CLIENTS = 0\<rparr>"
  let ?b = "\<lparr>CAN = CanManager_new, cnt = counters_init\<rparr> :: demo_frame list bridge"
  have key: "parse_pubkey (hex_pairs hex_digit demo_key) = Some (Some demo_key)"
    by (simp add: parse_pubkey_eq autoconnect_hex.unhex_hex_pairs) (simp add: demo_key_def)
  obtain g1 where "demo_handshake (PinnedVerifier_new (Some demo_key)) ((set_state CONNECTING ?g)\<lparr>AC_CLIENTS := 1\<rparr>) = (True, g1)"
    using demo_handshake_accepts by (metis prod.collapse)
  moreover have "parse_ipv4 (ascii ''h'') = None" by (simp add: parse_ipv4_def parse_octet_def is_ascii_digit_def)
  ultimately have r: "autoconnect_round loopback_hal demo_world demo_cfg ?g ?b =
      Some (Serving, set_state CONNECTED g1, ?b, send_token (Some (ascii ''t'')))"
    using demo_url_str(1) demo_url_parsed key
    by (simp add: autoconnect_round_def ac_pin_def demo_world_def resolve_def ac_linked_def RX_BUS_SUBS_def Let_def
        del: ascii_simps)
      (simp add: demo_cfg_def ac_enabled_def set_state_def ac_serve_def run_port_def)
  with pinned_session_authenticated [OF demo_tls_ok r demo_url_str(1) demo_url_parsed] show ?thesis
    by (auto simp: demo_world_def)
qed

section \<open>One iteration\<close>

lemma url_str_total: "length (url cfg) = 256 \<Longrightarrow> \<exists>s. url_str cfg = Some s"
  by (auto simp: url_str_def slice_def URL_MAX_def Let_def)

lemma ac_pin_total: "\<exists>r. ac_pin u = Some r"
  by (auto simp: ac_pin_def parse_pubkey_eq split: option.split)

text \<open>What an iteration leaves behind.\<close>

definition round_ok :: "ac_globals \<Rightarrow> 't bridge \<Rightarrow> ac_outcome \<times> ac_globals \<times> 't bridge \<times> conn_op list \<Rightarrow> bool" where
  "round_ok g b = (\<lambda>(out, g', b', ops).
     case out of
       Serving \<Rightarrow> AUTOCONNECT_STATE g' = CONNECTED \<and> AC_CLIENTS g' = AC_CLIENTS g + 1
     | Sleeps n \<Rightarrow> AC_CLIENTS g' = AC_CLIENTS g \<and> n \<in> {3, 5, 30, 90} \<and>
         (n = 90 \<longrightarrow> AUTOCONNECT_STATE g' = PIN_MISMATCH \<and> ops = []) \<and> can_inv (CAN b') \<and>
         open_count (CAN b') = open_count (CAN b) \<and> (twai (CAN b') = None \<longleftrightarrow> twai (CAN b) = None))"

lemma round_ok_set_state: "round_ok (set_state c g) b = round_ok g b"
  by (simp add: round_ok_def set_state_def cong: ac_outcome.case_cong)

lemma ac_serve_result:
  assumes "\<forall>f. Frame f \<in> snd ` set (link_events W) \<longrightarrow> wf_frame f" "can_inv (CAN b)" "open_count (CAN b) < 2 ^ 32 - 1"
  shows "\<exists>b' ops over. ac_serve H W tok g b = Some (set_state CONNECTED g, b', ops, over) \<and>
     (over \<longrightarrow> can_inv (CAN b') \<and> open_count (CAN b') = open_count (CAN b) \<and> (twai (CAN b') = None \<longleftrightarrow> twai (CAN b) = None))"
proof (cases "Stop \<in> snd ` set (link_events W)")
  case True
  then show ?thesis using run_port_stopped [OF assms(2,3,1), of H Tcp] by (auto simp: ac_serve_Some)
next
  case False
  then show ?thesis using run_port_total [OF assms(1), of H Tcp b] by (auto simp: ac_serve_Some)
qed

lemma ac_linked_result:
  assumes "tls_ok C W" "\<forall>f. Frame f \<in> snd ` set (link_events W) \<longrightarrow> wf_frame f" "live_subs W < RX_BUS_SUBS"
    "can_inv (CAN b)" "open_count (CAN b) < 2 ^ 32 - 1" "AUTOCONNECT_STATE g = CONNECTING"
  shows "\<exists>r. ac_linked H W u p g b = Some r \<and> round_ok g b r"
proof -
  let ?g = "g\<lparr>AC_CLIENTS := AC_CLIENTS g + 1\<rparr>"
  have served: "\<exists>r. (do { (g, b, ops, over) \<leftarrow> ac_serve H W (u_token u) g1 b;
        if \<not> over then Some (Serving, g, b, ops) else (let (out, g) = ac_after g in Some (out, g, b, ops)) }) = Some r \<and>
      round_ok g b r" if "AC_CLIENTS g1 = AC_CLIENTS g + 1" for g1
    using ac_serve_result [OF assms(2,4,5), of H "u_token u" g1] that
    by (auto simp: round_ok_def ac_after_def set_state_def CONNECTED_def PIN_MISMATCH_def)
  obtain opened g1 where o: "tls_open W (PinnedVerifier_new p) ?g = (opened, g1)" by fastforce
  have g1: "AC_CLIENTS g1 = AC_CLIENTS g + 1" "AUTOCONNECT_STATE g1 \<in> {CONNECTING, PIN_MISMATCH}"
    using tls_open_globals [OF assms(1) o] assms(6) by auto
  show ?thesis
  proof (cases "u_tls u \<and> \<not> opened")
    case True
    then show ?thesis
      using o g1 assms(3,4) by (auto simp: ac_linked_def Let_def round_ok_def ac_after_def set_state_def
          PIN_MISMATCH_BACKOFF_S_def TLS_FAIL_def PIN_MISMATCH_def)
  next
    case False
    then show ?thesis
      using o g1(1) assms(3) served [of g1] served [of ?g] by (cases "u_tls u") (simp_all add: ac_linked_def Let_def)
  qed
qed

lemma autoconnect_round_result:
  assumes "tls_ok C W" "length (url cfg) = 256" "live_subs W < RX_BUS_SUBS"
    "\<forall>f. Frame f \<in> snd ` set (link_events W) \<longrightarrow> wf_frame f" "can_inv (CAN b)" "open_count (CAN b) < 2 ^ 32 - 1"
  shows "\<exists>r. autoconnect_round H W cfg g b = Some r \<and> round_ok g b r"
proof -
  obtain s where s: "url_str cfg = Some s" using url_str_total [OF assms(2)] by blast
  have quiet: "round_ok g b (Sleeps n, set_state c g, b, [])" "round_ok g b (Sleeps n, g, b, [])"
    "round_ok g b (Sleeps n, set_state c (set_state d g), b, [])" if "n \<in> {3, 5, 30}" for n c d
    using that assms(5) by (auto simp: round_ok_def set_state_def)
  have linked: "\<exists>r. ac_linked H W u p (set_state CONNECTING g) b = Some r \<and> round_ok g b r" for u p
    using ac_linked_result [OF assms(1,4,3,5,6), of "set_state CONNECTING g" H u p]
    by (simp add: round_ok_set_state) (simp add: set_state_def)
  show ?thesis
  proof (cases "parse_url s")
    case None
    then show ?thesis using s quiet by (simp add: autoconnect_round_def)
  next
    case (Some u)
    obtain r where r: "ac_pin u = Some r" using ac_pin_total by blast
    then show ?thesis
      using s Some quiet linked by (simp add: autoconnect_round_def Let_def split: option.split)
  qed
qed

text \<open>What the task relies on in each iteration: the TLS client, a free subscriber slot, frames of the bus.\<close>

definition iteration_ok :: "('h, 'k, 's) crypto \<Rightarrow> AutoConnectConfig \<times> 'h ac_world \<Rightarrow> bool" where
  "iteration_ok C = (\<lambda>(cfg, W). tls_ok C W \<and> length (url cfg) = 256 \<and> live_subs W < RX_BUS_SUBS \<and>
     (\<forall>f. Frame f \<in> snd ` set (link_events W) \<longrightarrow> wf_frame f))"

text \<open>
  C22.  The auto-connect task runs for ever as its status says.  Through any number of iterations it
  never panics, whatever the stored URLs and the network answer, as long as a subscriber slot is free;
  every pause is 3, 5, 30 or 90 seconds; while it serves a link the status is connected and the task
  counts as one TCP client more than at its start; and whenever it sleeps that client is not counted
  and the CAN channel has the users it had at the start.
\<close>

theorem autoconnect_task_outcome:
  assumes "list_all (iteration_ok C) its" "can_inv (CAN b)" "open_count (CAN b) < 2 ^ 32 - 1"
  shows "\<exists>pauses serving g' b' ops. autoconnect_task H its g b = Some (pauses, serving, g', b', ops) \<and>
     set pauses \<subseteq> {3, 5, 30, 90} \<and>
     (if serving then AUTOCONNECT_STATE g' = CONNECTED \<and> AC_CLIENTS g' = AC_CLIENTS g + 1 \<and> length pauses < length its
      else length pauses = length its \<and> AC_CLIENTS g' = AC_CLIENTS g \<and> can_inv (CAN b') \<and>
        open_count (CAN b') = open_count (CAN b) \<and> (twai (CAN b') = None \<longleftrightarrow> twai (CAN b) = None))"
  using assms
proof (induction its arbitrary: g b)
  case Nil
  then show ?case by auto
next
  case (Cons it its)
  obtain cfg W where it: "it = (cfg, W)" by (cases it)
  have ok: "tls_ok C W" "length (url cfg) = 256" "live_subs W < RX_BUS_SUBS"
    "\<forall>f. Frame f \<in> snd ` set (link_events W) \<longrightarrow> wf_frame f" and rest: "list_all (iteration_ok C) its"
    using Cons.prems(1) by (simp_all add: it iteration_ok_def)
  obtain out g1 b1 ops where r: "autoconnect_round H W cfg g b = Some (out, g1, b1, ops)" "round_ok g b (out, g1, b1, ops)"
    using autoconnect_round_result [OF ok Cons.prems(2,3), of H g] by auto
  show ?case
  proof (cases out)
    case Serving
    with r show ?thesis by (auto simp: it round_ok_def)
  next
    case (Sleeps n)
    with r(2) have s: "AC_CLIENTS g1 = AC_CLIENTS g" "n \<in> {3, 5, 30, 90}" "can_inv (CAN b1)"
      "open_count (CAN b1) = open_count (CAN b)" "twai (CAN b1) = None \<longleftrightarrow> twai (CAN b) = None"
      by (simp_all add: round_ok_def)
    have "open_count (CAN b1) < 2 ^ 32 - 1" using s(4) Cons.prems(3) by simp
    from Cons.IH [OF rest s(3) this, of g1] obtain ps serving g2 b2 ops2 where
      l: "autoconnect_task H its g1 b1 = Some (ps, serving, g2, b2, ops2)" "set ps \<subseteq> {3, 5, 30, 90}"
      "if serving then AUTOCONNECT_STATE g2 = CONNECTED \<and> AC_CLIENTS g2 = AC_CLIENTS g1 + 1 \<and> length ps < length its
       else length ps = length its \<and> AC_CLIENTS g2 = AC_CLIENTS g1 \<and> can_inv (CAN b2) \<and>
         open_count (CAN b2) = open_count (CAN b1) \<and> (twai (CAN b2) = None \<longleftrightarrow> twai (CAN b1) = None)" by blast
    then have "autoconnect_task H (it # its) g b = Some (n # ps, serving, g2, b2, ops @ ops2)"
      using r(1) Sleeps by (simp add: it)
    then show ?thesis using l(2,3) s by (intro exI conjI) (assumption, simp_all)
  qed
qed

theorem autoconnect_task_outcome_witness:
  "\<exists>pauses serving g' b' ops. autoconnect_task loopback_hal [(demo_cfg, demo_world), (AutoConnectConfig_new, demo_world)]
       \<lparr>AUTOCONNECT_STATE = 0, SERVER_PUBKEY = None, AC_CLIENTS = 0\<rparr> \<lparr>CAN = CanManager_new, cnt = counters_init\<rparr> =
       Some (pauses, serving, g', b', ops) \<and> set pauses \<subseteq> {3, 5, 30, 90}"
proof -
  have "length (url demo_cfg) = 256" using demo_url_str(2) by (simp add: demo_cfg_def)
  then have "list_all (iteration_ok demo_crypto) [(demo_cfg, demo_world), (AutoConnectConfig_new, demo_world)]"
    using demo_tls_ok by (simp add: iteration_ok_def demo_world_def RX_BUS_SUBS_def AutoConnectConfig_new_def URL_MAX_def)
  from autoconnect_task_outcome [OF this, of "\<lparr>CAN = CanManager_new, cnt = counters_init\<rparr>" loopback_hal] show ?thesis
    by (simp add: CanManager_new_def can_inv_def) blast
qed

end
