(* ===== verification/Http_Page.thy ===== *)
theory Http_Page
  imports Autoconnect
begin

text \<open>
  The read-only half of \<^verbatim>\<open>src/http.rs\<close>: the escaping functions, the JSON status object and the HTML page.
  \<^verbatim>\<open>{}\<close> of a number is \<open>show_nat\<close>; strings are their UTF-8 bytes, and since every escaped character is
  ASCII, escaping character by character is escaping byte by byte.
\<close>

section \<open>Model: escaping\<close>

definition json_escape_char :: "u8 \<Rightarrow> bytes" where
  "json_escape_char c =
     (if c = 34 then [92, 34]
      else if c = 92 then [92, 92]
      else if c = 10 then [92, asc CHR ''n'']
      else if c = 13 then [92, asc CHR ''r'']
      else if c = 9 then [92, asc CHR ''t'']
      else if c < 0x20 then
        [92, asc CHR ''u'', 48, 48, if c < 16 then 48 else 49,
         (let d = c AND 15 in if d < 10 then asc CHR ''0'' + d else asc CHR ''a'' + (d - 10))]
      else [c])"

definition json_escape :: "bytes \<Rightarrow> bytes" where
  "json_escape s = concat (map json_escape_char s)"

definition html_escape_char :: "u8 \<Rightarrow> bytes" where
  "html_escape_char c =
     (if c = asc CHR ''&'' then ascii ''&amp;''
      else if c = asc CHR ''<'' then ascii ''&lt;''
      else if c = asc CHR ''>'' then ascii ''&gt;''
      else if c = 34 then ascii ''&quot;''
      else if c = 39 then ascii ''&#39;''
      else [c])"

definition html_escape :: "bytes \<Rightarrow> bytes" where
  "html_escape s = concat (map html_escape_char s)"

section \<open>Model: what the pages show\<close>

text \<open>The four configurations in memory and the flash behind them; the live values the pages read.\<close>

record 'fl web =
  WIFI_CONFIG :: WifiConfig
  DEVICE_CONFIG :: DeviceConfig
  AUTOCONNECT_CONFIG :: AutoConnectConfig
  AUTH_CONFIG :: AuthConfig
  web_flash :: 'fl

record web_live =
  CONFIG_MODE :: bool
  WIFI_CONNECTED :: bool
  STA_IP :: "bytes option"
  live_counters :: counters
  live_ac :: ac_globals
  GPIO0_HELD :: bool

definition crlf :: bytes where "crlf = [13, 10]"

text \<open>\<^verbatim>\<open>{}\<close> of an IPv4 address, \<^verbatim>\<open>{:02X}\<close> over the bytes of a key.\<close>

fun show_ipv4 :: "bytes \<Rightarrow> bytes" where
  "show_ipv4 [] = []"
| "show_ipv4 [o1] = show_nat (unat o1)"
| "show_ipv4 (o1 # os) = show_nat (unat o1) @ [asc CHR ''.''] @ show_ipv4 os"

definition show_key :: "bytes \<Rightarrow> bytes" where
  "show_key k = concat (map (\<lambda>b. [hex_digit (drop_bit 4 b), hex_digit b]) k)"

definition show_u32 :: "u32 \<Rightarrow> bytes" where
  "show_u32 v = show_nat (unat v)"

definition mode_str :: "web_live \<Rightarrow> bytes" where
  "mode_str st = (if CONFIG_MODE st then ascii ''Configuration (AP)'' else ascii ''Station'')"

definition sta_ip_str :: "web_live \<Rightarrow> bytes" where
  "sta_ip_str st = (case STA_IP st of Some addr \<Rightarrow> show_ipv4 addr | None \<Rightarrow> ascii ''not connected'')"

text \<open>The body of the JSON object; \<open>q s\<close> is \<open>s\<close> between double quotes.\<close>

definition q :: "bytes \<Rightarrow> bytes" where
  "q s = [34] @ s @ [34]"

definition status_body :: "web_live \<Rightarrow> 'fl web \<Rightarrow> bytes run" where
  "status_body st w =
     do { s \<leftarrow> ssid_str (WIFI_CONFIG w);
          let ac_status = state_str (AUTOCONNECT_STATE (live_ac st));
              server_key = (case SERVER_PUBKEY (live_ac st) of Some k \<Rightarrow> show_key k | None \<Rightarrow> []);
              c = live_counters st
          in Some (ascii ''{'' @ q (ascii ''mode'') @ ascii '':'' @ q (mode_str st) @
               ascii '','' @ q (ascii ''wifi'') @ ascii '':'' @ (if WIFI_CONNECTED st then ascii ''true'' else ascii ''false'') @
               ascii '','' @ q (ascii ''sta_ip'') @ ascii '':'' @ q (sta_ip_str st) @
               ascii '','' @ q (ascii ''ssid'') @ ascii '':'' @ q (json_escape s) @
               ascii '','' @ q (ascii ''can_rx'') @ ascii '':'' @ show_u32 (RX_COUNT c) @
               ascii '','' @ q (ascii ''can_tx'') @ ascii '':'' @ show_u32 (TX_COUNT c) @
               ascii '','' @ q (ascii ''ser_in'') @ ascii '':'' @ show_u32 (SER_IN c) @
               ascii '','' @ q (ascii ''ser_out'') @ ascii '':'' @ show_u32 (SER_OUT c) @
               ascii '','' @ q (ascii ''tcp_in'') @ ascii '':'' @ show_u32 (TCP_IN c) @
               ascii '','' @ q (ascii ''tcp_out'') @ ascii '':'' @ show_u32 (TCP_OUT c) @
               ascii '','' @ q (ascii ''ac_status'') @ ascii '':'' @ q ac_status @
               ascii '','' @ q (ascii ''server_key'') @ ascii '':'' @ q server_key @ ascii ''}'') }"

text \<open>The frame of a successful response.\<close>

definition ok_response :: "bytes \<Rightarrow> bytes \<Rightarrow> bytes" where
  "ok_response ctype b =
     ascii ''HTTP/1.1 200 OK'' @ crlf @ ascii ''Content-Type: '' @ ctype @ crlf @
     ascii ''Content-Length: '' @ show_nat (length b) @ crlf @ ascii ''Connection: close'' @ crlf @ crlf @ b"

definition status_json :: "web_live \<Rightarrow> 'fl web \<Rightarrow> bytes run" where
  "status_json st w = do { b \<leftarrow> status_body st w; Some (ok_response (ascii ''application/json'') b) }"

section \<open>Model: the page\<close>

text \<open>The literal text between the interpolated values, in order.\<close>

definition page_0 :: bytes where
  "page_0 =
     ascii ''<!doctype html><html><head><meta name=viewport content=\"width=device-width,initial-scale=1\"><title>e'' @
     ascii ''spcan_br</title></head><body style=\"font-family:sans-serif;max-width:30em;margin:2em auto\"><h2>espca'' @
     ascii ''n_br CAN bridge</h2><p>Mode: <b id=mode>''"

definition page_1 :: bytes where
  "page_1 =
     ascii ''</b><br>WiFi connected: <b id=wifi>''"

definition page_2 :: bytes where
  "page_2 =
     ascii ''</b><br>STA IP: <b id=staip>''"

definition page_3 :: bytes where
  "page_3 =
     ascii ''</b><br>SSID: <b id=ssid>''"

definition page_4 :: bytes where
  "page_4 =
     ascii ''</b></p><h3>Frame counters</h3><table border=1 cellpadding=4 style=border-collapse:collapse><tr><th>'' @
     ascii ''Interface</th><th>in</th><th>out</th></tr><tr><td>CAN bus</td><td id=can_rx>''"

definition page_5 :: bytes where
  "page_5 =
     ascii ''</td><td id=can_tx>''"

definition page_6 :: bytes where
  "page_6 =
     ascii ''</td></tr><tr><td>Serial (USB)</td><td id=ser_in>''"

definition page_7 :: bytes where
  "page_7 =
     ascii ''</td><td id=ser_out>''"

definition page_8 :: bytes where
  "page_8 =
     ascii ''</td></tr><tr><td>TCP</td><td id=tcp_in>''"

definition page_9 :: bytes where
  "page_9 =
     ascii ''</td><td id=tcp_out>''"

definition page_10 :: bytes where
  "page_10 =
     ascii ''</td></tr></table><p style=color:#888>CAN in = received from bus, out = transmitted to bus; serial/T'' @
     ascii ''CP in = host&rarr;adapter, out = adapter&rarr;host.</p><h3>Device</h3><form method=POST action=/api/'' @
     ascii ''device>Name (mDNS <i>''"

definition page_11 :: bytes where
  "page_11 =
     ascii ''.local</i> / AP SSID):<br><input name=name maxlength=32 value=\"''"

definition page_12 :: bytes where
  "page_12 =
     ascii ''\" style=width:100%><br>UART (USB) baud:<br><input name=baud type=number value=\"''"

definition page_13 :: bytes where
  "page_13 =
     ascii ''\" style=width:100%><br><br><button type=submit>Save &amp; reboot</button></form><h3>WiFi setup</h3><'' @
     ascii ''form method=POST action=/api/wifi>SSID:<br><input name=ssid maxlength=32 style=width:100%><br>Passwo'' @
     ascii ''rd:<br><input name=password type=password maxlength=64 style=width:100%><br><br><button type=submit>'' @
     ascii ''Save &amp; reboot</button></form><h3>Auto-connect (outbound)</h3><p>Status: <b id=acstatus>''"

definition page_14 :: bytes where
  "page_14 =
     ascii ''</b></p><p style=font-size:smaller>Server key (last TLS connection):<br><code id=srvkey style=word-b'' @
     ascii ''reak:break-all>''"

definition page_15 :: bytes where
  "page_15 =
     ascii ''</code></p><form method=POST action=/api/autoconnect><label><input type=checkbox name=enable ''"

definition page_16 :: bytes where
  "page_16 =
     ascii ''> Enable (dial out, works behind NAT)</label><br>URL:<br><input name=url maxlength=256 value=\"''"

definition page_17 :: bytes where
  "page_17 =
     ascii ''\" placeholder=\"tls://host:port/?pubkey=..&amp;token=..\" style=width:100%><br><small style=color:#888'' @
     ascii ''>tcp:// or tls://; optional <b>pubkey</b> (pin server key) and <b>token</b> (auth).</small><br><br><'' @
     ascii ''button type=submit>Save &amp; reboot</button></form>''"

definition login_0 :: bytes where
  "login_0 =
     ascii ''<h3>Web login</h3><p>Status: <b>''"

definition login_1 :: bytes where
  "login_1 =
     ascii ''</b></p><form method=POST action=/api/auth>Login:<br><input name=user maxlength=31 value=\"''"

definition login_2 :: bytes where
  "login_2 =
     ascii ''\" style=width:100%><br>Password:<br><input name=pass type=password maxlength=63 style=width:100%><br'' @
     ascii ''><small style=color:#888>Leave both blank to disable login. Forgot the password? Hold the BOOT (GPIO'' @
     ascii ''0) button while opening this page to bypass login and reset it.</small><br><br><button type=submit>S'' @
     ascii ''ave login</button></form>''"

definition STATUS_SCRIPT :: bytes where
  "STATUS_SCRIPT =
     ascii ''<script>async function upd(){try{const s=await(await fetch('' @
     [39] @
     ascii ''/api/status'' @
     [39] @
     ascii '')).json();const g=(i,v)=>{const e=document.getElementById(i);if(e)e.textContent=v;};g('' @
     [39] @
     ascii ''mode'' @
     [39] @
     ascii '',s.mode);g('' @
     [39] @
     ascii ''wifi'' @
     [39] @
     ascii '',s.wifi?'' @
     [39] @
     ascii ''yes'' @
     [39] @
     ascii '':'' @
     [39] @
     ascii ''no'' @
     [39] @
     ascii '');g('' @
     [39] @
     ascii ''staip'' @
     [39] @
     ascii '',s.sta_ip);g('' @
     [39] @
     ascii ''ssid'' @
     [39] @
     ascii '',s.ssid);g('' @
     [39] @
     ascii ''can_rx'' @
     [39] @
     ascii '',s.can_rx);g('' @
     [39] @
     ascii ''can_tx'' @
     [39] @
     ascii '',s.can_tx);g('' @
     [39] @
     ascii ''ser_in'' @
     [39] @
     ascii '',s.ser_in);g('' @
     [39] @
     ascii ''ser_out'' @
     [39] @
     ascii '',s.ser_out);g('' @
     [39] @
     ascii ''tcp_in'' @
     [39] @
     ascii '',s.tcp_in);g('' @
     [39] @
     ascii ''tcp_out'' @
     [39] @
     ascii '',s.tcp_out);g('' @
     [39] @
     ascii ''acstatus'' @
     [39] @
     ascii '',s.ac_status);g('' @
     [39] @
     ascii ''srvkey'' @
     [39] @
     ascii '',s.server_key||'' @
     [39] @
     ascii ''(none yet)'' @
     [39] @
     ascii '');}catch(e){}}setInterval(upd,2000);upd();</script></body></html>''"

definition index_body :: "web_live \<Rightarrow> 'fl web \<Rightarrow> bytes run" where
  "index_body st w =
     do { s \<leftarrow> ssid_str (WIFI_CONFIG w);
          name \<leftarrow> name_str (DEVICE_CONFIG w);
          ac \<leftarrow> url_str (AUTOCONNECT_CONFIG w);
          user \<leftarrow> user_str (AUTH_CONFIG w);
          let ssid = html_escape s;
              dname = html_escape name;
              ac_url = html_escape ac;
              c = live_counters st;
              wifi_s = (if WIFI_CONNECTED st then ascii ''yes'' else ascii ''no'');
              ac_en_chk = (if ac_enable_set (AUTOCONNECT_CONFIG w) then ascii ''checked'' else []);
              key_hex = (case SERVER_PUBKEY (live_ac st) of Some k \<Rightarrow> show_key k | None \<Rightarrow> ascii ''(none yet)'');
              auth_state = (if auth_is_set (AUTH_CONFIG w) then ascii ''enabled''
                            else ascii ''disabled (anyone on the network can read this page)'');
              auth_user = html_escape user
          in Some (page_0 @ mode_str st @ page_1 @ wifi_s @ page_2 @ sta_ip_str st @ page_3 @ ssid @
               page_4 @ show_u32 (RX_COUNT c) @ page_5 @ show_u32 (TX_COUNT c) @
               page_6 @ show_u32 (SER_IN c) @ page_7 @ show_u32 (SER_OUT c) @
               page_8 @ show_u32 (TCP_IN c) @ page_9 @ show_u32 (TCP_OUT c) @
               page_10 @ dname @ page_11 @ dname @ page_12 @ show_u32 (device_baud (DEVICE_CONFIG w)) @
               page_13 @ state_str (AUTOCONNECT_STATE (live_ac st)) @ page_14 @ key_hex @
               page_15 @ ac_en_chk @ page_16 @ ac_url @ page_17 @
               login_0 @ auth_state @ login_1 @ auth_user @ login_2 @ STATUS_SCRIPT) }"

definition index_page :: "web_live \<Rightarrow> 'fl web \<Rightarrow> bytes run" where
  "index_page st w = do { b \<leftarrow> index_body st w; Some (ok_response (ascii ''text/html'') b) }"

section \<open>Escaping is safe and loses nothing\<close>

text \<open>How a browser reads text with the five entities; raw markup characters are not text.\<close>

fun html_text :: "bytes \<Rightarrow> bytes option" where
  "html_text [] = Some []"
| "html_text (c # cs) =
     (if c \<in> {asc CHR ''<'', asc CHR ''>'', 34, 39} then None
      else if c = asc CHR ''&'' then
        (if take 4 cs = ascii ''amp;'' then map_option ((#) (asc CHR ''&'')) (html_text (drop 4 cs))
         else if take 3 cs = ascii ''lt;'' then map_option ((#) (asc CHR ''<'')) (html_text (drop 3 cs))
         else if take 3 cs = ascii ''gt;'' then map_option ((#) (asc CHR ''>'')) (html_text (drop 3 cs))
         else if take 5 cs = ascii ''quot;'' then map_option ((#) 34) (html_text (drop 5 cs))
         else if take 4 cs = ascii ''#39;'' then map_option ((#) 39) (html_text (drop 4 cs))
         else None)
      else map_option ((#) c) (html_text cs))"

text \<open>How a JSON parser reads the inside of a string.\<close>

fun json_text :: "bytes \<Rightarrow> bytes option" where
  "json_text [] = Some []"
| "json_text (c # cs) =
     (if c = 34 \<or> c < 0x20 then None
      else if c \<noteq> 92 then map_option ((#) c) (json_text cs)
      else case cs of
        [] \<Rightarrow> None
      | e # r \<Rightarrow>
          if e = 34 \<or> e = 92 then map_option ((#) e) (json_text r)
          else if e = asc CHR ''n'' then map_option ((#) 10) (json_text r)
          else if e = asc CHR ''r'' then map_option ((#) 13) (json_text r)
          else if e = asc CHR ''t'' then map_option ((#) 9) (json_text r)
          else if e = asc CHR ''u'' then
            (case r of
               a # b # x # y # r' \<Rightarrow>
                 if a = 48 \<and> b = 48 then
                   (case (hexval x, hexval y) of
                      (Some h, Some l) \<Rightarrow> map_option ((#) (join_nibbles h l)) (json_text r')
                    | _ \<Rightarrow> None)
                 else None
             | _ \<Rightarrow> None)
          else None)"

lemma html_text_escape: "html_text (html_escape s) = Some s"
proof (induction s)
  case (Cons c s)
  then show ?case by (auto simp: html_escape_def html_escape_char_def)
qed (simp add: html_escape_def)

lemma html_escape_no_markup: "set (html_escape s) \<inter> {asc CHR ''<'', asc CHR ''>'', 34, 39} = {}"
  by (auto simp: html_escape_def html_escape_char_def split: if_splits)

text \<open>The two digits of a control character.\<close>

lemma control_high_digit:
  assumes "c < 0x20"
  shows "hexval (if c < 16 then 48 else 49) = Some (drop_bit 4 c)"
proof -
  have "unat c < 32" using assms by (simp add: word_less_nat_alt)
  then have "unat (drop_bit 4 c) = (if unat c < 16 then 0 else 1)"
    by (auto simp: unat_drop_bit_eq drop_bit_eq_div [of _ "unat c"] div_nat_eqI)
  then have "drop_bit 4 c = (if c < 16 then 0 else 1)"
    by (auto simp: word_less_nat_alt word_unat_eq_iff split: if_splits)
  then show ?thesis by (auto simp: hexval_def)
qed

lemma lower_digit:
  "hexval (let d = c AND 15 in if d < 10 then asc CHR ''0'' + d else asc CHR ''a'' + (d - 10)) = Some (c AND 15)"
proof -
  have "c AND 15 < 16" by simp
  then show ?thesis by (rule nibble_cases) (auto simp: hexval_def Let_def)
qed

lemma json_text_escape_char: "json_text (json_escape_char c @ r) = map_option ((#) c) (json_text r)"
proof (cases "c < 0x20 \<and> c \<noteq> 10 \<and> c \<noteq> 13 \<and> c \<noteq> 9")
  case True
  then have "json_escape_char c = [92, asc CHR ''u'', 48, 48, if c < 16 then 48 else 49,
      let d = c AND 15 in if d < 10 then asc CHR ''0'' + d else asc CHR ''a'' + (d - 10)]"
    by (auto simp: json_escape_char_def)
  with True show ?thesis
    using control_high_digit [of c] lower_digit [of c] nibbles_join [of c]
    by (simp del: if_split add: Let_def)
next
  case False
  then show ?thesis by (auto simp: json_escape_char_def)
qed

lemma json_text_escape: "json_text (json_escape s) = Some s"
  by (induction s) (simp_all add: json_escape_def json_text_escape_char)

text \<open>
  C35.  What a user typed is shown and never becomes markup.  Escaped for HTML, any string has no
  angle bracket and no quote left, and a browser reads it back as the same text; escaped for JSON, any
  string is the inside of one JSON string literal that denotes the same text, control characters
  included.
\<close>

theorem escaping_is_text:
  "html_text (html_escape s) = Some s \<and> set (html_escape s) \<inter> {asc CHR ''<'', asc CHR ''>'', 34, 39} = {} \<and>
   json_text (json_escape s) = Some s"
  using html_text_escape html_escape_no_markup json_text_escape by blast

text \<open>The key on the page is the hexadecimal form of which the key parser gives the key back.\<close>

lemma show_key_eq: "show_key k = hex_pairs hex_digit k"
  by (simp add: show_key_def hex_pairs_def)

end
