(* ===== verification/Http_Status.thy ===== *)
theory Http_Status
  imports Http_Page
begin

text \<open>
  \<^verbatim>\<open>/api/status\<close> of \<^verbatim>\<open>src/http.rs\<close> as its reader sees it: a reader of flat JSON objects, and the proof that
  it finds in the body of \<open>status_json\<close> exactly the fields and values the code means to report.
\<close>

section \<open>A reader of flat JSON objects\<close>

datatype jval = JStr bytes | JNum nat | JBool bool

text \<open>The raw inside of a string literal up to its closing quote, and what follows.\<close>

fun raw_str :: "bytes \<Rightarrow> (bytes \<times> bytes) option" where
  "raw_str [] = None"
| "raw_str (c # cs) =
     (if c = 34 then Some ([], cs)
      else if c = 92 then
        (case cs of [] \<Rightarrow> None | e # r \<Rightarrow> map_option (\<lambda>(a, b). (c # e # a, b)) (raw_str r))
      else map_option (\<lambda>(a, b). (c # a, b)) (raw_str cs))"

definition read_str :: "bytes \<Rightarrow> (bytes \<times> bytes) option" where
  "read_str s =
     (case s of
        [] \<Rightarrow> None
      | c # cs \<Rightarrow>
          if c \<noteq> 34 then None
          else do { (a, r) \<leftarrow> raw_str cs; t \<leftarrow> json_text a; Some (t, r) })"

definition read_val :: "bytes \<Rightarrow> (jval \<times> bytes) option" where
  "read_val s =
     (if take 4 s = ascii ''true'' then Some (JBool True, drop 4 s)
      else if take 5 s = ascii ''false'' then Some (JBool False, drop 5 s)
      else if take 1 s = [34] then do { (t, r) \<leftarrow> read_str s; Some (JStr t, r) }
      else do { n \<leftarrow> parse_uint (2 ^ 32 - 1) (takeWhile is_ascii_digit s); Some (JNum n, dropWhile is_ascii_digit s) })"

definition read_member :: "bytes \<Rightarrow> ((bytes \<times> jval) \<times> bytes) option" where
  "read_member s =
     do { (k, r) \<leftarrow> read_str s;
          if take 1 r = [asc CHR '':''] then do { (v, r) \<leftarrow> read_val (drop 1 r); Some ((k, v), r) } else None }"

text \<open>Members up to the closing brace, which ends the text; every member takes at least one byte.\<close>

fun read_members :: "nat \<Rightarrow> bytes \<Rightarrow> (bytes \<times> jval) list option" where
  "read_members 0 s = None"
| "read_members (Suc n) s =
     do { (m, r) \<leftarrow> read_member s;
          if r = [asc CHR ''}''] then Some [m]
          else if take 1 r = [asc CHR '',''] then do { ms \<leftarrow> read_members n (drop 1 r); Some (m # ms) }
          else None }"

definition read_object :: "bytes \<Rightarrow> (bytes \<times> jval) list option" where
  "read_object s = (if take 1 s = [asc CHR ''{''] then read_members (length s) (drop 1 s) else None)"

section \<open>Reading back what is written\<close>

fun jval_text :: "jval \<Rightarrow> bytes" where
  "jval_text (JStr s) = q (json_escape s)"
| "jval_text (JNum n) = show_nat n"
| "jval_text (JBool b) = (if b then ascii ''true'' else ascii ''false'')"

fun jval_ok :: "jval \<Rightarrow> bool" where
  "jval_ok (JNum n) \<longleftrightarrow> n < 2 ^ 32"
| "jval_ok _ \<longleftrightarrow> True"

definition member_text :: "bytes \<times> jval \<Rightarrow> bytes" where
  "member_text m = q (json_escape (fst m)) @ asc CHR '':'' # jval_text (snd m)"

fun members_text :: "(bytes \<times> jval) list \<Rightarrow> bytes" where
  "members_text [] = []"
| "members_text [m] = member_text m"
| "members_text (m # ms) = member_text m @ asc CHR '','' # members_text ms"

lemma raw_str_escape_char:
  "raw_str (json_escape_char c @ r) = map_option (\<lambda>(a, b). (json_escape_char c @ a, b)) (raw_str r)"
proof (cases "c < 0x20 \<and> c \<noteq> 10 \<and> c \<noteq> 13 \<and> c \<noteq> 9")
  case True
  define y where "y = (let d = c AND 15 in if d < 10 then asc CHR ''0'' + d else asc CHR ''a'' + (d - 10))"
  have "hexval y = Some (c AND 15)" using lower_digit [of c] by (simp only: y_def)
  then have "y \<noteq> 34" "y \<noteq> 92" by (auto simp: hexval_def)
  moreover have "json_escape_char c = [92, asc CHR ''u'', 48, 48, if c < 16 then 48 else 49, y]"
    using True by (auto simp: json_escape_char_def y_def)
  ultimately show ?thesis by (cases "raw_str r") (auto split: prod.split)
next
  case False
  then show ?thesis by (auto simp: json_escape_char_def)
qed

lemma raw_str_escape: "raw_str (json_escape s @ 34 # r) = Some (json_escape s, r)"
  by (induction s) (simp_all add: json_escape_def raw_str_escape_char)

lemma read_str_quoted: "read_str (q (json_escape s) @ r) = Some (s, r)"
  by (simp add: read_str_def q_def raw_str_escape json_text_escape)

lemma read_val_text:
  assumes "jval_ok v" "\<not> is_ascii_digit c"
  shows "read_val (jval_text v @ c # r) = Some (v, c # r)"
proof (cases v)
  case (JStr s)
  then show ?thesis using read_str_quoted [of s "c # r"] by (simp add: read_val_def q_def)
next
  case (JNum n)
  obtain d ds where n: "show_nat n = d # ds" by (cases "show_nat n") auto
  have dig: "list_all is_ascii_digit (show_nat n)" by (rule show_nat_digits)
  then have d: "d \<noteq> 116" "d \<noteq> 102" "d \<noteq> 34" by (auto simp: n is_ascii_digit_def)
  have split: "takeWhile is_ascii_digit (show_nat n @ c # r) = show_nat n" "dropWhile is_ascii_digit (show_nat n @ c # r) = c # r"
    using dig assms(2) by (simp_all add: list_all_iff takeWhile_append dropWhile_append)
  have "parse_uint (2 ^ 32 - 1) (show_nat n) = Some n" using assms(1) by (intro parse_show) (simp add: JNum)
  with split d show ?thesis by (simp add: read_val_def JNum n)
next
  case (JBool b)
  then show ?thesis by (cases b) (simp_all add: read_val_def)
qed

lemma read_member_text:
  assumes "jval_ok (snd m)" "\<not> is_ascii_digit c"
  shows "read_member (member_text m @ c # r) = Some (m, c # r)"
  using read_str_quoted [of "fst m"] read_val_text [OF assms, of r]
  by (simp add: read_member_def member_text_def)

lemma read_members_text:
  "ms \<noteq> [] \<Longrightarrow> list_all (jval_ok \<circ> snd) ms \<Longrightarrow> length ms \<le> n \<Longrightarrow>
   read_members n (members_text ms @ [asc CHR ''}'']) = Some ms"
proof (induction ms arbitrary: n rule: members_text.induct)
  case (2 m)
  then obtain k where "n = Suc k" by (cases n) auto
  with 2 read_member_text [of m "asc CHR ''}''" "[]"] show ?case by (simp add: is_ascii_digit_def)
next
  case (3 m m' ms)
  then obtain k where "n = Suc k" by (cases n) auto
  with 3 read_member_text [of m "asc CHR '',''" "members_text (m' # ms) @ [asc CHR ''}'']"] show ?case
    by (simp add: is_ascii_digit_def)
qed simp

lemma length_member_text: "0 < length (member_text m)"
  by (simp add: member_text_def q_def)

lemma length_members_text: "length ms \<le> length (members_text ms)"
proof (induction ms rule: members_text.induct)
  case (2 m)
  then show ?case using length_member_text [of m] by (simp add: Suc_le_eq)
qed simp_all

lemma read_object_text:
  assumes "ms \<noteq> []" "list_all (jval_ok \<circ> snd) ms"
  shows "read_object (asc CHR ''{'' # members_text ms @ [asc CHR ''}'']) = Some ms"
  using read_members_text [OF assms] length_members_text [of ms] by (simp add: read_object_def del: read_members.simps)

section \<open>The status object\<close>

lemma json_plain: "list_all (\<lambda>c. 0x20 \<le> c \<and> c \<noteq> 34 \<and> c \<noteq> 92) s \<Longrightarrow> json_escape s = s"
  by (induction s) (auto simp: json_escape_def json_escape_char_def)

lemma show_ipv4_plain: "list_all (\<lambda>c. is_ascii_digit c \<or> c = asc CHR ''.'') (show_ipv4 a)"
proof (induction a rule: show_ipv4.induct)
  case (2 x)
  show ?case using show_nat_digits [of "unat x"] by (auto simp: list_all_iff)
next
  case (3 x y a)
  then show ?case using show_nat_digits [of "unat x"] by (auto simp: list_all_iff)
qed simp

lemma digit_or_dot_plain: "is_ascii_digit c \<or> c = asc CHR ''.'' \<Longrightarrow> 0x20 \<le> c \<and> c \<noteq> 34 \<and> c \<noteq> 92"
  by (auto simp: is_ascii_digit_def word_le_nat_alt)

lemma hex_digit_plain: "0x20 \<le> hex_digit v \<and> hex_digit v \<noteq> 34 \<and> hex_digit v \<noteq> 92"
  using hex_digit_range [of v] by (auto simp: word_le_nat_alt)

lemma plain_values [simp]:
  "json_escape (mode_str st) = mode_str st" "json_escape (sta_ip_str st) = sta_ip_str st"
  "json_escape (state_str code) = state_str code" "json_escape (show_key k) = show_key k"
proof -
  show "json_escape (mode_str st) = mode_str st" by (rule json_plain) (simp add: mode_str_def)
  have "list_all (\<lambda>c. 0x20 \<le> c \<and> c \<noteq> 34 \<and> c \<noteq> 92) (show_ipv4 a)" for a
    by (rule list.pred_mono_strong [OF show_ipv4_plain]) (rule digit_or_dot_plain)
  then show "json_escape (sta_ip_str st) = sta_ip_str st"
    by (intro json_plain) (simp add: sta_ip_str_def split: option.split)
  show "json_escape (state_str code) = state_str code" by (rule json_plain) (simp add: state_str_def)
  show "json_escape (show_key k) = show_key k"
    by (rule json_plain) (simp add: show_key_def list_all_iff hex_digit_plain)
qed

text \<open>What the status object should say.\<close>

definition status_members :: "web_live \<Rightarrow> bytes \<Rightarrow> (bytes \<times> jval) list" where
  "status_members st name =
     (let c = live_counters st in
      [(ascii ''mode'', JStr (mode_str st)), (ascii ''wifi'', JBool (WIFI_CONNECTED st)),
       (ascii ''sta_ip'', JStr (sta_ip_str st)), (ascii ''ssid'', JStr name),
       (ascii ''can_rx'', JNum (unat (RX_COUNT c))), (ascii ''can_tx'', JNum (unat (TX_COUNT c))),
       (ascii ''ser_in'', JNum (unat (SER_IN c))), (ascii ''ser_out'', JNum (unat (SER_OUT c))),
       (ascii ''tcp_in'', JNum (unat (TCP_IN c))), (ascii ''tcp_out'', JNum (unat (TCP_OUT c))),
       (ascii ''ac_status'', JStr (state_str (AUTOCONNECT_STATE (live_ac st)))),
       (ascii ''server_key'', JStr (case SERVER_PUBKEY (live_ac st) of Some k \<Rightarrow> show_key k | None \<Rightarrow> []))])"

lemma json_escape_ascii_names:
  "json_escape (ascii ''mode'') = ascii ''mode''" "json_escape (ascii ''wifi'') = ascii ''wifi''"
  "json_escape (ascii ''sta_ip'') = ascii ''sta_ip''" "json_escape (ascii ''ssid'') = ascii ''ssid''"
  "json_escape (ascii ''can_rx'') = ascii ''can_rx''" "json_escape (ascii ''can_tx'') = ascii ''can_tx''"
  "json_escape (ascii ''ser_in'') = ascii ''ser_in''" "json_escape (ascii ''ser_out'') = ascii ''ser_out''"
  "json_escape (ascii ''tcp_in'') = ascii ''tcp_in''" "json_escape (ascii ''tcp_out'') = ascii ''tcp_out''"
  "json_escape (ascii ''ac_status'') = ascii ''ac_status''" "json_escape (ascii ''server_key'') = ascii ''server_key''"
  by (rule json_plain; simp)+

lemma json_escape_Nil [simp]: "json_escape [] = []"
  by (simp add: json_escape_def)

lemma status_body_text:
  assumes "ssid_str (WIFI_CONFIG w) = Some s"
  shows "status_body st w = Some (asc CHR ''{'' # members_text (status_members st s) @ [asc CHR ''}''])"
proof -
  have punct: "ascii ''{'' = [asc CHR ''{'']" "ascii ''}'' = [asc CHR ''}'']" "ascii '':'' = [asc CHR '':'']" "ascii '','' = [asc CHR '','']"
    by simp_all
  have key: "json_escape (case k of None \<Rightarrow> [] | Some x \<Rightarrow> show_key x) = (case k of None \<Rightarrow> [] | Some x \<Rightarrow> show_key x)" for k
    by (simp split: option.split)
  show ?thesis
    unfolding status_body_def assms Option.bind.bind_lunit Let_def punct status_members_def members_text.simps
      member_text_def fst_conv snd_conv jval_text.simps json_escape_ascii_names plain_values key show_u32_def
    by (simp del: ascii_simps)
qed

text \<open>
  The status page is JSON and says what is so: for every SSID, whatever bytes it contains, and
  every state of the flags, counters and keys, a JSON reader finds in the body exactly the twelve
  fields, each with its current value, and nothing else.
\<close>

lemma status_is_json:
  assumes "ssid_str (WIFI_CONFIG w) = Some s"
  shows "\<exists>b. status_json st w = Some (ok_response (ascii ''application/json'') b) \<and>
     read_object b = Some (status_members st s)"
proof -
  have "list_all (jval_ok \<circ> snd) (status_members st s)"
    using unsigned_less [where ?'a = nat and ?'b = 32] by (simp add: status_members_def Let_def)
  moreover have "status_members st s \<noteq> []" by (simp add: status_members_def Let_def)
  ultimately show ?thesis
    using read_object_text [of "status_members st s"] status_body_text [OF assms, of st] by (auto simp: status_json_def)
qed

end
