(* ===== verification/Http.thy ===== *)
theory Http
  imports Http_Page Boot
begin

text \<open>
  The request side of \<^verbatim>\<open>src/http.rs\<close>: reading a request from the socket, authentication, form decoding,
  the four save handlers and the routing.  The socket is the list of results its reads give; a handler
  that resets the chip ends with \<open>Reset\<close> instead of a response.
\<close>

section \<open>Model: reading a request\<close>

fun find_map :: "('a \<Rightarrow> 'b option) \<Rightarrow> 'a list \<Rightarrow> 'b option" where
  "find_map f [] = None"
| "find_map f (x # xs) = (case f x of Some y \<Rightarrow> Some y | None \<Rightarrow> find_map f xs)"

definition find_subslice :: "bytes \<Rightarrow> bytes \<Rightarrow> nat option" where
  "find_subslice hay needle = find_sub needle hay 0"

definition USIZE_MAX :: nat where "USIZE_MAX = 2 ^ 32 - 1"

definition content_length_of :: "bytes \<Rightarrow> nat option" where
  "content_length_of line =
     (case split_once (asc CHR '':'') line of
        None \<Rightarrow> None
      | Some (k, v) \<Rightarrow>
          if eq_ignore_ascii_case (trim k) (ascii ''content-length'') then parse_uint USIZE_MAX (trim v)
          else None)"

definition content_length :: "bytes \<Rightarrow> nat option" where
  "content_length headers =
     (case from_utf8 headers of
        None \<Rightarrow> None
      | Some s \<Rightarrow> find_map content_length_of (split_str crlf s))"

datatype sock_read = ReadOk bytes | ReadErr

datatype read_outcome = Request bytes | NoRequest | ReadFailed | StillReading

definition blank_line :: bytes where "blank_line = crlf @ crlf"

text \<open>
  The value of \<^verbatim>\<open>need\<close> after the bytes read so far; the sum saturates at \<^verbatim>\<open>usize::MAX\<close>, far above the
  buffer's length to which it is cut.
\<close>

definition next_need :: "bytes \<Rightarrow> nat option \<Rightarrow> nat \<Rightarrow> nat option" where
  "next_need received need cap =
     (if need = None then
        (case find_subslice received blank_line of
           None \<Rightarrow> None
         | Some i \<Rightarrow>
             let header_end = i + 4;
                 clen = (case content_length (take header_end received) of Some n \<Rightarrow> n | None \<Rightarrow> 0)
             in Some (min (min (header_end + clen) USIZE_MAX) cap))
      else need)"

text \<open>The loop: the results of the reads still to come, the buffer, \<^verbatim>\<open>pos\<close> and \<^verbatim>\<open>need\<close>.\<close>

fun read_loop :: "sock_read list \<Rightarrow> bytes \<Rightarrow> nat \<Rightarrow> nat option \<Rightarrow> read_outcome run" where
  "read_loop reads buffer pos need =
     (if (case need of Some n \<Rightarrow> n \<le> pos | None \<Rightarrow> False) \<or> length buffer \<le> pos then
        do { r \<leftarrow> slice buffer 0 pos; Some (Request r) }
      else case reads of
        [] \<Rightarrow> Some StillReading
      | ReadErr # _ \<Rightarrow> Some ReadFailed
      | ReadOk bs # reads' \<Rightarrow>
          if bs = [] then
            (if pos = 0 then Some NoRequest else do { r \<leftarrow> slice buffer 0 pos; Some (Request r) })
          else
            do { buffer \<leftarrow> copy_range buffer pos (pos + length bs) bs;
                 received \<leftarrow> slice buffer 0 (pos + length bs);
                 read_loop reads' buffer (pos + length bs) (next_need received need (length buffer)) })"

declare read_loop.simps [simp del]

definition read_request :: "sock_read list \<Rightarrow> read_outcome run" where
  "read_request reads = read_loop reads (replicate 1024 0) 0 None"

section \<open>Model: authentication\<close>

definition parse_request_line :: "bytes \<Rightarrow> bytes \<times> bytes" where
  "parse_request_line request =
     (let line = (case str_lines request of [] \<Rightarrow> [] | l # _ \<Rightarrow> l);
          parts = split_whitespace line
      in (case parts of [] \<Rightarrow> ([], ascii ''/'') | [m] \<Rightarrow> (m, ascii ''/'') | m # p # _ \<Rightarrow> (m, p)))"

definition auth_header_value :: "bytes \<Rightarrow> bytes option" where
  "auth_header_value line =
     (case split_once (asc CHR '':'') line of
        None \<Rightarrow> None
      | Some (k, v) \<Rightarrow>
          if eq_ignore_ascii_case (trim k) (ascii ''authorization'') then
            (let v = trim v in
             case strip_prefix (ascii ''Basic '') v of
               Some t \<Rightarrow> Some t
             | None \<Rightarrow> strip_prefix (ascii ''basic '') v)
          else None)"

definition basic_auth_token :: "bytes \<Rightarrow> bytes option" where
  "basic_auth_token request =
     find_map auth_header_value (takeWhile (\<lambda>l. l \<noteq> []) (str_lines request))"

definition base64_value :: "u8 \<Rightarrow> u8 option" where
  "base64_value c =
     (if asc CHR ''A'' \<le> c \<and> c \<le> asc CHR ''Z'' then Some (c - asc CHR ''A'')
      else if asc CHR ''a'' \<le> c \<and> c \<le> asc CHR ''z'' then Some (c - asc CHR ''a'' + 26)
      else if asc CHR ''0'' \<le> c \<and> c \<le> asc CHR ''9'' then Some (c - asc CHR ''0'' + 52)
      else if c = asc CHR ''+'' then Some 62
      else if c = asc CHR ''/'' then Some 63
      else None)"

text \<open>The loop of the decoder; the result is the byte count, if the text is accepted, and the buffer.\<close>

fun base64_loop :: "bytes \<Rightarrow> u32 \<Rightarrow> u8 \<Rightarrow> nat \<Rightarrow> bytes \<Rightarrow> (nat option \<times> bytes) run" where
  "base64_loop [] acc bits di dst = Some (Some di, dst)"
| "base64_loop (c # cs) acc bits di dst =
     (if c = asc CHR ''='' then Some (Some di, dst)
      else case base64_value c of
        None \<Rightarrow> Some (None, dst)
      | Some v \<Rightarrow>
          let acc = push_bit 6 acc OR ucast v; bits = bits + 6 in
          if 8 \<le> bits then
            let bits = bits - 8 in
            if length dst \<le> di then Some (None, dst)
            else do { dst \<leftarrow> upd dst di (ucast (drop_bit (unat bits) acc));
                      base64_loop cs acc bits (di + 1) dst }
          else base64_loop cs acc bits di dst)"

definition base64_decode :: "bytes \<Rightarrow> bytes \<Rightarrow> (nat option \<times> bytes) run" where
  "base64_decode src dst = base64_loop src 0 0 0 dst"

definition authorized :: "(bytes \<Rightarrow> bytes) \<Rightarrow> bool \<Rightarrow> AuthConfig \<Rightarrow> bytes \<Rightarrow> bool run" where
  "authorized sha held cfg request =
     (if held then Some True
      else if \<not> auth_is_set cfg then Some True
      else case basic_auth_token request of
        None \<Rightarrow> Some False
      | Some token \<Rightarrow>
          do { (r, decoded) \<leftarrow> base64_decode token (replicate 128 0);
               case r of
                 None \<Rightarrow> Some False
               | Some n \<Rightarrow>
                   do { s \<leftarrow> slice decoded 0 n;
                        case from_utf8 s of
                          None \<Rightarrow> Some False
                        | Some creds \<Rightarrow>
                            (case split_once (asc CHR '':'') creds of
                               None \<Rightarrow> Some False
                             | Some (user, pass) \<Rightarrow> auth_verify sha cfg user pass) } })"

section \<open>Model: forms\<close>

definition form_pair :: "bytes \<Rightarrow> bytes \<Rightarrow> bytes option" where
  "form_pair key pair =
     (case split_once (asc CHR ''='') pair of
        None \<Rightarrow> None
      | Some (k, v) \<Rightarrow> if k = key then Some v else None)"

definition find_form_value :: "bytes \<Rightarrow> bytes \<Rightarrow> bytes option" where
  "find_form_value body key = find_map (form_pair key) (split_char (asc CHR ''&'') body)"

definition http_hex_nibble :: "u8 \<Rightarrow> u8 option" where
  "http_hex_nibble c =
     (if asc CHR ''0'' \<le> c \<and> c \<le> asc CHR ''9'' then Some (c - asc CHR ''0'')
      else if asc CHR ''a'' \<le> c \<and> c \<le> asc CHR ''f'' then Some (c - asc CHR ''a'' + 10)
      else if asc CHR ''A'' \<le> c \<and> c \<le> asc CHR ''F'' then Some (c - asc CHR ''A'' + 10)
      else None)"

text \<open>One iteration of the decoder: the byte written and the number of source bytes consumed.\<close>

definition url_plain :: "u8 \<Rightarrow> u8 \<times> nat" where
  "url_plain c = (if c = asc CHR ''+'' then asc CHR '' '' else c, 1)"

definition url_step :: "bytes \<Rightarrow> nat \<Rightarrow> (u8 \<times> nat) run" where
  "url_step b si =
     do { c \<leftarrow> idx b si;
          if c = asc CHR ''%'' \<and> si + 2 < length b then
            do { x \<leftarrow> idx b (si + 1);
                 y \<leftarrow> idx b (si + 2);
                 case (http_hex_nibble x, http_hex_nibble y) of
                   (Some h, Some l) \<Rightarrow> Some (push_bit 4 h OR l, 3)
                 | _ \<Rightarrow> Some (url_plain c) }
          else Some (url_plain c) }"

lemma upd_length: "upd xs i v = Some ys \<Longrightarrow> length ys = length xs"
  by (auto simp: upd_def split: if_splits)

function url_decode_loop :: "bytes \<Rightarrow> nat \<Rightarrow> nat \<Rightarrow> bytes \<Rightarrow> (nat \<times> bytes) run" where
  "url_decode_loop b si di dst =
     (if si < length b \<and> di < length dst then
        do { (v, n) \<leftarrow> url_step b si;
             dst' \<leftarrow> upd dst di v;
             url_decode_loop b (si + n) (di + 1) dst' }
      else Some (di, dst))"
  by pat_completeness auto
termination
  by (relation "measure (\<lambda>(b, si, di, dst). length dst - di)") (auto dest: upd_length)

declare url_decode_loop.simps [simp del]

definition url_decode_into :: "bytes \<Rightarrow> bytes \<Rightarrow> (nat \<times> bytes) run" where
  "url_decode_into src dst = url_decode_loop src 0 0 dst"

text \<open>
  \<^verbatim>\<open>find_form_value(..).map(|v| url_decode_into(v, &mut buf)).unwrap_or(0)\<close>, then \<^verbatim>\<open>&buf[..len]\<close>.
\<close>

definition form_field :: "bytes \<Rightarrow> bytes \<Rightarrow> nat \<Rightarrow> bytes run" where
  "form_field body key cap =
     do { (n, buf) \<leftarrow> (case find_form_value body key of
                        Some v \<Rightarrow> url_decode_into v (replicate cap 0)
                      | None \<Rightarrow> Some (0, replicate cap 0));
          slice buf 0 n }"

section \<open>Model: handlers\<close>

datatype http_result = Response bytes | Reset

definition bad_request :: bytes where
  "bad_request = ascii ''HTTP/1.1 400 Bad Request'' @ crlf @ ascii ''Content-Length: 0'' @ crlf @ crlf"

definition bad_name :: bytes where
  "bad_name = ascii ''HTTP/1.1 400 Bad Request'' @ crlf @ ascii ''Content-Type: text/plain'' @ crlf @
     ascii ''Content-Length: 9'' @ crlf @ crlf @ ascii ''bad name'' @ [10]"

definition save_failed :: bytes where
  "save_failed = ascii ''HTTP/1.1 500 Internal Server Error'' @ crlf @ ascii ''Content-Length: 12'' @ crlf @ crlf @
     ascii ''save failed'' @ [10]"

definition not_found :: bytes where
  "not_found = ascii ''HTTP/1.1 404 Not Found'' @ crlf @ ascii ''Content-Length: 0'' @ crlf @ crlf"

definition unauthorized :: bytes where
  "unauthorized =
     (let body = ascii ''Authentication required.'' @ [10] in
      ascii ''HTTP/1.1 401 Unauthorized'' @ crlf @ ascii ''WWW-Authenticate: Basic realm='' @ q (ascii ''espcan_br'') @ crlf @
      ascii ''Content-Type: text/plain'' @ crlf @ ascii ''Content-Length: '' @ show_nat (length body) @ crlf @
      ascii ''Connection: close'' @ crlf @ crlf @ body)"

definition bad_user :: bytes where
  "bad_user =
     (let msg = ascii ''username may not contain '' @ [39] @ ascii '':'' @ [39, 10] in
      ascii ''HTTP/1.1 400 Bad Request'' @ crlf @ ascii ''Content-Type: text/plain'' @ crlf @
      ascii ''Content-Length: '' @ show_nat (length msg) @ crlf @ ascii ''Connection: close'' @ crlf @ crlf @ msg)"

definition is_ok :: "(unit + unit) \<times> 'fl \<Rightarrow> bool" where
  "is_ok r = (case fst r of Inr _ \<Rightarrow> True | Inl _ \<Rightarrow> False)"

definition http_save_wifi ::
  "('fl, 'pt, 'p) flash_api \<Rightarrow> bytes \<Rightarrow> 'fl web \<Rightarrow> (http_result \<times> 'fl web) run" where
  "http_save_wifi F body w =
     do { ssid \<leftarrow> form_field body (ascii ''ssid'') 32;
          pass \<leftarrow> form_field body (ascii ''password'') 64;
          if ssid = [] then Some (Response bad_request, w)
          else do { cfg \<leftarrow> set_credentials ssid pass WifiConfig_new;
                    r \<leftarrow> Config.save_wifi F cfg (web_flash w);
                    let w = w\<lparr>web_flash := snd r, WIFI_CONFIG := cfg\<rparr>
                    in Some (if is_ok r then Reset else Response save_failed, w) } }"

definition http_save_device ::
  "('fl, 'pt, 'p) flash_api \<Rightarrow> bytes \<Rightarrow> 'fl web \<Rightarrow> (http_result \<times> 'fl web) run" where
  "http_save_device F body w =
     do { name \<leftarrow> form_field body (ascii ''name'') 32;
          if \<not> (name \<noteq> [] \<and> list_all (\<lambda>b. is_ascii_alphanumeric b \<or> b = asc CHR ''-'') name) then
            Some (Response bad_name, w)
          else do { baud_txt \<leftarrow> form_field body (ascii ''baud'') 16;
                    let baud = (case from_utf8 baud_txt of
                                  None \<Rightarrow> DEFAULT_UART_BAUD
                                | Some s \<Rightarrow> (case parse_uint (2 ^ 32 - 1) (trim s) of
                                     None \<Rightarrow> DEFAULT_UART_BAUD
                                   | Some n \<Rightarrow> if 0 < n then of_nat n else DEFAULT_UART_BAUD)) in
                    do { cfg \<leftarrow> device_defaults;
                         cfg \<leftarrow> device_set name baud cfg;
                         r \<leftarrow> Config.save_device F cfg (web_flash w);
                         let w = w\<lparr>web_flash := snd r, DEVICE_CONFIG := cfg\<rparr>
                         in Some (if is_ok r then Reset else Response save_failed, w) } } }"

definition http_save_autoconnect ::
  "('fl, 'pt, 'p) flash_api \<Rightarrow> bytes \<Rightarrow> 'fl web \<Rightarrow> (http_result \<times> 'fl web) run" where
  "http_save_autoconnect F body w =
     (let enable = (find_form_value body (ascii ''enable'') \<noteq> None) in
      do { u \<leftarrow> form_field body (ascii ''url'') URL_MAX;
           let u = (case from_utf8 u of Some s \<Rightarrow> s | None \<Rightarrow> []) in
           do { cfg \<leftarrow> autoconnect_set enable u AutoConnectConfig_new;
                r \<leftarrow> Config.save_autoconnect F cfg (web_flash w);
                let w = w\<lparr>web_flash := snd r, AUTOCONNECT_CONFIG := cfg\<rparr>
                in Some (if is_ok r then Reset else Response save_failed, w) } })"

definition http_save_auth ::
  "('fl, 'pt, 'p) flash_api \<Rightarrow> (bytes \<Rightarrow> bytes) \<Rightarrow> (nat \<Rightarrow> u32) \<Rightarrow> bytes \<Rightarrow> 'fl web \<Rightarrow> (http_result \<times> 'fl web) run" where
  "http_save_auth F sha rnd body w =
     do { user \<leftarrow> form_field body (ascii ''user'') 32;
          pass \<leftarrow> form_field body (ascii ''pass'') 64;
          if asc CHR '':'' \<in> set user then Some (Response bad_user, w)
          else do { cfg \<leftarrow> auth_set sha rnd user pass AuthConfig_new;
                    r \<leftarrow> Config.save_auth F cfg (web_flash w);
                    let w = w\<lparr>web_flash := snd r, AUTH_CONFIG := cfg\<rparr> in
                    if is_ok r then
                      (let disabled = (user = [] \<or> pass = []);
                           msg = (if disabled then ascii ''Web login disabled.'' @ [10]
                                  else ascii ''Web login updated.'' @ [10])
                       in Some (Response (ok_response (ascii ''text/plain'') msg), w))
                    else Some (Response save_failed, w) } }"

text \<open>The body of a POST: the second piece of the request split at blank lines.\<close>

definition request_body :: "bytes \<Rightarrow> bytes" where
  "request_body request = (case split_str blank_line request of _ # b # _ \<Rightarrow> b | _ \<Rightarrow> [])"

text \<open>What \<^verbatim>\<open>handle_request\<close> does with a request it has read and taken for a \<^verbatim>\<open>str\<close>.\<close>

definition respond ::
  "('fl, 'pt, 'p) flash_api \<Rightarrow> (bytes \<Rightarrow> bytes) \<Rightarrow> (nat \<Rightarrow> u32) \<Rightarrow> web_live \<Rightarrow> bytes \<Rightarrow> 'fl web
   \<Rightarrow> (http_result \<times> 'fl web) run" where
  "respond F sha rnd st request w =
     (let (meth, path) = parse_request_line request in
      do { ok \<leftarrow> authorized sha (GPIO0_HELD st) (AUTH_CONFIG w) request;
           if \<not> ok then Some (Response unauthorized, w)
           else if meth = ascii ''GET'' \<and> path = ascii ''/'' then
             do { r \<leftarrow> index_page st w; Some (Response r, w) }
           else if meth = ascii ''GET'' \<and> path = ascii ''/api/status'' then
             do { r \<leftarrow> status_json st w; Some (Response r, w) }
           else if meth = ascii ''POST'' \<and> path = ascii ''/api/wifi'' then
             http_save_wifi F (request_body request) w
           else if meth = ascii ''POST'' \<and> path = ascii ''/api/device'' then
             http_save_device F (request_body request) w
           else if meth = ascii ''POST'' \<and> path = ascii ''/api/autoconnect'' then
             http_save_autoconnect F (request_body request) w
           else if meth = ascii ''POST'' \<and> path = ascii ''/api/auth'' then
             http_save_auth F sha rnd (request_body request) w
           else Some (Response not_found, w) })"

text \<open>
  \<open>None\<close> as the answer: nothing is sent, because nothing was received or the socket failed.  The bytes are
  taken for a \<^verbatim>\<open>str\<close> unchecked: what happens to a request that is not UTF-8 is undefined.
\<close>

definition handle_request ::
  "('fl, 'pt, 'p) flash_api \<Rightarrow> (bytes \<Rightarrow> bytes) \<Rightarrow> (nat \<Rightarrow> u32) \<Rightarrow> web_live \<Rightarrow> sock_read list \<Rightarrow> 'fl web
   \<Rightarrow> (http_result option \<times> 'fl web) run" where
  "handle_request F sha rnd st reads w =
     do { r \<leftarrow> read_request reads;
          case r of
            Request bs \<Rightarrow> do { request \<leftarrow> from_utf8_unchecked bs;
                              (a, w) \<leftarrow> respond F sha rnd st request w;
                              Some (Some a, w) }
          | _ \<Rightarrow> Some (None, w) }"

section \<open>A request is read whole\<close>

lemma take_Cons_append: "n \<le> Suc (length a) \<Longrightarrow> take n (x # a @ b) = take n (x # a)"
  using take_append [of n "x # a" b] by simp

lemma find_sub_prefix:
  "find_sub p a i = Some k \<Longrightarrow> find_sub p (a @ b) i = Some k"
proof (induction a arbitrary: i)
  case Nil
  then have "p = []" by (simp split: if_splits)
  with Nil show ?case by (cases b) auto
next
  case (Cons x a)
  show ?case
  proof (cases "take (length p) (x # a) = p")
    case True
    then have "length p \<le> length (x # a)" using length_take [of "length p" "x # a"] by simp
    then have "take (length p) ((x # a) @ b) = take (length p) (x # a)" by (simp add: take_Cons_append)
    with True Cons.prems show ?thesis by simp
  next
    case False
    then have k: "find_sub p a (i + 1) = Some k" using Cons.prems by simp
    then have "length p \<le> length a" using find_sub_sound [OF k] by simp
    then have "take (length p) ((x # a) @ b) = take (length p) (x # a)" by (simp add: take_Cons_append)
    with False Cons.IH [OF k] show ?thesis by simp
  qed
qed

lemma find_sub_in_prefix:
  "find_sub p (a @ b) i = Some k \<Longrightarrow> k - i + length p \<le> length a \<Longrightarrow> find_sub p a i = Some k"
proof (induction a arbitrary: i)
  case Nil
  then show ?case by (cases b) (auto split: if_splits dest: find_sub_sound)
next
  case (Cons x a)
  show ?case
  proof (cases "take (length p) ((x # a) @ b) = p")
    case True
    then have "k = i" using Cons.prems(1) by simp
    with Cons.prems(2) have "take (length p) ((x # a) @ b) = take (length p) (x # a)" by (simp add: take_Cons_append)
    with True \<open>k = i\<close> show ?thesis by simp
  next
    case False
    then have k: "find_sub p (a @ b) (i + 1) = Some k" using Cons.prems(1) by simp
    then have i: "i + 1 \<le> k" using find_sub_sound by blast
    have "find_sub p a (i + 1) = Some k" using Cons.IH [OF k] Cons.prems(2) i by simp
    moreover have "take (length p) (x # a) \<noteq> p"
    proof
      assume t: "take (length p) (x # a) = p"
      then have "length p \<le> length (x # a)" using length_take [of "length p" "x # a"] by simp
      with t False show False by (simp add: take_Cons_append)
    qed
    ultimately show ?thesis by simp
  qed
qed

lemma length_blank_line [simp]: "length blank_line = 4"
  by (simp add: blank_line_def crlf_def)

lemma next_need_prefix:
  assumes "find_subslice req blank_line = Some i"
    "length req = i + 4 + (case content_length (take (i + 4) req) of Some n \<Rightarrow> n | None \<Rightarrow> 0)"
    "length req \<le> 1024" "pos \<le> length req"
  shows "next_need (take pos req) None 1024 = (if i + 4 \<le> pos then Some (length req) else None)"
proof (cases "i + 4 \<le> pos")
  case True
  have "find_subslice (take pos req) blank_line = Some i"
    using assms(1) True find_sub_in_prefix [of blank_line "take pos req" "drop pos req" 0 i] assms(4)
    by (simp add: find_subslice_def)
  moreover have "take (i + 4) (take pos req) = take (i + 4) req" using True by (simp add: min_def)
  ultimately show ?thesis using True assms(2,3) by (simp add: next_need_def Let_def USIZE_MAX_def)
next
  case False
  have "find_subslice (take pos req) blank_line = None"
  proof (rule ccontr)
    assume "find_subslice (take pos req) blank_line \<noteq> None"
    then obtain j where j: "find_sub blank_line (take pos req) 0 = Some j" by (auto simp: find_subslice_def)
    then have "find_sub blank_line req 0 = Some j" using find_sub_prefix [OF j, of "drop pos req"] by simp
    with assms(1) have "j = i" by (simp add: find_subslice_def)
    with find_sub_sound [OF j] False assms(4) show False by simp
  qed
  then show ?thesis using False by (simp add: next_need_def)
qed

lemma read_loop_chunks:
  assumes req: "find_subslice req blank_line = Some i"
    "length req = i + 4 + (case content_length (take (i + 4) req) of Some n \<Rightarrow> n | None \<Rightarrow> 0)" "length req \<le> 1024"
  shows "concat cs = drop pos req \<Longrightarrow> pos \<le> length req \<Longrightarrow> [] \<notin> set cs \<Longrightarrow> length buf = 1024 \<Longrightarrow>
    take pos buf = take pos req \<Longrightarrow>
    read_loop (map ReadOk cs @ rest) buf pos (if i + 4 \<le> pos then Some (length req) else None) = Some (Request req)"
proof (induction cs arbitrary: pos buf)
  case Nil
  then have "pos = length req" by simp
  then show ?case using Nil req by (subst read_loop.simps) (simp add: slice_def)
next
  case (Cons c cs)
  let ?need = "\<lambda>pos. if i + 4 \<le> pos then Some (length req) else None"
  let ?pos = "pos + length c"
  have "c @ concat cs = drop pos req" using Cons.prems(1) by simp
  then have "c = take (length c) (drop pos req)" "concat cs = drop (length c) (drop pos req)"
    unfolding append_eq_conv_conj by simp_all
  then have c: "c \<noteq> []" "c = take (length c) (drop pos req)" and rest: "concat cs = drop ?pos req"
    using Cons.prems(3) by (auto simp: add.commute)
  have le: "?pos \<le> length req"
    using arg_cong [OF Cons.prems(1), of length] Cons.prems(2) by simp
  let ?buf = "take pos buf @ c @ drop ?pos buf"
  have buf: "copy_range buf pos ?pos c = Some ?buf" "length ?buf = 1024"
    using le req(3) Cons.prems(4) by (simp_all add: copy_range_def)
  have "take ?pos req = take pos req @ c" using c(2) by (metis take_add)
  moreover have "take ?pos ?buf = take pos buf @ c" using Cons.prems(2,4) le req(3) by simp
  ultimately have tk: "take ?pos ?buf = take ?pos req" using Cons.prems(5) by simp
  have "slice ?buf 0 ?pos = Some (take ?pos req)"
    using tk buf(2) le req(3) by (simp add: slice_def del: take_append)
  moreover have "next_need (take ?pos req) (?need pos) 1024 = ?need ?pos"
    using next_need_prefix [OF req le] by (auto simp: next_need_def)
  moreover have "\<not> ((case ?need pos of Some n \<Rightarrow> n \<le> pos | None \<Rightarrow> False) \<or> length buf \<le> pos)"
    using le c(1) req(3) Cons.prems(4) by (cases c) auto
  ultimately have "read_loop (map ReadOk (c # cs) @ rest) buf pos (?need pos) =
      read_loop (map ReadOk cs @ rest) ?buf ?pos (?need ?pos)"
    using buf c(1) by (subst read_loop.simps) (simp del: take_append)
  also have "\<dots> = Some (Request req)"
    using Cons.prems(3) rest le buf(2) tk by (intro Cons.IH) simp_all
  finally show ?case .
qed

text \<open>
  What a whole request is, independently of the code: lines ended by CR LF, an empty line, and a body of
  the length the header announces.  A line announces \<open>n\<close> if its name is Content-Length in any case and its
  value \<open>n\<close> in decimal, with spaces or tabs around it; the first such line counts, no line before it may
  carry that text in its name, and without such a line there is no body.
\<close>

definition announces :: "nat \<Rightarrow> bytes \<Rightarrow> bool" where
  "announces n l \<longleftrightarrow> (\<exists>k a b. l = k @ asc CHR '':'' # a @ show_nat n @ b \<and>
     map to_ascii_lower k = ascii ''content-length'' \<and> set (a @ b) \<subseteq> {9, 32})"

definition other_header :: "bytes \<Rightarrow> bool" where
  "other_header l \<longleftrightarrow>
     \<not> sublist (ascii ''content-length'') (map to_ascii_lower (takeWhile (\<lambda>b. b \<noteq> asc CHR '':'') l))"

definition body_length :: "bytes list \<Rightarrow> nat \<Rightarrow> bool" where
  "body_length ls n \<longleftrightarrow> list_all other_header ls \<and> n = 0 \<or>
     (\<exists>before l after. ls = before @ l # after \<and> list_all other_header before \<and> announces n l)"

definition plain_line :: "bytes \<Rightarrow> bool" where
  "plain_line l \<longleftrightarrow> l \<noteq> [] \<and> 13 \<notin> set l \<and> 10 \<notin> set l \<and> utf8_ok l"

definition head_text :: "bytes list \<Rightarrow> bytes" where
  "head_text ls = concat (map (\<lambda>l. l @ crlf) ls)"

definition whole_request :: "bytes \<Rightarrow> bool" where
  "whole_request req \<longleftrightarrow> (\<exists>ls body. req = head_text ls @ crlf @ body \<and> ls \<noteq> [] \<and> list_all plain_line ls \<and>
     body_length ls (length body))"

lemma head_text_simps [simp]: "head_text [] = []" "head_text (l # ls) = l @ crlf @ head_text ls"
  by (simp_all add: head_text_def)

text \<open>The name and the value of a header line, as the code reads them.\<close>

lemma content_length_announced: "announces n l \<Longrightarrow> n \<le> USIZE_MAX \<Longrightarrow> content_length_of l = Some n"
proof -
  assume "announces n l" and n: "n \<le> USIZE_MAX"
  then obtain k a b where l: "l = k @ asc CHR '':'' # a @ show_nat n @ b"
    and k: "map to_ascii_lower k = ascii ''content-length''" and ws: "set (a @ b) \<subseteq> {9, 32}"
    unfolding announces_def by blast
  have vis: "visible x" if "to_ascii_lower x \<in> set (ascii ''content-length'')" for x
    using that by (auto simp: to_ascii_lower_def visible_def word_le_nat_alt split: if_splits)
  have x: "\<forall>x \<in> set k. to_ascii_lower x \<in> set (ascii ''content-length'')" using k by (metis image_eqI set_map)
  have k0: "k \<noteq> []" using k by auto
  then have "trim k = k" using trim_blanks [of "[]" "[]" k] vis x by simp
  moreover have "asc CHR '':'' \<notin> set k" using x by (auto simp: to_ascii_lower_def)
  moreover have "trim (a @ show_nat n @ b) = show_nat n"
    using show_nat_digits [of n] by (intro trim_blanks [OF ws]) (simp_all add: list_all_iff visible_digit)
  moreover have "map to_ascii_lower (ascii ''content-length'') = ascii ''content-length''"
    by (simp add: to_ascii_lower_def)
  ultimately show ?thesis
    using k n by (simp add: l content_length_of_def split_once_append eq_ignore_ascii_case_def parse_show del: ascii_simps)
qed

lemma content_length_other: "other_header l \<Longrightarrow> content_length_of l = None"
proof -
  assume o: "other_header l"
  show ?thesis
  proof (cases "split_once (asc CHR '':'') l")
    case (Some p)
    obtain k v where p: "p = (k, v)" by fastforce
    with Some have "l = k @ asc CHR '':'' # v" "asc CHR '':'' \<notin> set k" using split_once_Some by blast+
    then have "takeWhile (\<lambda>b. b \<noteq> asc CHR '':'') l = k"
      by (auto simp: takeWhile_append intro: takeWhile_eq_all_conv [THEN iffD2])
    then have "\<not> sublist (ascii ''content-length'') (map to_ascii_lower k)" using o by (simp add: other_header_def del: ascii_simps)
    moreover have "sublist (map to_ascii_lower (trim k)) (map to_ascii_lower k)"
      using trim_sublist [of k] unfolding sublist_def by (metis map_append)
    moreover have "map to_ascii_lower (ascii ''content-length'') = ascii ''content-length''"
      by (simp add: to_ascii_lower_def)
    ultimately have "\<not> eq_ignore_ascii_case (trim k) (ascii ''content-length'')"
      unfolding eq_ignore_ascii_case_def by metis
    with Some p show ?thesis by (simp add: content_length_of_def del: ascii_simps)
  qed (simp add: content_length_of_def)
qed

lemma split_once_str_crlf: "13 \<notin> set l \<Longrightarrow> split_once_str crlf (l @ crlf @ r) = Some (l, r)"
  by (induction l) (simp_all add: crlf_def strip_prefix_def)

lemma split_str_head: "list_all plain_line ls \<Longrightarrow> split_str crlf (head_text ls @ r) = ls @ split_str crlf r"
proof (induction ls)
  case (Cons l ls)
  then have "split_once_str crlf (l @ crlf @ head_text ls @ r) = Some (l, head_text ls @ r)"
    by (intro split_once_str_crlf) (simp add: plain_line_def)
  moreover have "crlf \<noteq> []" by (simp add: crlf_def)
  ultimately show ?case using Cons by (subst split_str.simps) simp
qed simp

lemma find_map_others: "list_all other_header ls \<Longrightarrow> find_map content_length_of (ls @ r) = find_map content_length_of r"
  by (induction ls) (simp_all add: content_length_other)

lemma utf8_ok_head: "list_all plain_line ls \<Longrightarrow> utf8_ok (head_text ls @ crlf)"
  by (induction ls) (simp_all add: crlf_def utf8_ok_append plain_line_def)

lemma content_length_head:
  assumes "list_all plain_line ls" "body_length ls n" "n \<le> USIZE_MAX"
  shows "(case content_length (head_text ls @ crlf) of Some n \<Rightarrow> n | None \<Rightarrow> 0) = n"
proof -
  have "split_str crlf crlf = [[], []]" by (simp add: split_str.simps crlf_def strip_prefix_def)
  then have c: "content_length (head_text ls @ crlf) = find_map content_length_of (ls @ [[], []])"
    using utf8_ok_head [OF assms(1)] split_str_head [OF assms(1), of crlf] by (simp add: content_length_def from_utf8_def)
  from assms(2) show ?thesis unfolding body_length_def
  proof (elim disjE exE conjE)
    assume "list_all other_header ls" "n = 0"
    then show ?thesis by (simp add: c find_map_others content_length_of_def)
  next
    fix before l after
    assume "ls = before @ l # after" "list_all other_header before" "announces n l"
    then show ?thesis unfolding c using content_length_announced [OF _ assms(3)] by (simp add: find_map_others)
  qed
qed

text \<open>The end of the header is its first empty line.\<close>

lemma find_sub_skip: "c \<notin> set l \<Longrightarrow> find_sub (c # p) (l @ r) i = find_sub (c # p) r (i + length l)"
  by (induction l arbitrary: i) auto

lemma find_blank_line:
  "list_all plain_line ls \<Longrightarrow> ls \<noteq> [] \<Longrightarrow>
   find_sub blank_line (head_text ls @ crlf @ r) i = Some (i + length (head_text ls) - 2)"
proof (induction ls arbitrary: i)
  case (Cons l ls)
  then have l: "13 \<notin> set l" by (simp add: plain_line_def)
  then have skip: "find_sub blank_line (l @ crlf @ t) i = find_sub blank_line (crlf @ t) (i + length l)" for t
    using find_sub_skip [of 13 l "[10, 13, 10]"] by (simp add: blank_line_def crlf_def)
  show ?case
  proof (cases ls)
    case Nil
    with skip show ?thesis by (simp add: blank_line_def crlf_def)
  next
    case (Cons l' ls')
    then obtain x l'' where "l' = x # l''" "x \<noteq> 13" using Cons.prems by (cases l') (auto simp: plain_line_def)
    with Cons have "find_sub blank_line (crlf @ head_text ls @ crlf @ r) j =
        find_sub blank_line (head_text ls @ crlf @ r) (j + 2)" for j
      by (simp add: blank_line_def crlf_def)
    moreover have "2 \<le> length (head_text ls)" using Cons by (simp add: crlf_def)
    ultimately show ?thesis using skip Cons.IH [of "i + length l + 2"] Cons.prems Cons by (simp add: crlf_def)
  qed
qed simp

lemma whole_request_frame:
  assumes "whole_request req" "length req \<le> 1024"
  shows "\<exists>i. find_subslice req blank_line = Some i \<and>
    length req = i + 4 + (case content_length (take (i + 4) req) of Some n \<Rightarrow> n | None \<Rightarrow> 0)"
proof -
  obtain ls body where r: "req = head_text ls @ crlf @ body" "ls \<noteq> []" "list_all plain_line ls" "body_length ls (length body)"
    using assms(1) by (auto simp: whole_request_def)
  let ?i = "length (head_text ls) - 2"
  have two: "2 \<le> length (head_text ls)" using r(2) by (cases ls) (simp_all add: crlf_def)
  have "length body \<le> USIZE_MAX" using assms(2) r(1) by (simp add: USIZE_MAX_def)
  then have "(case content_length (head_text ls @ crlf) of Some n \<Rightarrow> n | None \<Rightarrow> 0) = length body"
    by (rule content_length_head [OF r(3,4)])
  moreover have "take (?i + 4) req = head_text ls @ crlf" using two by (simp add: r(1) crlf_def)
  moreover have "length req = ?i + 4 + length body" using two by (simp add: r(1) crlf_def)
  ultimately show ?thesis
    using find_blank_line [OF r(3,2), of body 0] r(1) by (auto simp: find_subslice_def)
qed

text \<open>
  C18.  A request is read whole, however the network cuts it.  For every request of at most 1024 bytes
  made of UTF-8 header lines, an empty line and a body of the length announced by its Content-Length line
  (name in any case, blanks around the number; no body without such a line), and every way of delivering
  it in non-empty segments, the reader returns exactly the bytes of the request: it neither stops at the
  end of the header nor waits for more, and what follows on the socket is not consumed.
\<close>

theorem request_read_whole:
  assumes "whole_request (concat chunks)" "length (concat chunks) \<le> 1024" "[] \<notin> set chunks"
  shows "read_request (map ReadOk chunks @ rest) = Some (Request (concat chunks))"
proof -
  obtain i where i: "find_subslice (concat chunks) blank_line = Some i"
    "length (concat chunks) = i + 4 + (case content_length (take (i + 4) (concat chunks)) of Some n \<Rightarrow> n | None \<Rightarrow> 0)"
    using whole_request_frame [OF assms(1,2)] by blast
  show ?thesis
    using read_loop_chunks [OF i assms(2), of chunks 0 "replicate 1024 0" rest] assms(3)
    by (simp add: read_request_def)
qed

lemma demo_request_whole:
  "whole_request (ascii ''P'' @ crlf @ ascii ''Content-Length: 2'' @ crlf @ crlf @ ascii ''hi'')"
proof -
  let ?ls = "[ascii ''P'', ascii ''Content-Length: 2'']"
  have plain: "list_all plain_line ?ls" by (simp add: plain_line_def)
  have "other_header (ascii ''P'')" by (auto simp: other_header_def dest!: sublist_length_le)
  moreover have "announces 2 (ascii ''Content-Length: 2'')"
    unfolding announces_def
    by (rule exI [of _ "ascii ''Content-Length''"], rule exI [of _ "[32]"], rule exI [of _ "[]"])
      (simp add: show_nat.simps digit_char_def to_ascii_lower_def)
  ultimately have "body_length ?ls 2" unfolding body_length_def
    by (intro disjI2 exI [of _ "[ascii ''P'']"] exI [of _ "ascii ''Content-Length: 2''"] exI [of _ "[]"]) simp
  with plain show ?thesis unfolding whole_request_def
    by (intro exI [of _ ?ls] exI [of _ "ascii ''hi''"]) (simp add: numeral_2_eq_2)
qed

theorem request_read_whole_witness:
  "read_request (map ReadOk [ascii ''P'' @ crlf @ ascii ''Content-Le'', ascii ''ngth: 2'' @ crlf @ crlf, ascii ''hi''] @ [ReadErr]) =
     Some (Request (ascii ''P'' @ crlf @ ascii ''Content-Length: 2'' @ crlf @ crlf @ ascii ''hi''))"
  using request_read_whole [of "[ascii ''P'' @ crlf @ ascii ''Content-Le'', ascii ''ngth: 2'' @ crlf @ crlf, ascii ''hi'']" "[ReadErr]"]
    demo_request_whole
  by (simp add: crlf_def)

section \<open>Base64\<close>

text \<open>The reference encoder: groups of three bytes as four digits, the last group padded.\<close>

definition b64_char :: "u8 \<Rightarrow> u8" where
  "b64_char v =
     (if v < 26 then asc CHR ''A'' + v
      else if v < 52 then asc CHR ''a'' + (v - 26)
      else if v < 62 then asc CHR ''0'' + (v - 52)
      else if v = 62 then asc CHR ''+'' else asc CHR ''/'')"

fun b64_encode :: "bytes \<Rightarrow> bytes" where
  "b64_encode [] = []"
| "b64_encode [a] = [b64_char (drop_bit 2 a), b64_char (push_bit 4 (a AND 3)), asc CHR ''='', asc CHR ''='']"
| "b64_encode [a, b] =
     [b64_char (drop_bit 2 a), b64_char (push_bit 4 (a AND 3) OR drop_bit 4 b), b64_char (push_bit 2 (b AND 15)), asc CHR ''='']"
| "b64_encode (a # b # c # r) =
     b64_char (drop_bit 2 a) # b64_char (push_bit 4 (a AND 3) OR drop_bit 4 b) #
     b64_char (push_bit 2 (b AND 15) OR drop_bit 6 c) # b64_char (c AND 63) # b64_encode r"

lemma b64_all:
  "list_all (\<lambda>v. base64_value (b64_char v) = Some v \<and> b64_char v \<noteq> asc CHR ''='') (map of_nat [0..<64])"
  by (simp add: upt_rec b64_char_def base64_value_def)

lemma b64_char_value:
  assumes "v < 64"
  shows "base64_value (b64_char v) = Some v" "b64_char v \<noteq> asc CHR ''=''"
proof -
  have "unat v < 64" using assms by (simp add: word_less_nat_alt)
  then have "v \<in> set (map of_nat [0..<64])" by (intro image_eqI [of _ _ "unat v"] | simp)+
  then show "base64_value (b64_char v) = Some v" "b64_char v \<noteq> asc CHR ''=''"
    using b64_all unfolding list_all_iff by blast+
qed

text \<open>Bytes bit by bit.\<close>

lemma low_bits: "(a :: u8) AND 3 = take_bit 2 a" "(a :: u8) AND 63 = take_bit 6 a"
  by (simp_all add: take_bit_eq_mask mask_eq_exp_minus_1)

lemma u8_beyond: "8 \<le> n \<Longrightarrow> \<not> bit (c :: u8) n"
  using bit_imp_le_length [of c n] by auto

lemma u8_eqI:
  assumes "bit x 0 = bit y 0" "bit x 1 = bit y 1" "bit x 2 = bit y 2" "bit x 3 = bit y 3" "bit x 4 = bit y 4"
    "bit x 5 = bit y 5" "bit x 6 = bit y 6" "bit x 7 = bit y 7"
  shows "x = (y :: u8)"
proof (rule bit_word_eqI)
  fix n assume "n < LENGTH(8)"
  then have "n \<in> {0, 1, 2, 3, 4, 5, 6, 7}" by auto
  then show "bit x n = bit y n" using assms by auto
qed

lemma sextet_lt: "take_bit 6 v = v \<Longrightarrow> (v :: u8) < 64"
proof -
  assume "take_bit 6 v = v"
  then have "unat v = take_bit 6 (unat v)" by (metis unsigned_take_bit_eq)
  also have "\<dots> < 2 ^ 6" by (rule take_bit_nat_less_exp)
  finally show ?thesis by (simp add: word_less_nat_alt)
qed

lemma sextet_bounds:
  fixes a b c :: u8
  shows "drop_bit 2 a < 64" "push_bit 4 (a AND 3) < 64" "push_bit 4 (a AND 3) OR drop_bit 4 b < 64"
    "push_bit 2 (b AND 15) < 64" "push_bit 2 (b AND 15) OR drop_bit 6 c < 64" "c AND 63 < 64"
  by (rule sextet_lt, rule u8_eqI; simp add: low_bits and_15_take_bit bit_simps u8_beyond)+

lemma sextets_join:
  fixes a b c :: u8 and acc :: u32
  shows "ucast (drop_bit 4 (push_bit 6 (push_bit 6 acc OR ucast (drop_bit 2 a)) OR ucast (push_bit 4 (a AND 3)))) = a"
    "ucast (drop_bit 4 (push_bit 6 (push_bit 6 acc OR ucast (drop_bit 2 a)) OR ucast (push_bit 4 (a AND 3) OR drop_bit 4 b))) = a"
    "ucast (drop_bit 2 (push_bit 6 (push_bit 6 acc OR ucast (push_bit 4 (a AND 3) OR drop_bit 4 b)) OR
       ucast (push_bit 2 (b AND 15)))) = b"
    "ucast (drop_bit 2 (push_bit 6 (push_bit 6 acc OR ucast (push_bit 4 (a AND 3) OR drop_bit 4 b)) OR
       ucast (push_bit 2 (b AND 15) OR drop_bit 6 c))) = b"
    "ucast (drop_bit 0 (push_bit 6 (push_bit 6 acc OR ucast (push_bit 2 (b AND 15) OR drop_bit 6 c)) OR ucast (c AND 63))) = c"
  by (rule u8_eqI; simp add: low_bits and_15_take_bit bit_simps u8_beyond)+

text \<open>The decoder digit by digit: the four states of its bit counter.\<close>

lemma base64_steps:
  assumes "v < 64"
  shows "base64_loop (b64_char v # cs) acc 0 di dst = base64_loop cs (push_bit 6 acc OR ucast v) 6 di dst"
    "di < length dst \<Longrightarrow> base64_loop (b64_char v # cs) acc 6 di dst =
       base64_loop cs (push_bit 6 acc OR ucast v) 4 (di + 1) (dst[di := ucast (drop_bit 4 (push_bit 6 acc OR ucast v))])"
    "di < length dst \<Longrightarrow> base64_loop (b64_char v # cs) acc 4 di dst =
       base64_loop cs (push_bit 6 acc OR ucast v) 2 (di + 1) (dst[di := ucast (drop_bit 2 (push_bit 6 acc OR ucast v))])"
    "di < length dst \<Longrightarrow> base64_loop (b64_char v # cs) acc 2 di dst =
       base64_loop cs (push_bit 6 acc OR ucast v) 0 (di + 1) (dst[di := ucast (drop_bit 0 (push_bit 6 acc OR ucast v))])"
  using b64_char_value [OF assms] by (simp_all add: Let_def upd_def)

lemma list_update_drop:
  "di < length dst \<Longrightarrow> take di dst @ x # drop (Suc di) dst = dst[di := x]"
  by (simp add: upd_conv_take_nth_drop)

lemma base64_loop_encode:
  "di + length s \<le> length dst \<Longrightarrow>
   base64_loop (b64_encode s) acc 0 di dst = Some (Some (di + length s), take di dst @ s @ drop (di + length s) dst)"
proof (induction s arbitrary: acc di dst rule: b64_encode.induct)
  case 1
  then show ?case by simp
next
  case (2 a)
  then have "di < length dst" by simp
  then show ?case
    unfolding b64_encode.simps base64_steps(1) [OF sextet_bounds(1)] base64_steps(2) [OF sextet_bounds(2) \<open>di < length dst\<close>]
      sextets_join by (simp add: list_update_drop)
next
  case (3 a b)
  then have d: "di < length dst" "di + 1 < length (dst[di := a])" by simp_all
  show ?case
    unfolding b64_encode.simps base64_steps(1) [OF sextet_bounds(1)] base64_steps(2) [OF sextet_bounds(3) d(1)]
      sextets_join base64_steps(3) [OF sextet_bounds(4) d(2)]
    using d by (simp add: upd_conv_take_nth_drop take_Suc_conv_app_nth)
next
  case (4 a b c r)
  let ?dst = "dst[di := a, di + 1 := b, di + 1 + 1 := c]"
  have d: "di < length dst" "di + 1 < length (dst[di := a])" "di + 1 + 1 < length (dst[di := a, di + 1 := b])"
    using "4.prems" by simp_all
  have "base64_loop (b64_encode (a # b # c # r)) acc 0 di dst = Some (Some (di + 1 + 1 + 1 + length r),
      take (di + 1 + 1 + 1) ?dst @ r @ drop (di + 1 + 1 + 1 + length r) ?dst)"
    unfolding b64_encode.simps base64_steps(1) [OF sextet_bounds(1)] base64_steps(2) [OF sextet_bounds(3) d(1)]
      sextets_join base64_steps(3) [OF sextet_bounds(5) d(2)] base64_steps(4) [OF sextet_bounds(6) d(3)]
    using "4.prems" by (intro "4.IH") simp
  moreover have "take (di + 1 + 1 + 1) ?dst = take di dst @ [a, b, c]"
    using d by (simp add: take_Suc_conv_app_nth)
  ultimately show ?case by simp
qed

section \<open>Forms\<close>

interpretation http_hex: hex_codec http_hex_nibble hex_digit
proof -
  have "http_hex_nibble = nibble" by (simp add: fun_eq_iff http_hex_nibble_def nibble_def)
  then show "hex_codec http_hex_nibble hex_digit" using slcan_hex.hex_codec_axioms by simp
qed

text \<open>How a browser encodes a form value (\<^verbatim>\<open>application/x-www-form-urlencoded\<close>).\<close>

definition url_keep :: "u8 \<Rightarrow> bool" where
  "url_keep c \<longleftrightarrow> is_ascii_alphanumeric c \<or> c \<in> set (ascii ''*-._'')"

definition url_encode_char :: "u8 \<Rightarrow> bytes" where
  "url_encode_char c =
     (if c = asc CHR '' '' then [asc CHR ''+'']
      else if url_keep c then [c]
      else [asc CHR ''%'', hex_digit (drop_bit 4 c), hex_digit c])"

definition url_encode :: "bytes \<Rightarrow> bytes" where
  "url_encode s = concat (map url_encode_char s)"

lemma url_encode_simps [simp]: "url_encode [] = []" "url_encode (c # s) = url_encode_char c @ url_encode s"
  by (simp_all add: url_encode_def)

lemma url_keep_plain: "url_keep c \<Longrightarrow> c \<noteq> asc CHR ''%'' \<and> c \<noteq> asc CHR ''+'' \<and> c \<noteq> asc CHR ''&''"
  by (auto simp: url_keep_def is_ascii_alphanumeric_def is_ascii_digit_def)

lemma hex_digit_not_amp: "hex_digit v \<noteq> asc CHR ''&''"
proof
  assume "hex_digit v = asc CHR ''&''"
  then have "http_hex_nibble (asc CHR ''&'') = Some (v AND 15)" using http_hex.dec_enc [of v] by simp
  then show False by (simp add: http_hex_nibble_def)
qed

lemma url_encode_no_amp: "asc CHR ''&'' \<notin> set (url_encode s)"
proof (induction s)
  case (Cons c s)
  have "asc CHR ''&'' \<notin> set (url_encode_char c)"
    using url_keep_plain [of c] hex_digit_not_amp [of c] hex_digit_not_amp [of "drop_bit 4 c"]
    by (auto simp: url_encode_char_def)
  with Cons show ?case by simp
qed simp

lemma url_step_encoded:
  "url_step (pre @ url_encode_char c @ r) (length pre) = Some (c, length (url_encode_char c))"
proof -
  have join: "push_bit 4 (drop_bit 4 c) OR (c AND 15) = c" using nibbles_join [of c] by (simp add: join_nibbles_def)
  consider "c = asc CHR '' ''" | "c \<noteq> asc CHR '' ''" "url_keep c" | "c \<noteq> asc CHR '' ''" "\<not> url_keep c" by blast
  then show ?thesis
  proof cases
    case 2
    then show ?thesis
      using url_keep_plain [of c] by (simp add: url_encode_char_def url_step_def idx_def nth_append url_plain_def)
  next
    case 3
    then show ?thesis
      using http_hex.dec_enc_high [of c] http_hex.dec_enc [of c] join
      by (simp add: url_encode_char_def url_step_def idx_def nth_append)
  qed (simp add: url_encode_char_def url_step_def idx_def nth_append url_plain_def)
qed

lemma url_decode_encoded:
  "di \<le> length dst \<Longrightarrow> url_decode_loop (pre @ url_encode s) (length pre) di dst =
     Some (min (di + length s) (length dst), take di dst @ take (length dst - di) s @ drop (di + length s) dst)"
proof (induction s arbitrary: pre di dst)
  case Nil
  then show ?case by (subst url_decode_loop.simps) simp
next
  case (Cons c s)
  have ne: "0 < length (url_encode_char c)" by (simp add: url_encode_char_def)
  show ?case
  proof (cases "di < length dst")
    case True
    let ?dst = "dst[di := c]"
    have "url_decode_loop (pre @ url_encode (c # s)) (length pre) di dst =
        url_decode_loop ((pre @ url_encode_char c) @ url_encode s) (length (pre @ url_encode_char c)) (di + 1) ?dst"
      using True ne url_step_encoded [of pre c "url_encode s"] by (subst url_decode_loop.simps) (simp add: upd_def)
    also have "\<dots> = Some (min (di + 1 + length s) (length ?dst),
        take (di + 1) ?dst @ take (length ?dst - (di + 1)) s @ drop (di + 1 + length s) ?dst)"
      using True by (intro Cons.IH) simp
    also have "take (di + 1) ?dst = take di dst @ [c]" using True by (simp add: take_Suc_conv_app_nth)
    finally show ?thesis using True by (simp add: Suc_diff_Suc take_Cons')
  next
    case False
    with Cons.prems show ?thesis by (subst url_decode_loop.simps) simp
  qed
qed

lemma form_field_encoded:
  assumes "find_form_value body key = Some (url_encode v)"
  shows "form_field body key cap = Some (take cap v)"
  using url_decode_encoded [of 0 "replicate cap 0" "[]" v] assms
  by (simp add: form_field_def url_decode_into_def slice_def min_def)

text \<open>The body a browser sends for a form with two fields.\<close>

definition two_field_form :: "bytes \<Rightarrow> bytes \<Rightarrow> bytes \<Rightarrow> bytes \<Rightarrow> bytes" where
  "two_field_form k1 v1 k2 v2 =
     k1 @ asc CHR ''='' # url_encode v1 @ asc CHR ''&'' # k2 @ asc CHR ''='' # url_encode v2"

lemma two_fields:
  assumes "asc CHR ''='' \<notin> set k1" "asc CHR ''&'' \<notin> set k1" "asc CHR ''='' \<notin> set k2" "asc CHR ''&'' \<notin> set k2" "k1 \<noteq> k2"
  shows "form_field (two_field_form k1 v1 k2 v2) k1 cap = Some (take cap v1)"
    "form_field (two_field_form k1 v1 k2 v2) k2 cap = Some (take cap v2)"
proof -
  have "split_char (asc CHR ''&'') (two_field_form k1 v1 k2 v2) =
      [k1 @ asc CHR ''='' # url_encode v1, k2 @ asc CHR ''='' # url_encode v2]"
    using split_char_append [of "asc CHR ''&''" "k1 @ asc CHR ''='' # url_encode v1" "k2 @ asc CHR ''='' # url_encode v2"]
      split_char_no [of "asc CHR ''&''" "k2 @ asc CHR ''='' # url_encode v2"] assms(2,4) url_encode_no_amp
    by (simp add: two_field_form_def)
  then have "find_form_value (two_field_form k1 v1 k2 v2) k1 = Some (url_encode v1)"
    "find_form_value (two_field_form k1 v1 k2 v2) k2 = Some (url_encode v2)"
    using assms(1,3,5) by (simp_all add: find_form_value_def form_pair_def split_once_append)
  then show "form_field (two_field_form k1 v1 k2 v2) k1 cap = Some (take cap v1)"
    "form_field (two_field_form k1 v1 k2 v2) k2 cap = Some (take cap v2)"
    by (simp_all add: form_field_encoded)
qed

section \<open>Saving through the web\<close>

lemma is_okD: "is_ok r \<Longrightarrow> r = (Inr (), snd r)"
  by (cases r) (auto simp: is_ok_def split: sum.splits)

section \<open>Logging in\<close>

text \<open>The outcome of a request whose Authorization header carries the given pair.\<close>

lemma authorized_pair:
  assumes "auth_is_set cfg" "basic_auth_token request = Some (b64_encode (user @ asc CHR '':'' # pass))"
    "asc CHR '':'' \<notin> set user" "utf8_ok (user @ asc CHR '':'' # pass)" "length user + length pass < 128"
  shows "authorized sha False cfg request = auth_verify sha cfg user pass"
proof -
  let ?s = "user @ asc CHR '':'' # pass"
  have "base64_decode (b64_encode ?s) (replicate 128 0) = Some (Some (length ?s), ?s @ drop (length ?s) (replicate 128 0))"
    using base64_loop_encode [of 0 ?s "replicate 128 0" 0] assms(5) by (simp add: base64_decode_def)
  moreover have "slice (?s @ drop (length ?s) (replicate 128 0)) 0 (length ?s) = Some ?s"
    by (simp add: slice_def)
  ultimately show ?thesis
    using assms(1-4) by (simp add: authorized_def from_utf8_def split_once_append)
qed

text \<open>
  C19.  The login that was saved is the login that works.  After the login form was submitted with a
  user of 1 to 32 bytes without a colon and a password of 1 to 64 bytes, a request whose Basic
  Authorization header encodes a pair is let through exactly when the user is the one that was saved
  and the salted hashes of the passwords agree, for any 32-byte hash, any salt and any such pair of
  valid UTF-8; in particular the saved pair is let through.
\<close>

theorem saved_login_works:
  assumes "\<And>m. length (sha m) = 32" "user \<noteq> []" "length user \<le> 32" "asc CHR '':'' \<notin> set user"
    "pass \<noteq> []" "length pass \<le> 64"
    "basic_auth_token request = Some (b64_encode (u @ asc CHR '':'' # p))"
    "asc CHR '':'' \<notin> set u" "utf8_ok (u @ asc CHR '':'' # p)" "length u + length p < 128"
  shows "\<exists>res w'. http_save_auth F sha rnd (two_field_form (ascii ''user'') user (ascii ''pass'') pass) w = Some (res, w') \<and>
     authorized sha False (AUTH_CONFIG w') request =
       Some (u = user \<and> sha (salt (AUTH_CONFIG w') @ p) = sha (salt (AUTH_CONFIG w') @ pass))"
proof -
  let ?body = "two_field_form (ascii ''user'') user (ascii ''pass'') pass"
  have f: "form_field ?body (ascii ''user'') 32 = Some user" "form_field ?body (ascii ''pass'') 64 = Some pass"
    using two_fields [of "ascii ''user''" "ascii ''pass''" user pass] assms(3,6) by (simp_all del: ascii_simps, simp_all)
  obtain c where c: "auth_set sha rnd user pass AuthConfig_new = Some c" "auth_good c" "auth_is_set c"
    "\<And>u p. auth_verify sha c u p = Some (u = user \<and> sha (salt c @ p) = sha (salt c @ pass))"
    using auth_set_result [of sha rnd user pass, OF assms(1)] assms(2,3,5) by auto
  obtain r where r: "Config.save_auth F c (web_flash w) = Some r" using auth_slot.save_total [OF c(2), of F "web_flash w"] by auto
  have "\<exists>res. http_save_auth F sha rnd ?body w = Some (res, w\<lparr>web_flash := snd r, AUTH_CONFIG := c\<rparr>)"
    using f c(1) r assms(4) by (simp add: http_save_auth_def Let_def del: ascii_simps)
  with authorized_pair [OF c(3) assms(7-10), of sha] c(4) show ?thesis by auto
qed

lemma str_lines_crlf: "10 \<notin> set l \<Longrightarrow> str_lines (l @ crlf @ r) = l # str_lines r"
  using split_once_append [of 10 "l @ [13]" r]
  by (subst str_lines.simps) (simp add: crlf_def chomp_cr_def)

lemma demo_login_token:
  "basic_auth_token (ascii ''G'' @ crlf @ ascii ''Authorization: Basic '' @ b64_encode (ascii ''bob:pw'') @ crlf @ crlf) =
     Some (b64_encode (ascii ''bob'' @ asc CHR '':'' # ascii ''pw''))"
proof -
  have tok: "b64_encode (ascii ''bob:pw'') = ascii ''Ym9iOnB3''" by (simp add: b64_char_def)
  have "str_lines (ascii ''G'' @ crlf @ (ascii ''Authorization: Basic Ym9iOnB3'') @ crlf @ crlf) =
      [ascii ''G'', ascii ''Authorization: Basic Ym9iOnB3'', []]"
  proof -
    have "10 \<notin> set (ascii ''G'')" "10 \<notin> set (ascii ''Authorization: Basic Ym9iOnB3'')" by simp_all
    moreover have "str_lines crlf = [[]]" using str_lines_crlf [of "[]" "[]"] by (simp add: str_lines.simps [of "[]"])
    ultimately show ?thesis by (simp add: str_lines_crlf del: ascii_simps)
  qed
  moreover have "trim (ascii '' Basic Ym9iOnB3'') = ascii ''Basic Ym9iOnB3''" "trim (ascii ''Authorization'') = ascii ''Authorization''"
    by (simp_all add: trim_def trim_start_def trim_end_def trim_encs.simps strip_one_def ws_encodings_def)
  ultimately have "basic_auth_token (ascii ''G'' @ crlf @ ascii ''Authorization: Basic Ym9iOnB3'' @ crlf @ crlf) =
      Some (ascii ''Ym9iOnB3'')"
    by (simp add: basic_auth_token_def auth_header_value_def eq_ignore_ascii_case_def to_ascii_lower_def strip_prefix_def)
  then show ?thesis using tok by simp
qed

theorem saved_login_works_witness:
  "\<exists>res w'. http_save_auth demo_flash demo_sha (\<lambda>_. 7) (two_field_form (ascii ''user'') (ascii ''bob'') (ascii ''pass'') (ascii ''pw''))
       \<lparr>WIFI_CONFIG = WifiConfig_new, DEVICE_CONFIG = DeviceConfig_new, AUTOCONNECT_CONFIG = AutoConnectConfig_new,
        AUTH_CONFIG = AuthConfig_new, web_flash = replicate 1024 0\<rparr> = Some (res, w') \<and>
     authorized demo_sha False (AUTH_CONFIG w')
       (ascii ''G'' @ crlf @ ascii ''Authorization: Basic '' @ b64_encode (ascii ''bob:pw'') @ crlf @ crlf) = Some True"
proof -
  have sha: "length (demo_sha m) = 32" for m by (simp add: demo_sha_def)
  have bob: "ascii ''bob'' \<noteq> []" "length (ascii ''bob'') \<le> 32" "asc CHR '':'' \<notin> set (ascii ''bob'')"
    "ascii ''pw'' \<noteq> []" "length (ascii ''pw'') \<le> 64" "utf8_ok (ascii ''bob'' @ asc CHR '':'' # ascii ''pw'')"
    "length (ascii ''bob'') + length (ascii ''pw'') < 128" by simp_all
  from saved_login_works [OF sha bob(1-5) demo_login_token bob(3,6,7)] show ?thesis by simp
qed

section \<open>Without a login nothing happens\<close>

lemma authorized_True:
  assumes "authorized sha held cfg request = Some True"
  shows "held \<or> \<not> auth_is_set cfg \<or>
     (\<exists>token n decoded user pass. basic_auth_token request = Some token \<and>
        base64_decode token (replicate 128 0) = Some (Some n, decoded) \<and>
        take n decoded = user @ asc CHR '':'' # pass \<and> asc CHR '':'' \<notin> set user \<and>
        auth_verify sha cfg user pass = Some True)"
proof (cases "held \<or> \<not> auth_is_set cfg")
  case False
  with assms obtain token where t: "basic_auth_token request = Some token"
    by (cases "basic_auth_token request") (auto simp: authorized_def)
  with assms False obtain r decoded where d: "base64_decode token (replicate 128 0) = Some (r, decoded)"
    by (auto simp: authorized_def bind_eq_Some_conv)
  with assms False t obtain n where n: "r = Some n" by (cases r) (auto simp: authorized_def)
  with assms False t d have len: "n \<le> length decoded"
    by (cases "n \<le> length decoded") (auto simp: authorized_def slice_def)
  with assms False t d n have u: "utf8_ok (take n decoded)"
    by (cases "utf8_ok (take n decoded)") (auto simp: authorized_def slice_def from_utf8_def)
  with assms False t d n len obtain user pass where sp: "split_once (asc CHR '':'') (take n decoded) = Some (user, pass)"
    by (cases "split_once (asc CHR '':'') (take n decoded)") (auto simp: authorized_def slice_def from_utf8_def)
  with assms False t d n len u have "auth_verify sha cfg user pass = Some True"
    by (simp add: authorized_def slice_def from_utf8_def)
  with t d n split_once_Some [OF sp] show ?thesis by auto
qed auto

text \<open>
  C9.  With the login on and the BOOT button not held, a request can read or change something only
  with credentials: if the answer to a request is anything but the 401 response, or any setting or the
  flash has changed, then the request carried a Basic Authorization header whose decoded user and
  password the stored credentials accept.  In particular no request without the header, with broken
  Base64 or with a wrong pair reaches a handler.
\<close>

theorem no_service_without_login:
  assumes "respond F sha rnd st request w = Some (res, w')" "\<not> GPIO0_HELD st" "auth_is_set (AUTH_CONFIG w)"
    "res \<noteq> Response unauthorized \<or> w' \<noteq> w"
  shows "\<exists>token n decoded user pass. basic_auth_token request = Some token \<and>
     base64_decode token (replicate 128 0) = Some (Some n, decoded) \<and>
     take n decoded = user @ asc CHR '':'' # pass \<and> asc CHR '':'' \<notin> set user \<and>
     auth_verify sha (AUTH_CONFIG w) user pass = Some True"
proof -
  have "authorized sha False (AUTH_CONFIG w) request = Some True"
  proof (rule ccontr)
    assume no: "authorized sha False (AUTH_CONFIG w) request \<noteq> Some True"
    have ok: "authorized sha False (AUTH_CONFIG w) request = Some False"
      using no assms(1,2) by (cases "authorized sha False (AUTH_CONFIG w) request") (auto simp: respond_def split: prod.splits)
    with assms show False by (auto simp: respond_def split: prod.splits)
  qed
  from authorized_True [OF this] assms(3) show ?thesis by blast
qed

lemma auth_on:
  assumes "auth_set demo_sha rnd (ascii ''bob'') (ascii ''pw'') AuthConfig_new = Some c"
  shows "auth_is_set c" "auth_verify demo_sha c (ascii ''bob'') (ascii ''pw'') = Some True"
proof -
  have sha: "length (demo_sha m) = 32" for m by (simp add: demo_sha_def)
  from auth_set_result [of demo_sha rnd "ascii ''bob''" "ascii ''pw''", OF sha] assms
  show "auth_is_set c" "auth_verify demo_sha c (ascii ''bob'') (ascii ''pw'') = Some True" by auto
qed

lemma demo_respond:
  assumes "auth_is_set (AUTH_CONFIG w)" "auth_verify demo_sha (AUTH_CONFIG w) (ascii ''bob'') (ascii ''pw'') = Some True"
    "\<not> GPIO0_HELD st"
  shows "respond F demo_sha rnd st
     (ascii ''G'' @ crlf @ ascii ''Authorization: Basic '' @ b64_encode (ascii ''bob:pw'') @ crlf @ crlf) w =
     Some (Response not_found, w)"
proof -
  let ?req = "ascii ''G'' @ crlf @ ascii ''Authorization: Basic '' @ b64_encode (ascii ''bob:pw'') @ crlf @ crlf"
  have bob: "asc CHR '':'' \<notin> set (ascii ''bob'')" "utf8_ok (ascii ''bob'' @ asc CHR '':'' # ascii ''pw'')"
    "length (ascii ''bob'') + length (ascii ''pw'') < 128" by simp_all
  have "authorized demo_sha False (AUTH_CONFIG w) ?req = Some True"
    using authorized_pair [OF assms(1) demo_login_token bob, of demo_sha] assms(2) by simp
  moreover have "str_lines ?req = ascii ''G'' # str_lines (ascii ''Authorization: Basic '' @ b64_encode (ascii ''bob:pw'') @ crlf @ crlf)"
    by (rule str_lines_crlf) simp
  moreover have "split_whitespace (ascii ''G'') = [ascii ''G'']"
    by (simp add: split_whitespace_def words_acc.simps strip_one_def ws_encodings_def)
  ultimately show ?thesis
    using assms(3) by (simp add: respond_def parse_request_line_def del: b64_encode.simps append.simps) 
qed

theorem no_service_without_login_witness:
  "\<exists>c token n decoded user pass. auth_set demo_sha (\<lambda>_. 7) (ascii ''bob'') (ascii ''pw'') AuthConfig_new = Some c \<and>
     basic_auth_token (ascii ''G'' @ crlf @ ascii ''Authorization: Basic '' @ b64_encode (ascii ''bob:pw'') @ crlf @ crlf) = Some token \<and>
     base64_decode token (replicate 128 0) = Some (Some n, decoded) \<and>
     take n decoded = user @ asc CHR '':'' # pass \<and> auth_verify demo_sha c user pass = Some True"
proof -
  have sha: "length (demo_sha m) = 32" for m by (simp add: demo_sha_def)
  obtain c where c: "auth_set demo_sha (\<lambda>_. 7) (ascii ''bob'') (ascii ''pw'') AuthConfig_new = Some c"
    using auth_set_result [of demo_sha "\<lambda>_. 7" "ascii ''bob''" "ascii ''pw''", OF sha] by blast
  let ?w = "\<lparr>WIFI_CONFIG = WifiConfig_new, DEVICE_CONFIG = DeviceConfig_new, AUTOCONNECT_CONFIG = AutoConnectConfig_new,
      AUTH_CONFIG = c, web_flash = replicate 1024 0 :: bytes\<rparr>"
  let ?st = "\<lparr>CONFIG_MODE = False, WIFI_CONNECTED = True, STA_IP = None, live_counters = counters_init,
      live_ac = \<lparr>AUTOCONNECT_STATE = 0, SERVER_PUBKEY = None, AC_CLIENTS = 0\<rparr>, GPIO0_HELD = False\<rparr>"
  have set: "auth_is_set (AUTH_CONFIG ?w)" "auth_verify demo_sha (AUTH_CONFIG ?w) (ascii ''bob'') (ascii ''pw'') = Some True"
    and free: "\<not> GPIO0_HELD ?st" using auth_on [OF c] by simp_all
  have "Response not_found \<noteq> Response unauthorized" by (simp add: not_found_def unauthorized_def Let_def)
  then have served: "Response not_found \<noteq> Response unauthorized \<or> ?w \<noteq> ?w" by blast
  have cfg: "AUTH_CONFIG ?w = c" by simp
  from no_service_without_login [OF demo_respond [OF set free, of demo_flash "\<lambda>_. 7"] free set(1) served] c
  show ?thesis unfolding cfg by blast
qed

section \<open>Device names\<close>

lemma url_decode_bound:
  "url_decode_loop b si di dst = Some (n, dst') \<Longrightarrow> di \<le> length dst \<Longrightarrow> n \<le> length dst \<and> length dst' = length dst"
proof (induction b si di dst rule: url_decode_loop.induct)
  case (1 b si di dst)
  show ?case
  proof (cases "si < length b \<and> di < length dst")
    case True
    with 1(2) obtain v k dst1 where s: "url_step b si = Some (v, k)" "upd dst di v = Some dst1"
      "url_decode_loop b (si + k) (di + 1) dst1 = Some (n, dst')"
      by (subst (asm) url_decode_loop.simps) (auto simp: bind_eq_Some_conv)
    with 1(1) [OF True s(1) refl s(2) s(3)] True upd_length [OF s(2)] show ?thesis by simp
  next
    case False
    with 1(2,3) show ?thesis by (subst (asm) url_decode_loop.simps) auto
  qed
qed

lemma form_field_length: "form_field body key cap = Some v \<Longrightarrow> length v \<le> cap"
  using url_decode_bound [of _ 0 0 "replicate cap 0"]
  by (fastforce simp: form_field_def url_decode_into_def bind_eq_Some_conv slice_def split: option.splits if_splits)

lemma html_escape_plain:
  "list_all (\<lambda>b. is_ascii_alphanumeric b \<or> b = asc CHR ''-'') n \<Longrightarrow> html_escape n = n"
proof (induction n)
  case (Cons x n)
  then have "html_escape_char x = [x]"
    by (auto simp: html_escape_char_def is_ascii_alphanumeric_def is_ascii_digit_def)
  with Cons show ?case by (simp add: html_escape_def)
qed (simp add: html_escape_def)

text \<open>
  C34.  A device name that is stored is a usable host name.  Whenever the device form leads to a reset,
  the name found in flash at the next boot has 1 to 32 characters, all letters, digits or hyphens (so
  it is a DNS label and needs no escaping on the page), the baud rate is not zero, and the other
  settings are untouched; a form with any other name changes nothing.
\<close>

theorem stored_device_name_is_label:
  assumes "flash_ok F" "http_save_device F body w = Some (res, w')"
  shows "(res = Reset \<longrightarrow> (\<exists>c n. settings F (web_flash w') =
           (load_wifi F (web_flash w), Some c, load_autoconnect F (web_flash w), load_auth F (web_flash w)) \<and>
         name_str c = Some n \<and> n \<noteq> [] \<and> length n \<le> 32 \<and>
         list_all (\<lambda>b. is_ascii_alphanumeric b \<or> b = asc CHR ''-'') n \<and> html_escape n = n \<and> device_baud c \<noteq> 0)) \<and>
     (res = Response bad_name \<longrightarrow> w' = w)"
proof -
  from assms(2) obtain n where n: "form_field body (ascii ''name'') 32 = Some n"
    by (auto simp: http_save_device_def bind_eq_Some_conv simp del: ascii_simps)
  let ?ok = "n \<noteq> [] \<and> list_all (\<lambda>b. is_ascii_alphanumeric b \<or> b = asc CHR ''-'') n"
  show ?thesis
  proof (cases ?ok)
    case False
    then have "http_save_device F body w = Some (Response bad_name, w)"
      using n by (simp add: http_save_device_def del: ascii_simps)
    with assms(2) show ?thesis by auto
  next
    case True
    obtain d where d: "device_defaults = Some d" "device_good d"
      using device_set_result [of DeviceConfig_new DEFAULT_NAME DEFAULT_UART_BAUD]
      by (auto simp: DeviceConfig_new_def device_defaults_def DEFAULT_NAME_def)
    from assms(2) True n obtain baud c r where b: "device_set n baud d = Some c"
      "Config.save_device F c (web_flash w) = Some r" "res = (if is_ok r then Reset else Response save_failed)"
      "w' = w\<lparr>web_flash := snd r, DEVICE_CONFIG := c\<rparr>"
      by (auto simp: http_save_device_def d(1) bind_eq_Some_conv Let_def simp del: ascii_simps)
    have len: "length n \<le> 32" using form_field_length [OF n] .
    with b(1) d(2) True have c: "name_str c = Some n" "device_good c" "device_baud c \<noteq> 0"
      using device_set_result [of d n baud] by (auto simp: device_good_def DEFAULT_UART_BAUD_def)
    have "html_escape n = n" using True html_escape_plain by blast
    moreover have "settings F (web_flash w') =
        (load_wifi F (web_flash w), Some c, load_autoconnect F (web_flash w), load_auth F (web_flash w))" if "res = Reset"
      using save_device_settings [OF assms(1) c(2)] b that is_okD [of r] by (auto split: if_splits)
    ultimately show ?thesis using True c len b(3) by (auto simp: save_failed_def bad_name_def)
  qed
qed

theorem stored_device_name_is_label_witness:
  "\<exists>w' c n. http_save_device demo_flash (two_field_form (ascii ''name'') (ascii ''can-1'') (ascii ''baud'') (ascii ''9600''))
       \<lparr>WIFI_CONFIG = WifiConfig_new, DEVICE_CONFIG = DeviceConfig_new, AUTOCONNECT_CONFIG = AutoConnectConfig_new,
        AUTH_CONFIG = AuthConfig_new, web_flash = replicate 1024 0\<rparr> = Some (Reset, w') \<and>
     load_device demo_flash (web_flash w') = Some c \<and> name_str c = Some n \<and> n \<noteq> [] \<and> length n \<le> 32 \<and> device_baud c \<noteq> 0"
proof -
  let ?body = "two_field_form (ascii ''name'') (ascii ''can-1'') (ascii ''baud'') (ascii ''9600'')"
  let ?w = "\<lparr>WIFI_CONFIG = WifiConfig_new, DEVICE_CONFIG = DeviceConfig_new, AUTOCONNECT_CONFIG = AutoConnectConfig_new,
      AUTH_CONFIG = AuthConfig_new, web_flash = replicate 1024 0\<rparr> :: bytes web"
  have f: "form_field ?body (ascii ''name'') 32 = Some (ascii ''can-1'')" "form_field ?body (ascii ''baud'') 16 = Some (ascii ''9600'')"
    using two_fields [of "ascii ''name''" "ascii ''baud''" "ascii ''can-1''" "ascii ''9600''"] by simp_all
  have ok: "ascii ''can-1'' \<noteq> []" "list_all (\<lambda>b. is_ascii_alphanumeric b \<or> b = asc CHR ''-'') (ascii ''can-1'')"
    by (simp_all add: is_ascii_alphanumeric_def is_ascii_digit_def)
  obtain d where d: "device_defaults = Some d" "length (dev_name d) = 32" "length (d_pad d) = 3"
    using device_set_result [of DeviceConfig_new DEFAULT_NAME DEFAULT_UART_BAUD]
    by (auto simp: DeviceConfig_new_def device_defaults_def DEFAULT_NAME_def device_good_def)
  have saved: "\<exists>r c. device_set (ascii ''can-1'') baud d = Some c \<and> Config.save_device demo_flash c (replicate 1024 0) = Some r \<and> is_ok r" for baud
  proof -
    from device_set_result [OF d(2,3), of "ascii ''can-1''" baud] ok(1) obtain c where
      c: "device_set (ascii ''can-1'') baud d = Some c" "device_good c" by auto
    then have "length (device_as_bytes c) = 44" by (simp add: device_as_bytes_def device_good_def)
    then show ?thesis
      using c by (simp add: save_device_def nvs_partition_def copy_prefix_def demo_flash_def DEVICE_CONFIG_OFFSET_def is_ok_def)
  qed
  let ?baud = "case from_utf8 (ascii ''9600'') of None \<Rightarrow> DEFAULT_UART_BAUD
    | Some s \<Rightarrow> (case parse_uint (2 ^ 32 - 1) (trim s) of None \<Rightarrow> DEFAULT_UART_BAUD
      | Some n \<Rightarrow> if 0 < n then of_nat n else DEFAULT_UART_BAUD)"
  obtain r c where "device_set (ascii ''can-1'') ?baud d = Some c"
    "Config.save_device demo_flash c (replicate 1024 0) = Some r" "is_ok r" using saved [of ?baud] by blast
  then have "\<exists>w'. http_save_device demo_flash ?body ?w = Some (Reset, w')"
    using f ok unfolding http_save_device_def Let_def d(1) by (simp del: ascii_simps)
  then obtain w' where r: "http_save_device demo_flash ?body ?w = Some (Reset, w')" by blast
  from stored_device_name_is_label [OF demo_flash_ok r] obtain c n where
    "settings demo_flash (web_flash w') = (load_wifi demo_flash (web_flash ?w), Some c,
       load_autoconnect demo_flash (web_flash ?w), load_auth demo_flash (web_flash ?w))"
    "name_str c = Some n" "n \<noteq> []" "length n \<le> 32" "device_baud c \<noteq> 0" by blast
  then show ?thesis using r by (auto simp: settings_def)
qed

end
