(* ===== verification/Http_Server.thy ===== *)
theory Http_Server
  imports Http
begin

text \<open>
  The web server as a whole: the accept loop \<^verbatim>\<open>http_server\<close> of \<^verbatim>\<open>src/http.rs\<close> around \<^verbatim>\<open>handle_request\<close>, the
  ranges of the stored structs under which nothing panics, and the effect of a request on memory and
  flash.  Requests of the two server tasks are handled one after the other; the list of connections is
  any merge of what the two accept.
\<close>

section \<open>Model\<close>

text \<open>One turn of the loop: a failed accept, or a connection with the live values and random words that
  the handler finds and the results of the reads.\<close>

datatype http_conn = AcceptFailed | Accepted web_live "nat \<Rightarrow> u32" "sock_read list"

text \<open>The answers in order; after a reset no further connection is served.\<close>

fun http_server ::
  "('fl, 'pt, 'p) flash_api \<Rightarrow> (bytes \<Rightarrow> bytes) \<Rightarrow> http_conn list \<Rightarrow> 'fl web \<Rightarrow> (http_result option list \<times> 'fl web) run" where
  "http_server F sha [] w = Some ([], w)"
| "http_server F sha (AcceptFailed # conns) w = http_server F sha conns w"
| "http_server F sha (Accepted st rnd reads # conns) w =
     do { (a, w) \<leftarrow> handle_request F sha rnd st reads w;
          if a = Some Reset then Some ([a], w)
          else do { (as, w) \<leftarrow> http_server F sha conns w; Some (a # as, w) } }"

section \<open>Structs whose lengths fit their arrays\<close>

definition wifi_fits :: "WifiConfig \<Rightarrow> bool" where
  "wifi_fits c \<longleftrightarrow> length (ssid c) = 32 \<and> length (password c) = 64 \<and> length (w_padding c) = 2 \<and>
     unat (ssid_len c) \<le> 32 \<and> unat (password_len c) \<le> 64"

definition device_fits :: "DeviceConfig \<Rightarrow> bool" where
  "device_fits c \<longleftrightarrow> length (dev_name c) = 32 \<and> length (d_pad c) = 3 \<and> unat (name_len c) \<le> 32"

definition autoconnect_fits :: "AutoConnectConfig \<Rightarrow> bool" where
  "autoconnect_fits c \<longleftrightarrow> length (url c) = 256"

definition auth_fits :: "AuthConfig \<Rightarrow> bool" where
  "auth_fits c \<longleftrightarrow> length (au_user c) = 32 \<and> length (au_pad c) = 2 \<and> length (salt c) = 16 \<and>
     length (pass_hash c) = 32 \<and> unat (user_len c) \<le> 32"

definition web_fits :: "'fl web \<Rightarrow> bool" where
  "web_fits w \<longleftrightarrow> wifi_fits (WIFI_CONFIG w) \<and> device_fits (DEVICE_CONFIG w) \<and>
     autoconnect_fits (AUTOCONNECT_CONFIG w) \<and> auth_fits (AUTH_CONFIG w)"

lemmas fits_defs = wifi_fits_def device_fits_def autoconnect_fits_def auth_fits_def

lemma new_fits [simp]:
  "wifi_fits WifiConfig_new" "device_fits DeviceConfig_new" "autoconnect_fits AutoConnectConfig_new" "auth_fits AuthConfig_new"
  by (simp_all add: fits_defs WifiConfig_new_def DeviceConfig_new_def AutoConnectConfig_new_def AuthConfig_new_def URL_MAX_def)

lemma readers_total:
  "wifi_fits c \<Longrightarrow> \<exists>s. ssid_str c = Some s" "wifi_fits c \<Longrightarrow> \<exists>s. password_str c = Some s"
  "device_fits d \<Longrightarrow> \<exists>s. name_str d = Some s \<and> s \<noteq> []" "autoconnect_fits a \<Longrightarrow> \<exists>s. url_str a = Some s"
  "auth_fits u \<Longrightarrow> \<exists>s. user_str u = Some s"
  by (auto simp: fits_defs ssid_str_def password_str_def name_str_def url_str_def user_str_def slice_def URL_MAX_def
      DEFAULT_NAME_def Let_def min_def unat_eq_zero [symmetric] simp del: unat_eq_zero)

lemma store_lengths:
  "copy_prefix dst n src = Some a \<Longrightarrow> length a = length dst"
  by (auto simp: copy_prefix_def split: if_splits)

lemma setters_fit:
  "set_credentials s p WifiConfig_new = Some c \<Longrightarrow> wifi_fits c"
  "device_fits d0 \<Longrightarrow> device_set n b d0 = Some d \<Longrightarrow> device_fits d"
  "autoconnect_set en u AutoConnectConfig_new = Some a \<Longrightarrow> autoconnect_fits a"
  by (auto simp: fits_defs set_credentials_def device_set_def autoconnect_set_def WifiConfig_new_def AutoConnectConfig_new_def
      URL_MAX_def Let_def bind_eq_Some_conv dest!: store_lengths)

lemma auth_set_fits:
  assumes "\<And>m. length (sha m) = 32" "auth_set sha rnd user pw AuthConfig_new = Some c"
  shows "auth_fits c"
  using assms(2)
  by (auto simp: auth_fits_def auth_set_def AuthConfig_new_def salted_hash_def Let_def bind_eq_Some_conv
      dest!: store_lengths split: if_splits)

lemma device_defaults_fits: "\<exists>d. device_defaults = Some d \<and> device_fits d"
proof -
  obtain d where d: "device_defaults = Some d" using device_defaults_total by blast
  then show ?thesis using setters_fit(2) [of DeviceConfig_new] by (simp add: device_defaults_def)
qed

section \<open>Nothing a client sends makes a parser panic\<close>

lemma url_step_total: "si < length b \<Longrightarrow> \<exists>v k. url_step b si = Some (v, k)"
  by (auto simp: url_step_def idx_def url_plain_def split: option.splits)

lemma url_decode_total: "\<exists>n dst'. url_decode_loop b si di dst = Some (n, dst')"
proof (induction b si di dst rule: url_decode_loop.induct)
  case (1 b si di dst)
  show ?case
  proof (cases "si < length b \<and> di < length dst")
    case True
    then obtain v k dst1 where s: "url_step b si = Some (v, k)" "upd dst di v = Some dst1"
      using url_step_total [of si b] by (auto simp: upd_def)
    with 1 [OF True s(1) refl s(2)] True show ?thesis by (subst url_decode_loop.simps) simp
  qed (auto simp: url_decode_loop.simps)
qed

lemma form_field_total: "\<exists>v. form_field body key cap = Some v"
proof (cases "find_form_value body key")
  case None
  then show ?thesis by (simp add: form_field_def slice_def)
next
  case (Some s)
  obtain n buf where d: "url_decode_loop s 0 0 (replicate cap 0) = Some (n, buf)" using url_decode_total by blast
  with url_decode_bound [OF d] Some show ?thesis by (simp add: form_field_def url_decode_into_def slice_def)
qed

lemma base64_loop_total:
  "di \<le> length dst \<Longrightarrow> \<exists>r dst'. base64_loop cs acc bits di dst = Some (r, dst') \<and>
     length dst' = length dst \<and> (\<forall>n. r = Some n \<longrightarrow> n \<le> length dst)"
proof (induction cs arbitrary: acc bits di dst)
  case (Cons c cs)
  show ?case
  proof (cases "base64_value c")
    case None
    with Cons.prems show ?thesis by simp
  next
    case (Some v)
    let ?acc = "push_bit 6 acc OR ucast v" and ?bits = "bits + 6"
    have keep: "\<exists>r dst'. base64_loop cs ?acc ?bits di dst = Some (r, dst') \<and> length dst' = length dst \<and>
        (\<forall>n. r = Some n \<longrightarrow> n \<le> length dst)" using Cons by blast
    have emit: "\<exists>r dst'. base64_loop cs ?acc (?bits - 8) (di + 1) (dst[di := x]) = Some (r, dst') \<and>
        length dst' = length dst \<and> (\<forall>n. r = Some n \<longrightarrow> n \<le> length dst)" if "di < length dst" for x
      using Cons.IH [of "di + 1" "dst[di := x]" ?acc "?bits - 8"] that by simp
    from Some keep emit Cons.prems show ?thesis
      by (cases "c = asc CHR ''=''"; cases "length dst \<le> di") (simp_all add: Let_def upd_def)
  qed
qed simp

lemma auth_verify_total:
  assumes "auth_fits cfg" "\<And>m. length (sha m) = 32"
  shows "\<exists>ok. auth_verify sha cfg u p = Some ok"
proof (cases "auth_is_set cfg")
  case True
  then have "auth_good cfg" using assms(1) by (simp add: auth_good_def auth_fits_def auth_is_set_def)
  with auth_verify_set [OF _ True assms(2)] assms(1) show ?thesis by (simp add: auth_fits_def)
qed (auto simp: auth_verify_def)

lemma authorized_total:
  assumes "auth_fits cfg" "\<And>m. length (sha m) = 32"
  shows "\<exists>ok. authorized sha held cfg request = Some ok"
proof (cases "basic_auth_token request")
  case (Some token)
  obtain r dst where d: "base64_decode token (replicate 128 0) = Some (r, dst)" "length dst = 128"
    "\<And>n. r = Some n \<Longrightarrow> n \<le> 128"
    using base64_loop_total [of 0 "replicate 128 0" token 0 0] unfolding base64_decode_def by auto
  show ?thesis
  proof (cases r)
    case (Some n)
    then have "slice dst 0 n = Some (take n dst)" using d(2,3) by (simp add: slice_def)
    with \<open>basic_auth_token request = Some token\<close> d(1) Some show ?thesis
      using auth_verify_total [OF assms] by (auto simp: authorized_def split: option.splits prod.splits)
  qed (use d \<open>basic_auth_token request = Some token\<close> in \<open>auto simp: authorized_def\<close>)
qed (auto simp: authorized_def)

text \<open>A socket read returns at most as many bytes as the buffer has room for.\<close>

fun reads_fit :: "nat \<Rightarrow> sock_read list \<Rightarrow> bool" where
  "reads_fit room [] \<longleftrightarrow> True"
| "reads_fit room (ReadErr # reads) \<longleftrightarrow> True"
| "reads_fit room (ReadOk bs # reads) \<longleftrightarrow> length bs \<le> room \<and> reads_fit (room - length bs) reads"

lemma read_loop_total:
  "reads_fit (length buffer - pos) reads \<Longrightarrow> pos \<le> length buffer \<Longrightarrow> \<exists>r. read_loop reads buffer pos need = Some r"
proof (induction reads arbitrary: buffer pos need)
  case Nil
  then show ?case by (auto simp: read_loop.simps slice_def)
next
  case (Cons a reads)
  show ?case
  proof (cases a)
    case ReadErr
    with Cons.prems show ?thesis by (auto simp: read_loop.simps slice_def)
  next
    case (ReadOk bs)
    then have fit: "pos + length bs \<le> length buffer" "reads_fit (length buffer - (pos + length bs)) reads"
      using Cons.prems by (auto simp: diff_diff_left)
    then obtain buf where buf: "copy_range buffer pos (pos + length bs) bs = Some buf" "length buf = length buffer"
      by (auto simp: copy_range_def)
    then have "\<exists>r. read_loop reads buf (pos + length bs) n = Some r" for n
      using Cons.IH [of buf "pos + length bs" n] fit by simp
    then show ?thesis
      using ReadOk buf fit Cons.prems(2) by (subst read_loop.simps) (auto simp: slice_def)
  qed
qed

section \<open>The effect of a request\<close>

text \<open>
  Memory and flash after a request: unchanged, or one struct replaced in memory and written to its slot
  in flash; a write that failed is reported.
\<close>

definition flash_written :: "http_result \<Rightarrow> ((unit + unit) \<times> 'fl) run \<Rightarrow> 'fl \<Rightarrow> bool" where
  "flash_written res saved fl' \<longleftrightarrow> (\<exists>r. saved = Some r \<and> fl' = snd r \<and> (\<not> is_ok r \<longrightarrow> res = Response save_failed))"

definition stores :: "('fl, 'pt, 'p) flash_api \<Rightarrow> 'fl web \<Rightarrow> http_result \<Rightarrow> 'fl web \<Rightarrow> bool" where
  "stores F w res w' \<longleftrightarrow> w' = w \<or>
     (\<exists>c fl. w' = w\<lparr>web_flash := fl, WIFI_CONFIG := c\<rparr> \<and> wifi_good c \<and> wifi_fits c \<and>
        flash_written res (Config.save_wifi F c (web_flash w)) fl) \<or>
     (\<exists>c fl. w' = w\<lparr>web_flash := fl, DEVICE_CONFIG := c\<rparr> \<and> device_good c \<and> device_fits c \<and>
        flash_written res (Config.save_device F c (web_flash w)) fl) \<or>
     (\<exists>c fl. w' = w\<lparr>web_flash := fl, AUTOCONNECT_CONFIG := c\<rparr> \<and> autoconnect_good c \<and> autoconnect_fits c \<and>
        flash_written res (Config.save_autoconnect F c (web_flash w)) fl) \<or>
     (\<exists>c fl. w' = w\<lparr>web_flash := fl, AUTH_CONFIG := c\<rparr> \<and> auth_good c \<and> auth_fits c \<and>
        flash_written res (Config.save_auth F c (web_flash w)) fl)"

lemma stores_same [simp]: "stores F w res w"
  by (simp add: stores_def)

lemma stores_fits: "stores F w res w' \<Longrightarrow> web_fits w \<Longrightarrow> web_fits w'"
  by (auto simp: stores_def web_fits_def)

lemma stores_saved:
  "wifi_good wc \<Longrightarrow> wifi_fits wc \<Longrightarrow> Config.save_wifi F wc (web_flash w) = Some r \<Longrightarrow> (\<not> is_ok r \<longrightarrow> res = Response save_failed) \<Longrightarrow>
   stores F w res (w\<lparr>web_flash := snd r, WIFI_CONFIG := wc\<rparr>)"
  "device_good dc \<Longrightarrow> device_fits dc \<Longrightarrow> Config.save_device F dc (web_flash w) = Some r \<Longrightarrow> (\<not> is_ok r \<longrightarrow> res = Response save_failed) \<Longrightarrow>
   stores F w res (w\<lparr>web_flash := snd r, DEVICE_CONFIG := dc\<rparr>)"
  "autoconnect_good ac \<Longrightarrow> autoconnect_fits ac \<Longrightarrow> Config.save_autoconnect F ac (web_flash w) = Some r \<Longrightarrow> (\<not> is_ok r \<longrightarrow> res = Response save_failed) \<Longrightarrow>
   stores F w res (w\<lparr>web_flash := snd r, AUTOCONNECT_CONFIG := ac\<rparr>)"
  "auth_good uc \<Longrightarrow> auth_fits uc \<Longrightarrow> Config.save_auth F uc (web_flash w) = Some r \<Longrightarrow> (\<not> is_ok r \<longrightarrow> res = Response save_failed) \<Longrightarrow>
   stores F w res (w\<lparr>web_flash := snd r, AUTH_CONFIG := uc\<rparr>)"
  unfolding stores_def flash_written_def by blast+

lemma http_save_wifi_stores: "\<exists>res w'. http_save_wifi F body w = Some (res, w') \<and> stores F w res w'"
proof -
  obtain n p where f: "form_field body (ascii ''ssid'') 32 = Some n" "form_field body (ascii ''password'') 64 = Some p"
    using form_field_total by blast
  show ?thesis
  proof (cases "n = []")
    case False
    obtain c where c: "set_credentials n p WifiConfig_new = Some c" "wifi_good c"
      using set_credentials_result [of WifiConfig_new n p] False by (auto simp: WifiConfig_new_def)
    obtain r where r: "Config.save_wifi F c (web_flash w) = Some r" using wifi_slot.save_total [OF c(2), of F "web_flash w"] by auto
    have "http_save_wifi F body w = Some (if is_ok r then Reset else Response save_failed, w\<lparr>web_flash := snd r, WIFI_CONFIG := c\<rparr>)"
      using f c(1) False r by (simp add: http_save_wifi_def Let_def del: ascii_simps)
    with stores_saved(1) [OF c(2) setters_fit(1) [OF c(1)] r] show ?thesis by auto
  qed (use f in \<open>simp add: http_save_wifi_def del: ascii_simps\<close>)
qed

lemma http_save_device_stores: "\<exists>res w'. http_save_device F body w = Some (res, w') \<and> stores F w res w'"
proof -
  obtain n b where f: "form_field body (ascii ''name'') 32 = Some n" "form_field body (ascii ''baud'') 16 = Some b"
    using form_field_total by blast
  show ?thesis
  proof (cases "n \<noteq> [] \<and> list_all (\<lambda>b. is_ascii_alphanumeric b \<or> b = asc CHR ''-'') n")
    case True
    let ?baud = "case from_utf8 b of None \<Rightarrow> DEFAULT_UART_BAUD
      | Some s \<Rightarrow> (case parse_uint (2 ^ 32 - 1) (trim s) of None \<Rightarrow> DEFAULT_UART_BAUD
        | Some n \<Rightarrow> if 0 < n then of_nat n else DEFAULT_UART_BAUD)"
    obtain d where d: "device_defaults = Some d" "device_fits d" using device_defaults_fits by blast
    then obtain c where c: "device_set n ?baud d = Some c" "device_good c"
      using device_set_result [of d n ?baud] True by (auto simp: device_fits_def)
    obtain r where r: "Config.save_device F c (web_flash w) = Some r" using device_slot.save_total [OF c(2), of F "web_flash w"] by auto
    have "http_save_device F body w = Some (if is_ok r then Reset else Response save_failed, w\<lparr>web_flash := snd r, DEVICE_CONFIG := c\<rparr>)"
      using f c(1) True r unfolding http_save_device_def Let_def d(1) by (simp del: ascii_simps)
    with stores_saved(2) [OF c(2) setters_fit(2) [OF d(2) c(1)] r] show ?thesis by auto
  qed (use f in \<open>simp add: http_save_device_def del: ascii_simps\<close>)
qed

lemma http_save_autoconnect_stores: "\<exists>res w'. http_save_autoconnect F body w = Some (res, w') \<and> stores F w res w'"
proof -
  obtain v where f: "form_field body (ascii ''url'') URL_MAX = Some v" using form_field_total by blast
  let ?en = "find_form_value body (ascii ''enable'') \<noteq> None"
  let ?u = "case from_utf8 v of Some s \<Rightarrow> s | None \<Rightarrow> []"
  obtain c where c: "autoconnect_set ?en ?u AutoConnectConfig_new = Some c" "autoconnect_good c"
    using autoconnect_set_result [of AutoConnectConfig_new ?en ?u] by (auto simp: AutoConnectConfig_new_def URL_MAX_def)
  obtain r where r: "Config.save_autoconnect F c (web_flash w) = Some r"
    using autoconnect_slot.save_total [OF c(2), of F "web_flash w"] by auto
  have "http_save_autoconnect F body w =
      Some (if is_ok r then Reset else Response save_failed, w\<lparr>web_flash := snd r, AUTOCONNECT_CONFIG := c\<rparr>)"
    unfolding http_save_autoconnect_def Let_def f Option.bind.bind_lunit c(1) r by simp
  with stores_saved(3) [OF c(2) setters_fit(3) [OF c(1)] r] show ?thesis by auto
qed

lemma http_save_auth_stores:
  assumes "\<And>m. length (sha m) = 32"
  shows "\<exists>res w'. http_save_auth F sha rnd body w = Some (res, w') \<and> stores F w res w'"
proof -
  obtain u p where f: "form_field body (ascii ''user'') 32 = Some u" "form_field body (ascii ''pass'') 64 = Some p"
    using form_field_total by blast
  show ?thesis
  proof (cases "asc CHR '':'' \<in> set u")
    case False
    obtain c where c: "auth_set sha rnd u p AuthConfig_new = Some c" "auth_good c"
      using auth_set_result [of sha rnd u p, OF assms] by blast
    obtain r where r: "Config.save_auth F c (web_flash w) = Some r" using auth_slot.save_total [OF c(2), of F "web_flash w"] by auto
    have "\<exists>res. http_save_auth F sha rnd body w = Some (res, w\<lparr>web_flash := snd r, AUTH_CONFIG := c\<rparr>) \<and>
        (\<not> is_ok r \<longrightarrow> res = Response save_failed)"
      using f c(1) r False unfolding http_save_auth_def Let_def by (simp del: ascii_simps)
    with stores_saved(4) [OF c(2) auth_set_fits [OF assms c(1)] r] show ?thesis by blast
  qed (use f in \<open>simp add: http_save_auth_def del: ascii_simps\<close>)
qed

lemma index_page_total: "web_fits w \<Longrightarrow> \<exists>b. index_page st w = Some b"
proof -
  assume "web_fits w"
  then obtain s n u v where "ssid_str (WIFI_CONFIG w) = Some s" "name_str (DEVICE_CONFIG w) = Some n"
    "url_str (AUTOCONNECT_CONFIG w) = Some u" "user_str (AUTH_CONFIG w) = Some v"
    using readers_total unfolding web_fits_def by metis
  then show ?thesis by (simp add: index_page_def index_body_def Let_def)
qed

lemma status_json_total: "web_fits w \<Longrightarrow> \<exists>b. status_json st w = Some b"
  using readers_total(1) [of "WIFI_CONFIG w"] by (auto simp: web_fits_def status_json_def status_body_def Let_def)

lemma respond_stores:
  assumes "\<And>m. length (sha m) = 32" "web_fits w"
  shows "\<exists>res w'. respond F sha rnd st request w = Some (res, w') \<and> stores F w res w'"
proof -
  obtain m p where mp: "parse_request_line request = (m, p)" by fastforce
  obtain ok where ok: "authorized sha (GPIO0_HELD st) (AUTH_CONFIG w) request = Some ok"
    using authorized_total [where sha = sha, OF _ assms(1), of "AUTH_CONFIG w"] assms(2) by (auto simp: web_fits_def)
  obtain bi bs where pages: "index_page st w = Some bi" "status_json st w = Some bs"
    using index_page_total [OF assms(2)] status_json_total [OF assms(2)] by blast
  show ?thesis
    unfolding respond_def mp prod.case Let_def ok Option.bind.bind_lunit pages
    using http_save_wifi_stores [of F "request_body request" w] http_save_device_stores [of F "request_body request" w]
      http_save_autoconnect_stores [of F "request_body request" w]
      http_save_auth_stores [of sha F rnd "request_body request" w, OF assms(1)]
    by (simp del: ascii_simps)
qed

section \<open>Texts that are valid UTF-8\<close>

text \<open>
  The code takes the fields of a form and the stored texts for \<^verbatim>\<open>str\<close>s without a check; only the URL and the
  baud rate are checked, and a device name is ASCII.  \<open>texts_valid\<close> says that the stored texts are UTF-8,
  \<open>form_valid\<close> that the decoded fields of a form are (a field that is missing is empty).
\<close>

definition valid_str :: "bytes run \<Rightarrow> bool" where
  "valid_str r \<longleftrightarrow> (case r of Some s \<Rightarrow> utf8_ok s | None \<Rightarrow> False)"

definition texts_valid :: "'fl web \<Rightarrow> bool" where
  "texts_valid w \<longleftrightarrow> valid_str (ssid_str (WIFI_CONFIG w)) \<and> valid_str (password_str (WIFI_CONFIG w)) \<and>
     valid_str (name_str (DEVICE_CONFIG w)) \<and> valid_str (user_str (AUTH_CONFIG w))"

definition field_valid :: "bytes \<Rightarrow> bytes \<Rightarrow> nat \<Rightarrow> bool" where
  "field_valid body key cap \<longleftrightarrow> (case form_field body key cap of Some s \<Rightarrow> utf8_ok s | None \<Rightarrow> True)"

definition form_valid :: "bytes \<Rightarrow> bool" where
  "form_valid body \<longleftrightarrow> field_valid body (ascii ''ssid'') 32 \<and> field_valid body (ascii ''password'') 64 \<and>
     field_valid body (ascii ''user'') 32 \<and> field_valid body (ascii ''pass'') 64"

lemma label_utf8:
  assumes "list_all (\<lambda>b. is_ascii_alphanumeric b \<or> b = asc CHR ''-'') n"
  shows "utf8_ok n"
proof -
  have "b < 0x80" if "is_ascii_alphanumeric b \<or> b = asc CHR ''-''" for b
    using that by (auto simp: is_ascii_alphanumeric_def is_ascii_digit_def word_less_nat_alt word_le_nat_alt)
  with assms show ?thesis by (intro utf8_ok_ascii) (auto simp: list_all_iff)
qed

lemma http_save_wifi_texts:
  assumes "http_save_wifi F body w = Some (res, w')" "form_valid body" "texts_valid w"
  shows "texts_valid w'"
proof -
  obtain n p where f: "form_field body (ascii ''ssid'') 32 = Some n" "form_field body (ascii ''password'') 64 = Some p"
    using form_field_total by blast
  then have ok: "utf8_ok n" "utf8_ok p" using assms(2) by (simp_all add: form_valid_def field_valid_def del: ascii_simps)
  have len: "take 32 n = n" "take 64 p = p" using form_field_length [OF f(1)] form_field_length [OF f(2)] by simp_all
  obtain c where c: "set_credentials n p WifiConfig_new = Some c" "ssid_str c = Some n" "password_str c = Some p"
    using set_credentials_result [of WifiConfig_new n p] len by (auto simp: WifiConfig_new_def)
  have "w' = w \<or> (\<exists>fl. w' = w\<lparr>web_flash := fl, WIFI_CONFIG := c\<rparr>)"
    using assms(1) f c(1) by (auto simp: http_save_wifi_def Let_def bind_eq_Some_conv simp del: ascii_simps split: if_splits)
  with assms(3) c ok show ?thesis by (auto simp: texts_valid_def valid_str_def)
qed

lemma http_save_device_texts:
  assumes "http_save_device F body w = Some (res, w')" "texts_valid w"
  shows "texts_valid w'"
proof -
  obtain n where f: "form_field body (ascii ''name'') 32 = Some n" using form_field_total by blast
  obtain d where d: "device_defaults = Some d" "device_fits d" using device_defaults_fits by blast
  show ?thesis
  proof (cases "n \<noteq> [] \<and> list_all (\<lambda>b. is_ascii_alphanumeric b \<or> b = asc CHR ''-'') n")
    case True
    then obtain baud c fl where c: "device_set n baud d = Some c" "w' = w\<lparr>web_flash := fl, DEVICE_CONFIG := c\<rparr>"
      using assms(1) by (auto simp: http_save_device_def Let_def f d(1) bind_eq_Some_conv simp del: ascii_simps split: if_splits)
    have "name_str c = Some n"
      using device_set_result [of d n baud] c(1) d(2) True form_field_length [OF f] by (simp add: device_fits_def)
    with assms(2) c(2) label_utf8 True show ?thesis by (simp add: texts_valid_def valid_str_def)
  next
    case False
    then have "w' = w" using assms(1) f by (auto simp: http_save_device_def simp del: ascii_simps)
    with assms(2) show ?thesis by simp
  qed
qed

lemma http_save_autoconnect_texts:
  assumes "http_save_autoconnect F body w = Some (res, w')" "texts_valid w"
  shows "texts_valid w'"
  using assms by (auto simp: http_save_autoconnect_def Let_def bind_eq_Some_conv texts_valid_def simp del: ascii_simps)

lemma auth_set_user:
  assumes "auth_set sha rnd user pw AuthConfig_new = Some c"
  shows "user_str c = Some (if user = [] \<or> pw = [] then [] else take 32 user)"
proof (cases "user = [] \<or> pw = []")
  case True
  with assms show ?thesis by (auto simp: auth_set_def user_str_def)
next
  case False
  have len: "length (au_user AuthConfig_new) = 32" by (simp add: AuthConfig_new_def)
  from False assms store_prefix [OF len, of user] show ?thesis
    by (auto simp: auth_set_def user_str_def Let_def bind_eq_Some_conv)
qed

lemma http_save_auth_texts:
  assumes "http_save_auth F sha rnd body w = Some (res, w')" "form_valid body" "texts_valid w"
  shows "texts_valid w'"
proof -
  obtain u p where f: "form_field body (ascii ''user'') 32 = Some u" "form_field body (ascii ''pass'') 64 = Some p"
    using form_field_total by blast
  have "w' = w \<or> (\<exists>c fl. auth_set sha rnd u p AuthConfig_new = Some c \<and> w' = w\<lparr>web_flash := fl, AUTH_CONFIG := c\<rparr>)"
    using assms(1) f by (auto simp: http_save_auth_def Let_def bind_eq_Some_conv simp del: ascii_simps split: if_splits)
  moreover have "utf8_ok (take 32 u)"
    using assms(2) f form_field_length [OF f(1)] by (simp add: form_valid_def field_valid_def del: ascii_simps)
  ultimately show ?thesis using assms(3) by (auto simp: texts_valid_def valid_str_def dest!: auth_set_user)
qed

lemma respond_texts:
  assumes "respond F sha rnd st request w = Some (res, w')" "form_valid (request_body request)" "texts_valid w"
  shows "texts_valid w'"
  using assms(1,3)
  by (auto simp: respond_def bind_eq_Some_conv simp del: ascii_simps split: prod.splits if_splits
      dest: http_save_wifi_texts [OF _ assms(2)] http_save_device_texts http_save_autoconnect_texts http_save_auth_texts [OF _ assms(2)])

section \<open>The server never panics\<close>

text \<open>
  What a connection may deliver: reads that fit the buffer, and a request that is a \<^verbatim>\<open>str\<close> with form fields
  that are \<^verbatim>\<open>str\<close>s.
\<close>

fun conn_fits :: "http_conn \<Rightarrow> bool" where
  "conn_fits AcceptFailed \<longleftrightarrow> True"
| "conn_fits (Accepted st rnd reads) \<longleftrightarrow> reads_fit 1024 reads \<and>
     (case read_request reads of Some (Request bs) \<Rightarrow> utf8_ok bs \<and> form_valid (request_body bs) | _ \<Rightarrow> True)"

lemma handle_request_cases:
  assumes "handle_request F sha rnd st reads w = Some (a, w')"
  obtains "w' = w" "a = None" | bs res where "read_request reads = Some (Request bs)" "a = Some res"
    "respond F sha rnd st bs w = Some (res, w')"
proof -
  obtain r where r: "read_request reads = Some r" using assms by (auto simp: handle_request_def bind_eq_Some_conv)
  with assms that show ?thesis
    by (cases r) (auto simp: handle_request_def from_utf8_unchecked_def bind_eq_Some_conv split: if_splits)
qed

lemma handle_request_total:
  assumes "\<And>m. length (sha m) = 32" "web_fits w" "texts_valid w" "conn_fits (Accepted st rnd reads)"
  shows "\<exists>a w'. handle_request F sha rnd st reads w = Some (a, w') \<and> web_fits w' \<and> texts_valid w'"
proof -
  obtain r where r: "read_request reads = Some r"
    using read_loop_total [of "replicate 1024 0" 0 reads None] assms(4) by (auto simp: read_request_def)
  show ?thesis
  proof (cases r)
    case (Request bs)
    then have ok: "utf8_ok bs" "form_valid (request_body bs)" using assms(4) r by simp_all
    obtain res w' where h: "respond F sha rnd st bs w = Some (res, w')" "stores F w res w'"
      using respond_stores [where sha = sha, OF assms(1,2)] by blast
    with r Request ok(1) have "handle_request F sha rnd st reads w = Some (Some res, w')"
      by (simp add: handle_request_def from_utf8_unchecked_def)
    with stores_fits [OF h(2) assms(2)] respond_texts [OF h(1) ok(2) assms(3)] show ?thesis by simp
  qed (use assms(2,3) in \<open>simp_all add: handle_request_def r\<close>)
qed

text \<open>
  C11.  No client that sends text can make the web server panic.  If the lengths in the four structs fit their
  arrays and the stored texts are UTF-8, then for every sequence of connections, in whatever segments they
  deliver requests that are UTF-8 and whose form fields decode to UTF-8, and whatever the flash driver
  answers, every request is handled to its end, without a panic and without an unchecked conversion of
  bytes that are no \<^verbatim>\<open>str\<close>; afterwards the lengths still fit and the stored texts are still UTF-8; at most
  the last answer is a reset.
\<close>

theorem web_server_never_panics:
  assumes "\<And>m. length (sha m) = 32" "web_fits w" "texts_valid w" "list_all conn_fits conns"
  shows "\<exists>as w'. http_server F sha conns w = Some (as, w') \<and> web_fits w' \<and> texts_valid w' \<and>
     length as \<le> length conns \<and> Some Reset \<notin> set (butlast as)"
  using assms(2-4)
proof (induction conns arbitrary: w)
  case Nil
  then show ?case by simp
next
  case (Cons conn conns)
  show ?case
  proof (cases conn)
    case AcceptFailed
    with Cons.IH [OF Cons.prems(1,2)] Cons.prems(3) show ?thesis by (auto intro: le_SucI)
  next
    case (Accepted st rnd reads)
    obtain a w1 where h: "handle_request F sha rnd st reads w = Some (a, w1)" "web_fits w1" "texts_valid w1"
      using handle_request_total [where sha = sha and F = F, OF assms(1) Cons.prems(1,2), of st rnd reads] Cons.prems(3) Accepted
      by (auto simp del: conn_fits.simps)
    show ?thesis
    proof (cases "a = Some Reset")
      case True
      with h Accepted show ?thesis by simp
    next
      case False
      obtain as w' where "http_server F sha conns w1 = Some (as, w')" "web_fits w'" "texts_valid w'"
        "length as \<le> length conns" "Some Reset \<notin> set (butlast as)" using Cons.IH [OF h(2,3)] Cons.prems(3) by auto
      with h(1) Accepted False show ?thesis by auto
    qed
  qed
qed

lemma demo_get_read:
  "read_request [ReadOk (ascii ''GET / HT''), ReadOk (ascii ''TP/1.1'' @ blank_line), ReadErr] =
     Some (Request (ascii ''GET / HTTP/1.1'' @ blank_line))"
proof -
  let ?cs = "[ascii ''GET / HT'', ascii ''TP/1.1'' @ blank_line]"
  have other: "other_header (ascii ''GET / HTTP/1.1'')"
    by (auto simp: other_header_def to_ascii_lower_def dest!: set_mono_sublist)
  have "whole_request (ascii ''GET / HTTP/1.1'' @ blank_line)"
    unfolding whole_request_def
    by (intro exI [of _ "[ascii ''GET / HTTP/1.1'']"] exI [of _ "[]"])
      (use other in \<open>simp add: plain_line_def body_length_def blank_line_def\<close>)
  then have "read_loop (map ReadOk ?cs @ [ReadErr]) (replicate 1024 0) 0 None = Some (Request (concat ?cs))"
    using whole_request_frame [of "concat ?cs"] read_loop_chunks [of "concat ?cs" _ ?cs 0 "replicate 1024 0" "[ReadErr]"]
    by (auto simp: blank_line_def crlf_def)
  then show ?thesis by (simp add: read_request_def)
qed

theorem web_server_never_panics_witness:
  "\<exists>as w'. http_server demo_flash demo_sha
       [AcceptFailed, Accepted \<lparr>CONFIG_MODE = False, WIFI_CONNECTED = True, STA_IP = None, live_counters = counters_init,
          live_ac = \<lparr>AUTOCONNECT_STATE = 0, SERVER_PUBKEY = None, AC_CLIENTS = 0\<rparr>, GPIO0_HELD = False\<rparr> (\<lambda>_. 7)
          [ReadOk (ascii ''GET / HT''), ReadOk (ascii ''TP/1.1'' @ blank_line), ReadErr]]
       \<lparr>WIFI_CONFIG = WifiConfig_new, DEVICE_CONFIG = DeviceConfig_new, AUTOCONNECT_CONFIG = AutoConnectConfig_new,
        AUTH_CONFIG = AuthConfig_new, web_flash = replicate 1024 0\<rparr> = Some (as, w') \<and> as \<noteq> [None] \<and> length as = 1 \<and> texts_valid w'"
proof -
  let ?w = "\<lparr>WIFI_CONFIG = WifiConfig_new, DEVICE_CONFIG = DeviceConfig_new, AUTOCONNECT_CONFIG = AutoConnectConfig_new,
        AUTH_CONFIG = AuthConfig_new, web_flash = replicate 1024 0 :: bytes\<rparr>"
  let ?st = "\<lparr>CONFIG_MODE = False, WIFI_CONNECTED = True, STA_IP = None, live_counters = counters_init,
          live_ac = \<lparr>AUTOCONNECT_STATE = 0, SERVER_PUBKEY = None, AC_CLIENTS = 0\<rparr>, GPIO0_HELD = False\<rparr>"
  let ?reads = "[ReadOk (ascii ''GET / HT''), ReadOk (ascii ''TP/1.1'' @ blank_line), ReadErr]"
  have sha: "length (demo_sha m) = 32" for m by (simp add: demo_sha_def)
  have fits: "web_fits ?w" by (simp add: web_fits_def)
  have texts: "texts_valid ?w"
    by (simp add: texts_valid_def valid_str_def WifiConfig_new_def DeviceConfig_new_def AuthConfig_new_def ssid_str_def
        password_str_def name_str_def user_str_def DEFAULT_NAME_def)
  have "request_body (ascii ''GET / HTTP/1.1'' @ blank_line) = []"
    by (simp add: request_body_def blank_line_def crlf_def split_str.simps strip_prefix_def)
  then have "conn_fits (Accepted ?st (\<lambda>_. 7) ?reads)"
    unfolding conn_fits.simps demo_get_read
    by (simp add: form_valid_def field_valid_def form_field_def find_form_value_def form_pair_def slice_def blank_line_def crlf_def)
  then have conns: "list_all conn_fits [AcceptFailed, Accepted ?st (\<lambda>_. 7) ?reads]" by simp
  obtain as w' where r: "http_server demo_flash demo_sha [AcceptFailed, Accepted ?st (\<lambda>_. 7) ?reads] ?w = Some (as, w')" "texts_valid w'"
    using web_server_never_panics [where sha = demo_sha and F = demo_flash, OF sha fits texts conns] by blast
  then have "as \<noteq> [None] \<and> length as = 1"
    by (auto simp: handle_request_def demo_get_read bind_eq_Some_conv simp del: ascii_simps split: if_splits)
  with r show ?thesis by blast
qed

end
