(* ===== verification/Startup.thy ===== *)
theory Startup
  imports Http_Server Led Mdns
begin

text \<open>
  The rest of \<^verbatim>\<open>src/main.rs\<close>: the tasks that keep the status flags (\<^verbatim>\<open>gpio0_monitor\<close>, \<^verbatim>\<open>sta_ip_monitor\<close>,
  \<^verbatim>\<open>connection_task\<close>), the addresses of the access point and its DHCP server, and \<^verbatim>\<open>main\<close> from the settings
  to the spawned tasks.  The constructors of the peripheral drivers are the record \<open>hw_api\<close>.
\<close>

section \<open>Model: the monitors\<close>

definition gpio0_monitor_round :: "bool \<Rightarrow> web_live \<Rightarrow> web_live" where
  "gpio0_monitor_round is_low st = st\<lparr>GPIO0_HELD := is_low\<rparr>"

definition sta_ip_monitor_round :: "bytes option \<Rightarrow> web_live \<Rightarrow> web_live" where
  "sta_ip_monitor_round current st = st\<lparr>STA_IP := current\<rparr>"

text \<open>
  \<^verbatim>\<open>connection_task\<close> between its awaits: where it is, and what it is waiting for.  An event that does not
  belong to the place where the task waits is impossible (\<open>None\<close>).
\<close>

datatype conn_state = CheckStarted | Connecting | Associated | Backoff | Finished

datatype conn_event = IsStarted "unit + bool" | ConnectResult "unit + unit" | StationDisconnected | BackoffOver

fun connection_step :: "conn_event \<Rightarrow> conn_state \<times> web_live \<Rightarrow> (conn_state \<times> web_live) option" where
  "connection_step (IsStarted r) (CheckStarted, st) = Some (if r = Inr True then Connecting else Finished, st)"
| "connection_step (ConnectResult (Inr _)) (Connecting, st) = Some (Associated, st\<lparr>WIFI_CONNECTED := True\<rparr>)"
| "connection_step (ConnectResult (Inl _)) (Connecting, st) = Some (Backoff, st)"
| "connection_step StationDisconnected (Associated, st) = Some (CheckStarted, st\<lparr>WIFI_CONNECTED := False\<rparr>)"
| "connection_step BackoffOver (Backoff, st) = Some (CheckStarted, st)"
| "connection_step _ _ = None"

text \<open>The three tasks interleaved.\<close>

datatype mon_event = PinSample bool | AddressSample "bytes option" | Link conn_event

fun monitor_step :: "mon_event \<Rightarrow> conn_state \<times> web_live \<Rightarrow> (conn_state \<times> web_live) option" where
  "monitor_step (PinSample is_low) (c, st) = Some (c, gpio0_monitor_round is_low st)"
| "monitor_step (AddressSample current) (c, st) = Some (c, sta_ip_monitor_round current st)"
| "monitor_step (Link e) cs = connection_step e cs"

fun monitor_run :: "mon_event list \<Rightarrow> conn_state \<times> web_live \<Rightarrow> (conn_state \<times> web_live) option" where
  "monitor_run [] cs = Some cs"
| "monitor_run (e # es) cs = monitor_step e cs \<bind> monitor_run es"

section \<open>Model: the access point's network\<close>

definition AP_IP :: bytes where "AP_IP = [192, 168, 4, 1]"
definition DHCP_POOL_START :: bytes where "DHCP_POOL_START = [192, 168, 4, 10]"
definition DHCP_POOL_END :: bytes where "DHCP_POOL_END = [192, 168, 4, 100]"

record StaticConfigV4 =
  net_address :: bytes
  net_prefix :: nat
  net_gateway :: "bytes option"
  net_dns :: "bytes list"

datatype net_config = Ipv4Static StaticConfigV4 | Dhcpv4

definition ap_config :: net_config where
  "ap_config = Ipv4Static \<lparr>net_address = AP_IP, net_prefix = 24, net_gateway = Some AP_IP, net_dns = []\<rparr>"

definition sta_config :: net_config where
  "sta_config = Dhcpv4"

record DhcpServerConfig =
  dhcp_ip :: bytes
  lease_secs :: nat
  gateways :: "bytes list"
  subnet :: "bytes option"
  dhcp_dns :: "bytes list"
  use_captive_portal :: bool

definition dhcp_config :: DhcpServerConfig where
  "dhcp_config = \<lparr>dhcp_ip = AP_IP, lease_secs = 3600, gateways = [AP_IP], subnet = None, dhcp_dns = [AP_IP],
     use_captive_portal = False\<rparr>"

text \<open>\<open>'l\<close> is the lease table of the DHCP crate, which starts as its default value.\<close>

record 'l SimpleDhcpLeaser =
  pool_start :: bytes
  pool_end :: bytes
  leases :: 'l

definition dhcp_leaser :: "'l \<Rightarrow> 'l SimpleDhcpLeaser" where
  "dhcp_leaser no_leases = \<lparr>pool_start = DHCP_POOL_START, pool_end = DHCP_POOL_END, leases = no_leases\<rparr>"

text \<open>
  The DHCP task: the server of the crate on the access point's stack, with a leaser of its own.  The
  server may run for ever (\<open>None\<close>); if it gives up, with an error or not, the task ends.
\<close>

definition dhcp_server ::
  "('s \<Rightarrow> DhcpServerConfig \<Rightarrow> 'l SimpleDhcpLeaser \<Rightarrow> (('e + unit) \<times> 'l SimpleDhcpLeaser) option) \<Rightarrow> 'l \<Rightarrow> 's \<Rightarrow> unit option" where
  "dhcp_server run_dhcp_server no_leases stack =
     do { (r, leaser) \<leftarrow> run_dhcp_server stack dhcp_config (dhcp_leaser no_leases);
          case r of Inl e \<Rightarrow> Some () | Inr u \<Rightarrow> Some () }"

section \<open>Model: the tasks\<close>

datatype net_if = AP | STA

datatype fw_task = Gpio0Monitor | CanRxTask | UartPortTask | TcpPortTask net_if | NetTask net_if | StaIpMonitor
  | DhcpServerTask | HttpServerTask net_if | MdnsResponder | AutoconnectTask | ConnectionTask

definition spawns :: "bool \<Rightarrow> fw_task list" where
  "spawns config_mode =
     [Gpio0Monitor, CanRxTask, UartPortTask, TcpPortTask AP, TcpPortTask STA, NetTask AP, NetTask STA, StaIpMonitor,
      DhcpServerTask, HttpServerTask AP, HttpServerTask STA, MdnsResponder, AutoconnectTask]
     @ (if \<not> config_mode then [ConnectionTask] else [])"

text \<open>
  The \<^verbatim>\<open>pool_size\<close> of the task attributes (1 when not given).  A spawn fails when all instances of its
  task function run already, and the code drops the error with \<^verbatim>\<open>.ok()\<close>.
\<close>

fun pool_size :: "fw_task \<Rightarrow> nat" where
  "pool_size (TcpPortTask _) = 2"
| "pool_size (NetTask _) = 2"
| "pool_size (HttpServerTask _) = 2"
| "pool_size _ = 1"

fun same_task_fn :: "fw_task \<Rightarrow> fw_task \<Rightarrow> bool" where
  "same_task_fn (TcpPortTask _) (TcpPortTask _) \<longleftrightarrow> True"
| "same_task_fn (NetTask _) (NetTask _) \<longleftrightarrow> True"
| "same_task_fn (HttpServerTask _) (HttpServerTask _) \<longleftrightarrow> True"
| "same_task_fn s t \<longleftrightarrow> s = t"

fun spawn_all :: "fw_task list \<Rightarrow> fw_task list \<Rightarrow> fw_task list" where
  "spawn_all running [] = running"
| "spawn_all running (t # ts) =
     spawn_all (if length (filter (same_task_fn t) running) < pool_size t then running @ [t] else running) ts"

section \<open>Model: main\<close>

record ('p, 'c, 'x) hw_api =
  uart_new :: "u32 \<Rightarrow> bool"
  led_channel :: "'c option"
  hw_rmt :: "('p, 'c, 'x) rmt_hal"
  wifi_new :: bool
  hw_random :: "nat \<Rightarrow> u32"
  wifi_set_config :: "radio_mode \<Rightarrow> bool"
  wifi_start :: bool

record 'c started =
  st_boot :: boot_state
  st_baud :: u32
  st_led :: "'c option"
  st_seed :: u64
  st_ap :: net_config
  st_sta :: net_config
  st_radio :: radio_mode
  st_tasks :: "fw_task list"

text \<open>\<^verbatim>\<open>.unwrap()\<close> of the result of a constructor that succeeded or not.\<close>

definition unwrap_ok :: "bool \<Rightarrow> unit run" where
  "unwrap_ok ok = (if ok then Some () else None)"

definition main_init :: "('fl, 'pt, 'q) flash_api \<Rightarrow> ('p, 'c, 'x) hw_api \<Rightarrow> 'fl \<Rightarrow> 'c started run" where
  "main_init F hw fl =
     do { s \<leftarrow> boot F fl;
          unwrap_ok (uart_new hw (uart_baud s));
          ch \<leftarrow> led_channel hw;
          led \<leftarrow> set_rgb (hw_rmt hw) 0 0 0 (ActivityLed_new ch);
          unwrap_ok (wifi_new hw);
          let net_seed = push_bit 32 (ucast (hw_random hw 0)) OR ucast (hw_random hw 1) in
          do { radio \<leftarrow> radio_config s;
               unwrap_ok (wifi_set_config hw radio);
               unwrap_ok (wifi_start hw);
               Some \<lparr>st_boot = s, st_baud = uart_baud s, st_led = led, st_seed = net_seed, st_ap = ap_config,
                     st_sta = sta_config, st_radio = radio, st_tasks = spawn_all [] (spawns (boot_config_mode s))\<rparr> } }"

section \<open>The flags follow the driver\<close>

text \<open>What the drivers have reported, oldest first: the pin, the address, association and its loss.\<close>

fun pin_history :: "mon_event list \<Rightarrow> bool list" where
  "pin_history [] = []"
| "pin_history (PinSample b # es) = b # pin_history es"
| "pin_history (_ # es) = pin_history es"

fun address_history :: "mon_event list \<Rightarrow> bytes option list" where
  "address_history [] = []"
| "address_history (AddressSample a # es) = a # address_history es"
| "address_history (_ # es) = address_history es"

fun link_history :: "mon_event list \<Rightarrow> bool list" where
  "link_history [] = []"
| "link_history (Link (ConnectResult (Inr _)) # es) = True # link_history es"
| "link_history (Link StationDisconnected # es) = False # link_history es"
| "link_history (_ # es) = link_history es"

lemma connection_step_cases:
  assumes "connection_step e (c, st) = Some (c', st')"
  obtains r where "e = IsStarted r" "c = CheckStarted" "c' = (if r = Inr True then Connecting else Finished)" "st' = st"
  | u where "e = ConnectResult (Inr u)" "c = Connecting" "c' = Associated" "st' = st\<lparr>WIFI_CONNECTED := True\<rparr>"
  | u where "e = ConnectResult (Inl u)" "c = Connecting" "c' = Backoff" "st' = st"
  | "e = StationDisconnected" "c = Associated" "c' = CheckStarted" "st' = st\<lparr>WIFI_CONNECTED := False\<rparr>"
  | "e = BackoffOver" "c = Backoff" "c' = CheckStarted" "st' = st"
  using assms by (cases "(e, c, st)" rule: connection_step.cases) auto

lemma monitor_step_flags:
  assumes "monitor_step e (c, st) = Some (c1, st1)"
  shows "last (GPIO0_HELD st # pin_history (e # es)) = last (GPIO0_HELD st1 # pin_history es)"
    "last (STA_IP st # address_history (e # es)) = last (STA_IP st1 # address_history es)"
    "last (WIFI_CONNECTED st # link_history (e # es)) = last (WIFI_CONNECTED st1 # link_history es)"
    "(WIFI_CONNECTED st \<longleftrightarrow> c = Associated) \<Longrightarrow> (WIFI_CONNECTED st1 \<longleftrightarrow> c1 = Associated)"
proof -
  have "last (GPIO0_HELD st # pin_history (e # es)) = last (GPIO0_HELD st1 # pin_history es) \<and>
     last (STA_IP st # address_history (e # es)) = last (STA_IP st1 # address_history es) \<and>
     last (WIFI_CONNECTED st # link_history (e # es)) = last (WIFI_CONNECTED st1 # link_history es) \<and>
     ((WIFI_CONNECTED st \<longleftrightarrow> c = Associated) \<longrightarrow> (WIFI_CONNECTED st1 \<longleftrightarrow> c1 = Associated))"
  proof (cases e)
    case (Link x)
    with assms have "connection_step x (c, st) = Some (c1, st1)" by simp
    then show ?thesis by (cases rule: connection_step_cases) (simp_all add: Link)
  next
    case (PinSample b)
    with assms have "c1 = c" "st1 = st\<lparr>GPIO0_HELD := b\<rparr>" by (simp_all add: gpio0_monitor_round_def)
    then show ?thesis by (simp add: PinSample)
  next
    case (AddressSample a)
    with assms have "c1 = c" "st1 = st\<lparr>STA_IP := a\<rparr>" by (simp_all add: sta_ip_monitor_round_def)
    then show ?thesis by (simp add: AddressSample)
  qed
  then show "last (GPIO0_HELD st # pin_history (e # es)) = last (GPIO0_HELD st1 # pin_history es)"
    "last (STA_IP st # address_history (e # es)) = last (STA_IP st1 # address_history es)"
    "last (WIFI_CONNECTED st # link_history (e # es)) = last (WIFI_CONNECTED st1 # link_history es)"
    "(WIFI_CONNECTED st \<longleftrightarrow> c = Associated) \<Longrightarrow> (WIFI_CONNECTED st1 \<longleftrightarrow> c1 = Associated)" by blast+
qed

lemma monitor_run_flags:
  assumes "monitor_run es (c, st) = Some (c', st')"
  shows "GPIO0_HELD st' = last (GPIO0_HELD st # pin_history es)" "STA_IP st' = last (STA_IP st # address_history es)"
    "WIFI_CONNECTED st' = last (WIFI_CONNECTED st # link_history es)"
    "(WIFI_CONNECTED st \<longleftrightarrow> c = Associated) \<Longrightarrow> (WIFI_CONNECTED st' \<longleftrightarrow> c' = Associated)"
  using assms
proof (induction es arbitrary: c st)
  case (Cons e es)
  {
    case 1
    then obtain c1 st1 where "monitor_step e (c, st) = Some (c1, st1)" "monitor_run es (c1, st1) = Some (c', st')"
      by (auto simp: bind_eq_Some_conv)
    then show ?case using monitor_step_flags(1) Cons.IH(1) by metis
  next
    case 2
    then obtain c1 st1 where "monitor_step e (c, st) = Some (c1, st1)" "monitor_run es (c1, st1) = Some (c', st')"
      by (auto simp: bind_eq_Some_conv)
    then show ?case using monitor_step_flags(2) Cons.IH(2) by metis
  next
    case 3
    then obtain c1 st1 where "monitor_step e (c, st) = Some (c1, st1)" "monitor_run es (c1, st1) = Some (c', st')"
      by (auto simp: bind_eq_Some_conv)
    then show ?case using monitor_step_flags(3) Cons.IH(3) by metis
  next
    case 4
    then obtain c1 st1 where "monitor_step e (c, st) = Some (c1, st1)" "monitor_run es (c1, st1) = Some (c', st')"
      by (auto simp: bind_eq_Some_conv)
    then show ?case using monitor_step_flags(4) Cons.IH(4) 4(1) by metis
  }
qed simp_all

text \<open>
  C30.  The status flags follow the drivers.  After any interleaving of the button, address and
  connection tasks from power-on, the button flag is the last sampled level, the address is the last
  one the network stack reported, and the WiFi flag is set exactly when the last link event was a
  successful connection, which is exactly while the connection task waits for the disconnection.
\<close>

theorem flags_follow_drivers:
  assumes "monitor_run es (CheckStarted, st) = Some (c, st')"
    "\<not> GPIO0_HELD st" "STA_IP st = None" "\<not> WIFI_CONNECTED st"
  shows "GPIO0_HELD st' = last (False # pin_history es) \<and> STA_IP st' = last (None # address_history es) \<and>
     WIFI_CONNECTED st' = last (False # link_history es) \<and> (WIFI_CONNECTED st' \<longleftrightarrow> c = Associated)"
proof -
  have "WIFI_CONNECTED st \<longleftrightarrow> CheckStarted = Associated" using assms(4) by simp
  with monitor_run_flags [OF assms(1)] assms(2-4) show ?thesis by metis
qed

definition power_on :: web_live where
  "power_on = \<lparr>CONFIG_MODE = False, WIFI_CONNECTED = False, STA_IP = None, live_counters = counters_init,
     live_ac = \<lparr>AUTOCONNECT_STATE = 0, SERVER_PUBKEY = None, AC_CLIENTS = 0\<rparr>, GPIO0_HELD = False\<rparr>"

theorem flags_follow_drivers_witness:
  "\<exists>c st'. monitor_run [Link (IsStarted (Inr True)), PinSample True, Link (ConnectResult (Inr ())), AddressSample (Some [10, 0, 0, 1])]
       (CheckStarted, power_on) = Some (c, st') \<and>
     GPIO0_HELD st' \<and> STA_IP st' = Some [10, 0, 0, 1] \<and> WIFI_CONNECTED st' \<and> c = Associated"
proof -
  let ?es = "[Link (IsStarted (Inr True)), PinSample True, Link (ConnectResult (Inr ())), AddressSample (Some [10, 0, 0, 1])]"
  obtain c st' where r: "monitor_run ?es (CheckStarted, power_on) = Some (c, st')" by simp
  from flags_follow_drivers [OF r] r show ?thesis by (simp add: power_on_def)
qed

section \<open>The addresses of the access point\<close>

definition ip_number :: "bytes \<Rightarrow> nat" where
  "ip_number ip = foldl (\<lambda>n b. 256 * n + unat b) 0 ip"

text \<open>The network of the static configuration: the address without its host bits.\<close>

definition same_subnet :: "nat \<Rightarrow> bytes \<Rightarrow> bytes \<Rightarrow> bool" where
  "same_subnet len a b \<longleftrightarrow> ip_number a div 2 ^ (32 - len) = ip_number b div 2 ^ (32 - len)"

text \<open>
  The addresses the DHCP server may lease fit the access point's network: every address of the
  pool lies in the subnet of the static configuration, so a client reaches the gateway and name server
  it is told without routing; none is the access point's own address, the network address or the
  broadcast address; and the pool is not empty.
\<close>

lemma dhcp_pool_fits_network:
  "\<exists>c. ap_config = Ipv4Static c \<and> gateways dhcp_config = [net_address c] \<and> dhcp_dns dhcp_config = [net_address c] \<and>
     dhcp_ip dhcp_config = net_address c \<and> net_gateway c = Some (net_address c) \<and>
     ip_number (pool_start (dhcp_leaser d)) \<le> ip_number (pool_end (dhcp_leaser d)) \<and>
     (\<forall>a. length a = 4 \<and> ip_number (pool_start (dhcp_leaser d)) \<le> ip_number a \<and> ip_number a \<le> ip_number (pool_end (dhcp_leaser d)) \<longrightarrow>
        same_subnet (net_prefix c) a (net_address c) \<and> a \<noteq> net_address c \<and>
        ip_number a mod 2 ^ (32 - net_prefix c) \<notin> {0, 255})"
proof -
  have pool: "ip_number DHCP_POOL_START = 3232236554" "ip_number DHCP_POOL_END = 3232236644" "ip_number AP_IP = 3232236545"
    by (simp_all add: ip_number_def DHCP_POOL_START_def DHCP_POOL_END_def AP_IP_def)
  have "same_subnet 24 a AP_IP \<and> a \<noteq> AP_IP \<and> ip_number a mod 256 \<notin> {0, 255}"
    if a: "3232236554 \<le> ip_number a" "ip_number a \<le> 3232236644" for a
  proof -
    define k where "k = ip_number a - 3232236544"
    have k: "ip_number a = 256 * 12625924 + k" "10 \<le> k" "k \<le> 100" using a by (simp_all add: k_def)
    then have "ip_number a div 256 = 12625924" by simp
    moreover have "(256 * 12625924 + k) mod 256 = k mod 256" by (rule mod_mult_self4)
    then have "ip_number a mod 256 = k" using k by simp
    ultimately show ?thesis using pool(3) k by (auto simp: same_subnet_def)
  qed
  with pool show ?thesis by (simp add: ap_config_def dhcp_config_def dhcp_leaser_def)
qed

section \<open>Starting up\<close>

text \<open>The statics after the settings were loaded, and the condition on flash under which they fit.\<close>

definition web_of :: "boot_state \<Rightarrow> 'fl \<Rightarrow> 'fl web" where
  "web_of s fl = \<lparr>WIFI_CONFIG = boot_wifi s, DEVICE_CONFIG = boot_device s, AUTOCONNECT_CONFIG = boot_auto s,
     AUTH_CONFIG = boot_auth s, web_flash = fl\<rparr>"

definition settings_fit :: "('fl, 'pt, 'q) flash_api \<Rightarrow> 'fl \<Rightarrow> bool" where
  "settings_fit F fl \<longleftrightarrow>
     (\<forall>c. load_wifi F fl = Some c \<longrightarrow> wifi_fits c) \<and> (\<forall>c. load_device F fl = Some c \<longrightarrow> device_fits c) \<and>
     (\<forall>c. load_autoconnect F fl = Some c \<longrightarrow> autoconnect_fits c) \<and> (\<forall>c. load_auth F fl = Some c \<longrightarrow> auth_fits c)"

lemma load_wifi_valid: "load_wifi F fl = Some c \<Longrightarrow> wifi_is_valid c"
  by (auto simp: load_wifi_def wifi_from_bytes_def Let_def bind_eq_Some_conv split: if_splits)

lemma boot_web:
  assumes "boot F fl = Some s"
  shows "WIFI_CONFIG (web_of s fl) = (case load_wifi F fl of Some c \<Rightarrow> c | None \<Rightarrow> WifiConfig_new)"
    "Some (DEVICE_CONFIG (web_of s fl)) = (case load_device F fl of Some c \<Rightarrow> Some c | None \<Rightarrow> device_defaults)"
    "AUTOCONNECT_CONFIG (web_of s fl) = (case load_autoconnect F fl of Some c \<Rightarrow> c | None \<Rightarrow> AutoConnectConfig_new)"
    "AUTH_CONFIG (web_of s fl) = (case load_auth F fl of Some c \<Rightarrow> c | None \<Rightarrow> AuthConfig_new)"
    "boot_config_mode s \<longleftrightarrow> load_wifi F fl = None"
  using assms load_wifi_valid [of F fl]
  by (auto simp: boot_def web_of_def Let_def bind_eq_Some_conv split: option.splits)

lemma boot_fits:
  assumes "settings_fit F fl"
  shows "\<exists>s. boot F fl = Some s \<and> web_fits (web_of s fl)"
proof -
  obtain s where s: "boot F fl = Some s" using boot_total [of F fl] by blast
  obtain d where d: "device_defaults = Some d" "device_fits d" using device_defaults_fits by blast
  have "device_fits (DEVICE_CONFIG (web_of s fl))"
    using boot_web(2) [OF s] assms d(2) unfolding d(1) by (auto simp: settings_fit_def split: option.splits)
  then show ?thesis
    using assms s boot_web [OF s] by (auto simp: web_fits_def settings_fit_def split: option.splits)
qed

lemma boot_radio:
  assumes "settings_fit F fl" "boot F fl = Some s"
  shows "case load_wifi F fl of
       Some c \<Rightarrow> \<exists>n p. ssid_str c = Some n \<and> password_str c = Some p \<and> radio_config s = Some (Station n p)
     | None \<Rightarrow> \<exists>n. name_str (boot_device s) = Some n \<and> radio_config s = Some (AccessPoint n)"
proof -
  have fits: "web_fits (web_of s fl)" using boot_fits [OF assms(1)] assms(2) by auto
  show ?thesis
  proof (cases "load_wifi F fl")
    case None
    then show ?thesis
      using readers_total(3) [of "boot_device s"] fits boot_web(5) [OF assms(2)]
      by (auto simp: web_fits_def web_of_def radio_config_def)
  next
    case (Some c)
    then have "boot_wifi s = c" "\<not> boot_config_mode s" "wifi_fits c"
      using boot_web(1,5) [OF assms(2)] assms(1) by (auto simp: web_of_def settings_fit_def)
    with Some readers_total(1,2) [of c] show ?thesis by (auto simp: radio_config_def)
  qed
qed

lemma spawn_all_spawns: "spawn_all [] (spawns config_mode) = spawns config_mode"
  by (cases config_mode) (simp_all add: spawns_def)

text \<open>
  The drivers accept what this start gives them: the stored rate, the radio configuration of the stored
  settings, and the constants.  The UART may well refuse another rate.
\<close>

definition hw_ok :: "('p, 'c, 'x) hw_api \<Rightarrow> boot_state \<Rightarrow> bool" where
  "hw_ok hw s \<longleftrightarrow> uart_new hw (uart_baud s) \<and> led_channel hw \<noteq> None \<and> wifi_new hw \<and>
     (\<forall>m. radio_config s = Some m \<longrightarrow> wifi_set_config hw m) \<and> wifi_start hw"

lemma main_comes_up_core:
  assumes "settings_fit F fl" "boot F fl = Some s" "hw_ok hw s"
  shows "\<exists>r. main_init F hw fl = Some r \<and>
     (case load_wifi F fl of
        Some c \<Rightarrow> \<exists>n p. ssid_str c = Some n \<and> password_str c = Some p \<and> st_radio r = Station n p
      | None \<Rightarrow> \<exists>n. name_str (boot_device (st_boot r)) = Some n \<and> st_radio r = AccessPoint n) \<and>
     (boot_config_mode (st_boot r) \<longleftrightarrow> load_wifi F fl = None) \<and>
     st_tasks r = spawns (load_wifi F fl = None) \<and> (ConnectionTask \<in> set (st_tasks r) \<longleftrightarrow> load_wifi F fl \<noteq> None) \<and>
     st_led r \<noteq> None"
proof -
  note s = assms(2)
  obtain radio where radio: "radio_config s = Some radio"
    using boot_radio [OF assms(1) s] by (auto split: option.splits)
  obtain ch where ch: "led_channel hw = Some ch" using assms(3) by (auto simp: hw_ok_def)
  have led: "\<exists>c. set_rgb (hw_rmt hw) 0 0 0 (ActivityLed_new ch) = Some (Some c)"
    by (simp add: set_rgb_def led_data_eq ActivityLed_new_def)
  have up: "unwrap_ok (uart_new hw (uart_baud s)) = Some ()" "unwrap_ok (wifi_new hw) = Some ()"
    "unwrap_ok (wifi_set_config hw radio) = Some ()" "unwrap_ok (wifi_start hw) = Some ()"
    using assms(3) radio by (simp_all add: hw_ok_def unwrap_ok_def)
  have mode: "boot_config_mode s \<longleftrightarrow> load_wifi F fl = None" by (rule boot_web(5) [OF s])
  have tasks: "ConnectionTask \<in> set (spawns m) \<longleftrightarrow> \<not> m" for m by (simp add: spawns_def)
  from led obtain c where "main_init F hw fl = Some \<lparr>st_boot = s, st_baud = uart_baud s, st_led = Some c,
      st_seed = push_bit 32 (ucast (hw_random hw 0)) OR ucast (hw_random hw 1), st_ap = ap_config,
      st_sta = sta_config, st_radio = radio, st_tasks = spawns (load_wifi F fl = None)\<rparr>"
    using s ch up radio mode by (auto simp: main_init_def spawn_all_spawns Let_def)
  with boot_radio [OF assms(1) s] radio mode tasks show ?thesis by (auto split: option.splits)
qed

text \<open>With lengths that fit, the drivers are the only thing that can stop \<^verbatim>\<open>main\<close>.\<close>

lemma main_init_iff:
  assumes "settings_fit F fl" "boot F fl = Some s"
  shows "main_init F hw fl \<noteq> None \<longleftrightarrow> hw_ok hw s"
proof
  assume "main_init F hw fl \<noteq> None"
  then show "hw_ok hw s"
    using assms(2) by (auto simp: main_init_def hw_ok_def unwrap_ok_def Let_def split: if_splits Option.bind_splits)
next
  assume "hw_ok hw s"
  from main_comes_up_core [OF assms this] show "main_init F hw fl \<noteq> None" by auto
qed

text \<open>
  C29.  \<^verbatim>\<open>main\<close> comes up.  When the stored lengths fit and the drivers accept what this start gives them
  (the stored baud rate, the radio configuration, constants), \<^verbatim>\<open>main\<close> reaches its final loop: with stored credentials the radio is a station with
  exactly these and the connection task runs, without them it is an access point under the device name
  and there is no connection task; the mode flag says which; the LED has its channel; and every task is
  really spawned, since no task function is spawned more often than its pool allows.
\<close>

theorem main_comes_up:
  assumes "settings_fit F fl" "boot F fl = Some s" "hw_ok hw s"
  shows "\<exists>r. main_init F hw fl = Some r \<and>
     (case load_wifi F fl of
        Some c \<Rightarrow> \<exists>n p. ssid_str c = Some n \<and> password_str c = Some p \<and> st_radio r = Station n p
      | None \<Rightarrow> \<exists>n. name_str (boot_device (st_boot r)) = Some n \<and> st_radio r = AccessPoint n) \<and>
     (boot_config_mode (st_boot r) \<longleftrightarrow> load_wifi F fl = None) \<and>
     st_tasks r = spawns (load_wifi F fl = None) \<and> (ConnectionTask \<in> set (st_tasks r) \<longleftrightarrow> load_wifi F fl \<noteq> None) \<and>
     st_led r \<noteq> None"
  using main_comes_up_core [OF assms] .

definition demo_hw :: "(pin_level \<times> u16 \<times> pin_level \<times> u16, nat, nat) hw_api" where
  "demo_hw = \<lparr>uart_new = (\<lambda>baud. baud \<noteq> 0), led_channel = Some 7, hw_rmt = demo_rmt, wifi_new = True,
     hw_random = (\<lambda>_. 4), wifi_set_config = (\<lambda>_. True), wifi_start = True\<rparr>"

lemma demo_hw_ok: "hw_ok demo_hw s"
  by (simp add: hw_ok_def demo_hw_def uart_baud_def device_baud_def DEFAULT_UART_BAUD_def)

lemma demo_blank: "settings demo_flash (replicate 1024 0) = (None, None, None, None)"
  by (simp add: settings_def load_wifi_def load_device_def load_autoconnect_def load_auth_def nvs_partition_def demo_flash_def
      ok_bytes_def slot_offsets wifi_from_bytes_def device_from_bytes_def autoconnect_from_bytes_def auth_from_bytes_def
      wifi_read_unaligned_def device_read_unaligned_def autoconnect_read_unaligned_def auth_read_unaligned_def
      wifi_is_valid_def device_is_valid_def autoconnect_is_valid_def auth_is_valid_def Let_def
      le_word32_def WIFI_CONFIG_MAGIC_def DEVICE_CONFIG_MAGIC_def AUTOCONN_CONFIG_MAGIC_def AUTH_CONFIG_MAGIC_def)

theorem main_comes_up_witness:
  "\<exists>r n. main_init demo_flash demo_hw (replicate 1024 0) = Some r \<and> st_radio r = AccessPoint n \<and>
     ConnectionTask \<notin> set (st_tasks r) \<and> boot_config_mode (st_boot r)"
proof -
  have blank: "load_wifi demo_flash (replicate 1024 0) = None" "settings_fit demo_flash (replicate 1024 0)"
    using demo_blank by (simp_all add: settings_def settings_fit_def)
  obtain s where "boot demo_flash (replicate 1024 0) = Some s" using boot_total [of demo_flash] by blast
  from main_comes_up [OF blank(2) this demo_hw_ok] blank(1) show ?thesis by auto
qed

section \<open>A save that is cut off\<close>

text \<open>
  A power failure during the write of the WiFi slot can leave its first bytes written and the rest
  erased.  If it is cut between the magic number and the length of the password, the slot passes for
  valid with a length of 255, and \<^verbatim>\<open>main\<close> panics at this and every later start, whatever the drivers do.
\<close>

lemma torn_wifi_slot_stops_start:
  assumes "nvs_partition F fl = Some part" "part_read F fl part WIFI_CONFIG_OFFSET 128 = Inr bs"
    "length bs = 128" "take 4 bs = le_bytes32 WIFI_CONFIG_MAGIC"
    "bs ! 36 = 0xFF \<or> 0 < bs ! 36 \<and> bs ! 101 = 0xFF"
  shows "main_init F hw fl = None"
proof -
  have "le_word32 bs = le_word32 (le_bytes32 WIFI_CONFIG_MAGIC @ drop 4 bs)" using assms(4) by (metis append_take_drop_id)
  then have magic: "le_word32 bs = WIFI_CONFIG_MAGIC" by simp
  let ?c = "wifi_read_unaligned bs"
  have c: "load_wifi F fl = Some ?c"
    using assms(1,2,3,5) magic
    by (auto simp: load_wifi_def ok_bytes_def wifi_from_bytes_def wifi_read_unaligned_def wifi_is_valid_def wifi_size_def)
  have none: "ssid_str ?c = None \<or> password_str ?c = None"
    using assms(3,5) by (auto simp: ssid_str_def password_str_def wifi_read_unaligned_def slice_def)
  obtain s where s: "boot F fl = Some s" using boot_total [of F fl] by blast
  have "radio_config s = None"
    using boot_web(1,5) [OF s] c none by (auto simp: radio_config_def web_of_def split: Option.bind_split)
  then show ?thesis using s by (simp add: main_init_def Let_def split: Option.bind_split)
qed

section \<open>A baud rate that the UART refuses\<close>

lemma device_form_result:
  assumes "n \<noteq> []" "length n \<le> 32" "list_all (\<lambda>b. is_ascii_alphanumeric b \<or> b = asc CHR ''-'') n"
    "list_all is_ascii_digit ds" "length ds \<le> 16" "parse_uint (2 ^ 32 - 1) ds = Some b" "0 < b"
  shows "\<exists>c r. device_good c \<and> device_baud c = of_nat b \<and> Config.save_device F c (web_flash w) = Some r \<and>
     http_save_device F (two_field_form (ascii ''name'') n (ascii ''baud'') ds) w =
       Some (if is_ok r then Reset else Response save_failed, w\<lparr>web_flash := snd r, DEVICE_CONFIG := c\<rparr>)"
proof -
  let ?body = "two_field_form (ascii ''name'') n (ascii ''baud'') ds"
  have f: "form_field ?body (ascii ''name'') 32 = Some n" "form_field ?body (ascii ''baud'') 16 = Some ds"
    using two_fields [of "ascii ''name''" "ascii ''baud''" n ds] assms(2,5) by (simp_all del: ascii_simps, simp_all)
  have "unat (of_nat b :: u32) = b"
    using parse_uint_le [OF assms(6)] by (simp add: unsigned_of_nat take_bit_nat_eq_self)
  then have b: "(of_nat b :: u32) \<noteq> 0" using assms(7) by auto
  obtain d where d: "device_defaults = Some d" "device_fits d" using device_defaults_fits by blast
  then obtain c where c: "device_set n (of_nat b) d = Some c" "device_good c" "device_baud c = of_nat b"
    using device_set_result [of d n "of_nat b"] assms(1) b by (auto simp: device_fits_def)
  obtain r where r: "Config.save_device F c (web_flash w) = Some r" using device_slot.save_total [OF c(2), of F "web_flash w"] by auto
  have "http_save_device F ?body w = Some (if is_ok r then Reset else Response save_failed, w\<lparr>web_flash := snd r, DEVICE_CONFIG := c\<rparr>)"
    using f assms(1,3,6,7) c(1) r
    unfolding http_save_device_def Let_def d(1) digits_utf8 [OF assms(4)]
    by (simp add: digits_utf8 [OF assms(4)] trim_digits [OF assms(4)] del: ascii_simps)
  with c r show ?thesis by blast
qed

text \<open>
  C40.  The settings page accepts every baud rate from 1 to 2^32 - 1.  A submitted rate that was saved is
  the rate \<^verbatim>\<open>main\<close> gives to the UART driver at the next start, and if the driver refuses it, \<^verbatim>\<open>main\<close> panics
  before the radio and the web server are up, in this and (the flash being unchanged) in every later
  start.
\<close>

theorem refused_baud_stops_start:
  assumes "flash_ok F" "n \<noteq> []" "length n \<le> 32" "list_all (\<lambda>b. is_ascii_alphanumeric b \<or> b = asc CHR ''-'') n"
    "list_all is_ascii_digit ds" "length ds \<le> 16" "parse_uint (2 ^ 32 - 1) ds = Some b" "0 < b"
    "http_save_device F (two_field_form (ascii ''name'') n (ascii ''baud'') ds) w = Some (Reset, w')"
    "\<not> uart_new hw (of_nat b)"
  shows "(\<exists>s. boot F (web_flash w') = Some s \<and> uart_baud s = of_nat b) \<and> main_init F hw (web_flash w') = None"
proof -
  obtain c r where c: "device_good c" "device_baud c = of_nat b" "Config.save_device F c (web_flash w) = Some r"
    and res: "http_save_device F (two_field_form (ascii ''name'') n (ascii ''baud'') ds) w =
       Some (if is_ok r then Reset else Response save_failed, w\<lparr>web_flash := snd r, DEVICE_CONFIG := c\<rparr>)"
    using device_form_result [OF assms(2-8)] by blast
  from res assms(9) have "is_ok r" "web_flash w' = snd r" by (auto split: if_splits)
  then have "load_device F (web_flash w') = Some c"
    using save_device_settings [OF assms(1) c(1)] c(3) is_okD [of r] by (metis settings_def prod.inject)
  moreover obtain s where s: "boot F (web_flash w') = Some s" using boot_total [of F "web_flash w'"] by blast
  ultimately have "uart_baud s = of_nat b"
    using boot_web(2) [OF s] c(2) by (simp add: web_of_def uart_baud_def)
  with s assms(10) show ?thesis by (simp add: main_init_def unwrap_ok_def)
qed

lemma demo_device_saved:
  assumes "device_good c" "Config.save_device demo_flash c (replicate 1024 0) = Some r"
  shows "is_ok r"
proof -
  have "length (device_as_bytes c) = 44" using assms(1) by (simp add: device_as_bytes_def device_good_def)
  with assms(2) show ?thesis
    by (auto simp: save_device_def nvs_partition_def copy_prefix_def demo_flash_def DEVICE_CONFIG_OFFSET_def is_ok_def)
qed

theorem refused_baud_stops_start_witness:
  "\<exists>w'. http_save_device demo_flash (two_field_form (ascii ''name'') (ascii ''can'') (ascii ''baud'') (ascii ''1''))
       \<lparr>WIFI_CONFIG = WifiConfig_new, DEVICE_CONFIG = DeviceConfig_new, AUTOCONNECT_CONFIG = AutoConnectConfig_new,
        AUTH_CONFIG = AuthConfig_new, web_flash = replicate 1024 0\<rparr> = Some (Reset, w') \<and>
     main_init demo_flash (demo_hw\<lparr>uart_new := \<lambda>baud. 300 \<le> baud\<rparr>) (web_flash w') = None"
proof -
  let ?w = "\<lparr>WIFI_CONFIG = WifiConfig_new, DEVICE_CONFIG = DeviceConfig_new, AUTOCONNECT_CONFIG = AutoConnectConfig_new,
      AUTH_CONFIG = AuthConfig_new, web_flash = replicate 1024 0\<rparr> :: bytes web"
  let ?body = "two_field_form (ascii ''name'') (ascii ''can'') (ascii ''baud'') (ascii ''1'')"
  have n: "ascii ''can'' \<noteq> []" "length (ascii ''can'') \<le> 32"
    "list_all (\<lambda>b. is_ascii_alphanumeric b \<or> b = asc CHR ''-'') (ascii ''can'')"
    by (simp_all add: is_ascii_alphanumeric_def is_ascii_digit_def)
  have ds: "list_all is_ascii_digit (ascii ''1'')" "length (ascii ''1'') \<le> 16"
    "parse_uint (2 ^ 32 - 1) (ascii ''1'') = Some 1" "0 < (1 :: nat)"
    by (simp_all add: is_ascii_digit_def parse_uint_def digit_val_def)
  obtain c r where "device_good c" "Config.save_device demo_flash c (replicate 1024 0) = Some r"
    and res: "http_save_device demo_flash ?body ?w =
       Some (if is_ok r then Reset else Response save_failed, ?w\<lparr>web_flash := snd r, DEVICE_CONFIG := c\<rparr>)"
    using device_form_result [OF n ds, of demo_flash ?w] by (auto simp del: ascii_simps)
  then have "is_ok r" by (intro demo_device_saved)
  with res obtain w' where reset: "http_save_device demo_flash ?body ?w = Some (Reset, w')" by auto
  have "\<not> uart_new (demo_hw\<lparr>uart_new := \<lambda>baud. 300 \<le> baud\<rparr>) (of_nat 1)" by (simp add: word_le_nat_alt)
  from refused_baud_stops_start [OF demo_flash_ok n ds reset this] reset show ?thesis by blast
qed

end
