(* ===== verification/Net_Stacks.thy ===== *)
theory Net_Stacks
  imports Startup
begin

text \<open>
  The socket budgets of the two network stacks.  \<^verbatim>\<open>main\<close> gives the access point's stack room for 4 sockets
  and the station's stack room for 6, and a task that creates a socket on a full stack panics.  The
  tasks of \<^verbatim>\<open>src/main.rs\<close>, \<^verbatim>\<open>src/http.rs\<close>, \<^verbatim>\<open>src/mdns.rs\<close> and \<^verbatim>\<open>src/autoconnect.rs\<close> that own a socket are run
  together here, each reduced to where it creates its socket and where the socket goes out of scope.

  What embassy-net and the DHCP crate take for themselves is a parameter (\<open>net_api\<close>).
\<close>

section \<open>Model\<close>

definition SLCAN_TCP_PORT :: u16 where "SLCAN_TCP_PORT = 2000"
definition HTTP_PORT :: u16 where "HTTP_PORT = 80"

text \<open>\<^verbatim>\<open>StackResources<4>\<close> and \<^verbatim>\<open>StackResources<6>\<close>.\<close>

fun stack_resources :: "net_if \<Rightarrow> nat" where
  "stack_resources AP = 4"
| "stack_resources STA = 6"

fun stack_config :: "'c started \<Rightarrow> net_if \<Rightarrow> net_config" where
  "stack_config st AP = st_ap st"
| "stack_config st STA = st_sta st"

text \<open>The stack a task is spawned with, for the tasks that create a socket on it.\<close>

fun socket_stack :: "fw_task \<Rightarrow> net_if option" where
  "socket_stack (TcpPortTask i) = Some i"
| "socket_stack (HttpServerTask i) = Some i"
| "socket_stack DhcpServerTask = Some AP"
| "socket_stack MdnsResponder = Some STA"
| "socket_stack AutoconnectTask = Some STA"
| "socket_stack _ = None"

text \<open>
  The fixed port a task of this repository accepts on or binds to.  The auto-connect task dials out from
  a port the stack chooses, and the port of the DHCP server is chosen in its crate.
\<close>

fun listen_port :: "fw_task \<Rightarrow> u16 option" where
  "listen_port (TcpPortTask _) = Some SLCAN_TCP_PORT"
| "listen_port (HttpServerTask _) = Some HTTP_PORT"
| "listen_port MdnsResponder = Some MDNS_PORT"
| "listen_port _ = None"

text \<open>
  What the libraries take: the sockets a stack reserves for itself when it is created (for name
  resolution and for its DHCP client), and the sockets of a running DHCP server.
\<close>

record net_api =
  own_sockets :: "net_config \<Rightarrow> nat"
  dhcp_sockets :: nat

definition net_ok :: "net_api \<Rightarrow> bool" where
  "net_ok A \<longleftrightarrow> (\<forall>c. own_sockets A (Ipv4Static c) \<le> 1) \<and> own_sockets A Dhcpv4 \<le> 2 \<and> dhcp_sockets A \<le> 1"

fun sockets_of :: "net_api \<Rightarrow> fw_task \<Rightarrow> nat" where
  "sockets_of A DhcpServerTask = dhcp_sockets A"
| "sockets_of A t = 1"

datatype sock_point = NoSocket | HasSocket | TaskOver

record net_sys =
  used :: "net_if \<Rightarrow> nat"
  points :: "fw_task \<Rightarrow> sock_point"

definition net_init :: "net_api \<Rightarrow> 'c started \<Rightarrow> net_sys" where
  "net_init A st = \<lparr>used = (\<lambda>i. own_sockets A (stack_config st i)), points = (\<lambda>_. NoSocket)\<rparr>"

text \<open>Creating sockets on a stack panics when it is full; a socket that is dropped frees its place.\<close>

definition socket_new :: "nat \<Rightarrow> net_if \<Rightarrow> net_sys \<Rightarrow> net_sys run" where
  "socket_new n i s = (if used s i + n \<le> stack_resources i then Some (s\<lparr>used := (used s)(i := used s i + n)\<rparr>) else None)"

definition socket_drop :: "nat \<Rightarrow> net_if \<Rightarrow> net_sys \<Rightarrow> net_sys" where
  "socket_drop n i s = s\<lparr>used := (used s)(i := used s i - n)\<rparr>"

definition set_point :: "fw_task \<Rightarrow> sock_point \<Rightarrow> net_sys \<Rightarrow> net_sys" where
  "set_point t a s = s\<lparr>points := (points s)(t := a)\<rparr>"

text \<open>
  The loops of \<^verbatim>\<open>tcp_port\<close>, \<^verbatim>\<open>http_server\<close> and \<^verbatim>\<open>autoconnect_task\<close> drop their socket at the end of an
  iteration, also of one that is left with \<^verbatim>\<open>continue\<close>, and may then create the next one.  The mDNS
  responder creates one socket, unless it cannot join its group, and returns if it cannot bind it; the
  DHCP task ends when its server gives up.
\<close>

fun looping :: "fw_task \<Rightarrow> bool" where
  "looping (TcpPortTask _) \<longleftrightarrow> True"
| "looping (HttpServerTask _) \<longleftrightarrow> True"
| "looping AutoconnectTask \<longleftrightarrow> True"
| "looping _ \<longleftrightarrow> False"

inductive net_step :: "net_api \<Rightarrow> 'c started \<Rightarrow> net_sys \<Rightarrow> net_sys \<Rightarrow> bool" for A st where
  create: "t \<in> set (st_tasks st) \<Longrightarrow> socket_stack t = Some i \<Longrightarrow> points s t = NoSocket \<Longrightarrow>
    socket_new (sockets_of A t) i s = Some s' \<Longrightarrow> net_step A st s (set_point t HasSocket s')"
| iterate: "t \<in> set (st_tasks st) \<Longrightarrow> socket_stack t = Some i \<Longrightarrow> looping t \<Longrightarrow> points s t = HasSocket \<Longrightarrow>
    net_step A st s (set_point t NoSocket (socket_drop (sockets_of A t) i s))"
| return_with: "t \<in> set (st_tasks st) \<Longrightarrow> socket_stack t = Some i \<Longrightarrow> \<not> looping t \<Longrightarrow> points s t = HasSocket \<Longrightarrow>
    net_step A st s (set_point t TaskOver (socket_drop (sockets_of A t) i s))"
| return_without: "t \<in> set (st_tasks st) \<Longrightarrow> socket_stack t = Some i \<Longrightarrow> \<not> looping t \<Longrightarrow> points s t = NoSocket \<Longrightarrow>
    net_step A st s (set_point t TaskOver s)"

inductive net_reach :: "net_api \<Rightarrow> 'c started \<Rightarrow> net_sys \<Rightarrow> bool" for A st where
  start: "net_reach A st (net_init A st)"
| step: "net_reach A st s \<Longrightarrow> net_step A st s s' \<Longrightarrow> net_reach A st s'"

section \<open>The account of the sockets\<close>

text \<open>The tasks that own sockets on a stack, and what all of them may hold at most.\<close>

definition owners :: "'c started \<Rightarrow> net_if \<Rightarrow> fw_task set" where
  "owners st i = {t \<in> set (st_tasks st). socket_stack t = Some i}"

definition held :: "net_api \<Rightarrow> 'c started \<Rightarrow> net_if \<Rightarrow> (fw_task \<Rightarrow> sock_point) \<Rightarrow> nat" where
  "held A st i pts = (\<Sum>t\<in>owners st i. if pts t = HasSocket then sockets_of A t else 0)"

definition net_inv :: "net_api \<Rightarrow> 'c started \<Rightarrow> net_sys \<Rightarrow> bool" where
  "net_inv A st s \<longleftrightarrow> (\<forall>i. used s i = own_sockets A (stack_config st i) + held A st i (points s))"

lemma finite_owners [simp]: "finite (owners st i)"
  by (simp add: owners_def)

lemma held_update:
  assumes "t \<in> owners st i"
  shows "held A st i (pts(t := a)) + (if pts t = HasSocket then sockets_of A t else 0) =
     held A st i pts + (if a = HasSocket then sockets_of A t else 0)"
  using assms by (simp add: held_def sum.remove [OF finite_owners assms] cong: sum.cong_simp)

lemma held_other: "socket_stack t = Some j \<Longrightarrow> j \<noteq> i \<Longrightarrow> held A st i (pts(t := a)) = held A st i pts"
  unfolding held_def by (rule sum.cong) (auto simp: owners_def)

lemma held_at_least: "t \<in> owners st i \<Longrightarrow> pts t = HasSocket \<Longrightarrow> sockets_of A t \<le> held A st i pts"
  by (simp add: held_def sum.remove [OF finite_owners])

lemma net_inv_point:
  assumes "net_inv A st s" "t \<in> set (st_tasks st)" "socket_stack t = Some i"
    "used s' = (used s)(i := u)" "points s' = (points s)(t := a)"
    "u + (if points s t = HasSocket then sockets_of A t else 0) = used s i + (if a = HasSocket then sockets_of A t else 0)"
  shows "net_inv A st s'"
proof -
  have t: "t \<in> owners st i" using assms(2,3) by (simp add: owners_def)
  have "used s' j = own_sockets A (stack_config st j) + held A st j (points s')" for j
  proof (cases "j = i")
    case True
    have "used s i = own_sockets A (stack_config st i) + held A st i (points s)" using assms(1) by (simp add: net_inv_def)
    with True assms(4-6) held_update [OF t, of A "points s" a] show ?thesis by simp
  next
    case False
    with assms(1,4,5) held_other [OF assms(3), of j A st "points s" a] show ?thesis by (simp add: net_inv_def)
  qed
  then show ?thesis by (simp add: net_inv_def)
qed

lemma net_step_inv:
  assumes "net_inv A st s" "net_step A st s s'"
  shows "net_inv A st s'"
proof -
  have room: "sockets_of A t \<le> used s i" if "t \<in> set (st_tasks st)" "socket_stack t = Some i" "points s t = HasSocket" for t i
    using held_at_least [of t st i "points s" A] that assms(1) by (auto simp: owners_def net_inv_def intro: le_trans)
  note simps = socket_new_def socket_drop_def set_point_def
  from assms(2) show ?thesis
  proof (cases rule: net_step.cases)
    case (create t i s1)
    then show ?thesis
      by (intro net_inv_point [OF assms(1), of t i _ "used s i + sockets_of A t" HasSocket]) (auto simp: simps split: if_splits)
  next
    case (iterate t i)
    then show ?thesis
      by (intro net_inv_point [OF assms(1), of t i _ "used s i - sockets_of A t" NoSocket]) (auto simp: simps room)
  next
    case (return_with t i)
    then show ?thesis
      by (intro net_inv_point [OF assms(1), of t i _ "used s i - sockets_of A t" TaskOver]) (auto simp: simps room)
  next
    case (return_without t i)
    then show ?thesis by (intro net_inv_point [OF assms(1), of t i _ "used s i" TaskOver]) (auto simp: simps)
  qed
qed

lemma net_reach_inv: "net_reach A st s \<Longrightarrow> net_inv A st s"
proof (induction rule: net_reach.induct)
  case start
  then show ?case by (simp add: net_inv_def net_init_def held_def)
next
  case (step s s')
  then show ?case using net_step_inv by blast
qed

section \<open>The budgets\<close>

lemma owners_started:
  assumes "main_init F hw fl = Some st"
  shows "owners st AP = {TcpPortTask AP, HttpServerTask AP, DhcpServerTask}"
    "owners st STA = {TcpPortTask STA, HttpServerTask STA, MdnsResponder, AutoconnectTask}"
    "st_ap st = ap_config" "st_sta st = sta_config"
  using assms
  by (auto simp: main_init_def owners_def spawn_all_spawns spawns_def Let_def split: Option.bind_splits if_splits)

text \<open>A task that has no socket leaves room for the sockets it is about to create.\<close>

lemma room_for_socket:
  assumes "net_ok A" "main_init F hw fl = Some st" "net_reach A st s"
  shows "used s i \<le> stack_resources i"
    "t \<in> owners st i \<Longrightarrow> points s t = NoSocket \<Longrightarrow> used s i + sockets_of A t \<le> stack_resources i"
proof -
  note own = owners_started [OF assms(2)]
  have inv: "used s i = own_sockets A (stack_config st i) + held A st i (points s)"
    using net_reach_inv [OF assms(3)] by (simp add: net_inv_def)
  have "own_sockets A ap_config \<le> 1" "own_sockets A sta_config \<le> 2" "dhcp_sockets A \<le> 1"
    using assms(1) by (simp_all add: net_ok_def ap_config_def sta_config_def)
  then have all: "own_sockets A (stack_config st i) + held A st i (\<lambda>_. HasSocket) \<le> stack_resources i"
    using own by (cases i) (simp_all add: held_def)
  have "held A st i (points s) \<le> held A st i (\<lambda>_. HasSocket)"
    unfolding held_def by (rule sum_mono) simp
  with inv all show "used s i \<le> stack_resources i" by simp
  assume t: "t \<in> owners st i" "points s t = NoSocket"
  have "held A st i (points s) + sockets_of A t = held A st i ((points s)(t := HasSocket))"
    using held_update [OF t(1), of A "points s" HasSocket] t(2) by simp
  also have "\<dots> \<le> held A st i (\<lambda>_. HasSocket)" unfolding held_def by (rule sum_mono) simp
  finally show "used s i + sockets_of A t \<le> stack_resources i" using inv all by simp
qed

lemma listen_ports_distinct:
  assumes "socket_stack t = Some i" "socket_stack u = Some i" "listen_port t = Some n" "listen_port u = Some n"
  shows "t = u"
  using assms by (cases t; cases u) (auto simp: SLCAN_TCP_PORT_def HTTP_PORT_def MDNS_PORT_def)

text \<open>
  C27.  The network stacks never run out of sockets.  After a start, and in every interleaving of the
  port, web, mDNS, auto-connect and DHCP tasks with all their reconnections, provided a stack takes at
  most one socket for name resolution and one more for its DHCP client and the DHCP server at most one:
  no stack holds more sockets than \<^verbatim>\<open>main\<close> gave it room for, and a task that is about to create its socket
  can do so and does not panic.  Of the tasks that hold a socket with a fixed port on the same stack, no
  two use the same port, so each listener gets the connections meant for it.
\<close>

theorem sockets_never_exhausted:
  assumes "net_ok A" "main_init F hw fl = Some st" "net_reach A st s"
  shows "used s i \<le> stack_resources i \<and>
     (\<forall>t. t \<in> set (st_tasks st) \<and> socket_stack t = Some i \<and> points s t = NoSocket \<longrightarrow>
        (\<exists>s'. socket_new (sockets_of A t) i s = Some s')) \<and>
     inj_on listen_port {t. socket_stack t = Some i \<and> points s t = HasSocket \<and> listen_port t \<noteq> None}"
proof (intro conjI allI impI)
  show "used s i \<le> stack_resources i" by (rule room_for_socket(1) [OF assms])
  show "\<exists>s'. socket_new (sockets_of A t) i s = Some s'"
    if "t \<in> set (st_tasks st) \<and> socket_stack t = Some i \<and> points s t = NoSocket" for t
    using room_for_socket(2) [OF assms, of t i] that by (simp add: socket_new_def owners_def)
  show "inj_on listen_port {t. socket_stack t = Some i \<and> points s t = HasSocket \<and> listen_port t \<noteq> None}"
    by (auto intro!: inj_onI dest: listen_ports_distinct)
qed

text \<open>
  The witness: with every library socket the hypotheses allow, and both stacks filled to the last
  place but one, the auto-connect task still finds its place on the station's stack.
\<close>

definition demo_net :: net_api where
  "demo_net = \<lparr>own_sockets = (\<lambda>c. case c of Ipv4Static _ \<Rightarrow> 1 | Dhcpv4 \<Rightarrow> 2), dhcp_sockets = 1\<rparr>"

lemma demo_net_ok: "net_ok demo_net"
  by (simp add: net_ok_def demo_net_def)

lemma create_reach:
  assumes "net_reach A st s" "t \<in> set (st_tasks st)" "socket_stack t = Some i" "points s t = NoSocket"
    "used s i + sockets_of A t \<le> stack_resources i"
  shows "\<exists>s'. net_reach A st s' \<and> used s' i = used s i + sockets_of A t \<and> points s' = (points s)(t := HasSocket)"
proof -
  have "socket_new (sockets_of A t) i s = Some (s\<lparr>used := (used s)(i := used s i + sockets_of A t)\<rparr>)"
    using assms(5) by (simp add: socket_new_def)
  from net_reach.step [OF assms(1) net_step.create [OF assms(2-4) this]] show ?thesis
    by (intro exI conjI) (assumption | simp add: set_point_def)+
qed

lemma demo_started: "\<exists>st. main_init demo_flash demo_hw (replicate 1024 0) = Some st"
proof -
  have fit: "settings_fit demo_flash (replicate 1024 0)" using demo_blank by (simp add: settings_def settings_fit_def)
  obtain s where "boot demo_flash (replicate 1024 0) = Some s" using boot_total [of demo_flash] by blast
  from main_comes_up_core [OF fit this demo_hw_ok] show ?thesis by (elim exE conjE) (rule exI)
qed

lemma demo_almost_full:
  assumes "main_init demo_flash demo_hw (replicate 1024 0) = Some st"
  shows "\<exists>s. net_reach demo_net st s \<and> used s STA = 5 \<and> points s AutoconnectTask = NoSocket"
proof -
  have own: "t \<in> set (st_tasks st)" if "t \<in> {TcpPortTask STA, HttpServerTask STA, MdnsResponder}" for t
    using that owners_started(2) [OF assms] unfolding owners_def by blast
  let ?s0 = "net_init demo_net st"
  have s0: "used ?s0 STA = 2" "points ?s0 = (\<lambda>_. NoSocket)"
    using owners_started(4) [OF assms] by (simp_all add: net_init_def sta_config_def demo_net_def)
  obtain s1 where s1: "net_reach demo_net st s1" "used s1 STA = 3" "points s1 = (points ?s0)(TcpPortTask STA := HasSocket)"
    using create_reach [OF net_reach.start, of "TcpPortTask STA" st STA demo_net] own s0 by auto
  obtain s2 where s2: "net_reach demo_net st s2" "used s2 STA = 4" "points s2 = (points s1)(HttpServerTask STA := HasSocket)"
    using create_reach [OF s1(1), of "HttpServerTask STA" STA] own s0(2) s1(2,3) by auto
  obtain s3 where "net_reach demo_net st s3" "used s3 STA = 5" "points s3 = (points s2)(MdnsResponder := HasSocket)"
    using create_reach [OF s2(1), of MdnsResponder STA] own s0(2) s1(3) s2(2,3) by auto
  with s0(2) s1(3) s2(3) show ?thesis by auto
qed

theorem sockets_never_exhausted_witness:
  "\<exists>st s s'. main_init demo_flash demo_hw (replicate 1024 0) = Some st \<and> net_reach demo_net st s \<and> used s STA = 5 \<and>
     socket_new (sockets_of demo_net AutoconnectTask) STA s = Some s' \<and> used s' STA = stack_resources STA"
proof -
  obtain st where st: "main_init demo_flash demo_hw (replicate 1024 0) = Some st" using demo_started by blast
  obtain s where s: "net_reach demo_net st s" "used s STA = 5" "points s AutoconnectTask = NoSocket"
    using demo_almost_full [OF st] by blast
  have "AutoconnectTask \<in> set (st_tasks st)" "socket_stack AutoconnectTask = Some STA"
    using owners_started(2) [OF st] unfolding owners_def by blast+
  with sockets_never_exhausted [OF demo_net_ok st s(1), of STA] s(3)
  have "\<exists>s'. socket_new (sockets_of demo_net AutoconnectTask) STA s = Some s'" by blast
  with st s show ?thesis
    by (auto simp: socket_new_def split: if_splits intro!: exI)
qed

end
