(* ===== verification/Spec2Isabelle.thy ===== *)
theory Spec2Isabelle
  imports Slcan Can Transport Ports Rx_Bus Channel_Spec Uart_Poll Led Config Boot Mdns Autoconnect Http_Page Http_Status Http Http_Server
    Startup Net_Stacks
begin

text \<open>
  Verification library of the espcan_br firmware, a bridge between a CAN bus and hosts that speak
  SLCAN (the Lawicel line protocol) over a serial line, over TCP servers on WiFi and over an outbound
  TCP or TLS connection.  Paths below are relative to the repository.

  \<^bold>\<open>The program.\<close>  \<^verbatim>\<open>src/main.rs\<close> loads four settings structs from flash, decides between configuration
  mode (access point) and station mode, and spawns the tasks.  \<^verbatim>\<open>src/can.rs\<close> owns the one CAN controller
  behind a lock: ports open and close it with a use count, transmit through it, and a receive task
  publishes what it delivers to all ports.  \<^verbatim>\<open>src/transport.rs\<close> is the port runner, one instance per
  link: it assembles lines, dispatches commands and forwards bus frames; \<^verbatim>\<open>src/slcan.rs\<close> is its codec.
  Its links are the polled UART (\<^verbatim>\<open>src/uart_poll.rs\<close>), two TCP listeners (\<^verbatim>\<open>tcp_port\<close>) and the outbound
  connection of \<^verbatim>\<open>src/autoconnect.rs\<close>, which may pin the public key of its TLS server.
  \<^verbatim>\<open>src/http.rs\<close> serves the status and settings pages behind an optional login, \<^verbatim>\<open>src/config.rs\<close> stores
  the settings, \<^verbatim>\<open>src/mdns.rs\<close> answers name queries and \<^verbatim>\<open>src/led.rs\<close> drives the activity LED.

  \<^bold>\<open>Conventions.\<close>  A value of type \<open>'a run\<close> is \<open>None\<close> when the Rust code would panic (an index or slice
  out of range, a \<^verbatim>\<open>copy_from_slice\<close> of unequal lengths, a failed \<^verbatim>\<open>unwrap\<close>, checked arithmetic), and when a
  request that is not UTF-8 is taken for a \<^verbatim>\<open>str\<close> unchecked, which is undefined behaviour; a Rust
  \<^verbatim>\<open>Option\<close> inside it is a second option.  Machine integers keep their width as words, so atomic counters
  wrap as the hardware does; \<^verbatim>\<open>usize\<close> indices are \<open>nat\<close>.  Text and buffers are lists of bytes; the
  handlers and readers that take form fields and stored texts for \<^verbatim>\<open>str\<close>s unchecked pass these bytes on, and
  \<open>form_valid\<close> and \<open>texts_valid\<close> of \<open>Http_Server\<close> say when they really are text.  State is
  passed explicitly; what a definition sends is a list of write and flush operations in order.

  \<^bold>\<open>Theories and the code they model.\<close>
  \<^item> \<open>Bridge_Prelude\<close>: panics, checked slices and updates, bytes of literals, the locale \<open>hex_codec\<close> of a
    digit writer and a digit reader that undo each other, with its reference encoders; it is interpreted
    for the four digit functions the sources have (\<open>slcan_hex\<close>, \<open>transport_hex\<close>, \<open>autoconnect_hex\<close>,
    \<open>http_hex\<close>).
  \<^item> \<open>Rust_Str\<close>: what the sources use of the standard library's strings: UTF-8 validity, \<^verbatim>\<open>split\<close>,
    \<^verbatim>\<open>split_once\<close>, \<^verbatim>\<open>lines\<close>, \<^verbatim>\<open>trim\<close>, \<^verbatim>\<open>split_whitespace\<close>, number parsing and printing, little-endian bytes.
  \<^item> \<open>Slcan\<close>, all of \<^verbatim>\<open>slcan.rs\<close>: \<open>parse_tx\<close> and \<open>format_frame\<close> write and read buffers with the bounds
    checks of the code.  Reference definitions \<open>parse_tx_ref\<close> and \<open>frame_ascii\<close> say what they compute;
    lemmas show equality, the round trip, and that the 32-byte buffer of the callers suffices.
  \<^item> \<open>Can\<close>, \<^verbatim>\<open>can.rs\<close>: the manager (\<open>can_open\<close>, \<open>can_close\<close>, \<open>set_bitrate\<close>, \<open>transmit\<close>, \<open>status_flags\<close>,
    \<open>poll_rx\<close>), frame conversion and one round of the receive task.  The locale \<open>shared_channel\<close> is the
    contract of a use-counted resource; its interpretation \<open>can_chan\<close> discharges it for the manager.
  \<^item> \<open>Transport\<close>, \<^verbatim>\<open>transport.rs\<close>: \<open>dispatch\<close> (all commands), the byte loop \<open>feed\<close> and \<open>feed_all\<close>, a
    select round \<open>port_round\<close>, the loop and the end of \<open>run_port\<close>.  Lemmas show one reply per line,
    line assembly, independence of segmentation, forwarding, transmission and release of the channel.
  \<^item> \<open>Ports\<close>: the port tasks of \<^verbatim>\<open>main.rs\<close> and \<^verbatim>\<open>autoconnect.rs\<close> and the receive task interleaved, as a step
    relation \<open>sys_step\<close> with one step per lock-protected action, reachable states, and the invariant
    that ties use count, client count and subscriber count to the sessions.
  \<^item> \<open>Rx_Bus\<close>: the same tasks with the receive bus between them, refined to \<open>Ports\<close>, with a history per
    session: no frame is lost, repeated or reordered unless the bus overruns, and when that can happen;
    the six traffic counters are exactly what happened.
  \<^item> \<open>Channel_Spec\<close>: an abstract shared channel that knows only its members and its bit rate, and the
    simulation proof that every step of \<open>Ports\<close> is a step of it.
  \<^item> \<open>Uart_Poll\<close>, \<^verbatim>\<open>uart_poll.rs\<close>: the polling read as a partial function, write and flush; the \<^verbatim>\<open>select\<close> of the
    port runner over this link, in which a frame cancels a waiting read; the task \<^verbatim>\<open>uart_port\<close>.
  \<^item> \<open>Led\<close>: \<^verbatim>\<open>led.rs\<close> (brightness, pulse train) and the tick loop of \<^verbatim>\<open>main.rs\<close> with its window of ten buckets.
  \<^item> \<open>Config\<close>, \<^verbatim>\<open>config.rs\<close>: the four structs, their memory images, setters and readers, load and save, the
    salted login.  The locale \<open>flash_slot\<close> is the contract of one stored struct and is interpreted for
    all four.
  \<^item> \<open>Boot\<close>: the settings and mode decision at the start of \<^verbatim>\<open>main\<close>.
  \<^item> \<open>Mdns\<close>, \<^verbatim>\<open>mdns.rs\<close>: question parser, answer, announcement, and the responder task from waiting for an
    address to its receive loop.
  \<^item> \<open>Autoconnect\<close>, \<^verbatim>\<open>autoconnect.rs\<close>: URL and key parsing, key extraction, the pinning verifier, one
    iteration of the task with every exit, and the task as a loop of iterations.
  \<^item> \<open>Http_Page\<close> and \<open>Http\<close>, \<^verbatim>\<open>http.rs\<close>: escaping and pages; reading a request, authentication, forms,
    the four save handlers, routing.  \<open>whole_request\<close> says what a complete request is, by its header lines and
    without the code's \<open>content_length\<close>.
  \<^item> \<open>Http_Status\<close>: a reader of flat JSON objects; \<^verbatim>\<open>/api/status\<close> reads back as exactly its twelve fields.
  \<^item> \<open>Http_Server\<close>: the accept loop; totality of every parser on any bytes; the effect of a request on memory
    and flash (\<open>stores\<close>), which keeps all lengths within their arrays (\<open>web_fits\<close>) and, for forms of UTF-8
    fields, all stored texts valid (\<open>texts_valid\<close>).
  \<^item> \<open>Startup\<close>, the rest of \<^verbatim>\<open>main.rs\<close>: \<^verbatim>\<open>gpio0_monitor\<close>, \<^verbatim>\<open>sta_ip_monitor\<close> and \<^verbatim>\<open>connection_task\<close> interleaved,
    the addresses of access point and DHCP pool, the DHCP task, the spawned tasks and their pools, and
    \<^verbatim>\<open>main\<close> up to its final loop with every \<^verbatim>\<open>unwrap\<close>.  It comes up exactly if the drivers accept what they
    are given (\<open>hw_ok\<close>, for the stored baud rate and the radio configuration of this start); two ways to
    make it panic at every start are shown: a saved rate that is refused, and a save that power cuts off.
  \<^item> \<open>Net_Stacks\<close>: the tasks that own a socket, from \<^verbatim>\<open>main.rs\<close>, \<^verbatim>\<open>http.rs\<close>, \<^verbatim>\<open>mdns.rs\<close> and \<^verbatim>\<open>autoconnect.rs\<close>,
    against the socket budgets of the two network stacks: no task finds its stack full, and the fixed
    ports of the listeners of a stack differ.
  \<^item> This theory: properties across components: from the bus of one bridge to the bus of another, from the
    bus to the LED (the locale \<open>bus_total\<close> of a growing total and its wrapping counter is interpreted for
    received and for confirmed frames), from the bus to the status page, from the settings page to the radio, and the life of a device through requests, resets and power failures
    (\<open>fw_reach\<close>), in which memory and flash always agree at the end of a request.

  \<^bold>\<open>Code outside the repository\<close> is an argument of the definitions that call it.  What is relied on is
  named: \<open>hal_ok\<close> (TWAI driver and embedded-can: id widths, frames read back as built, at most 8 bytes;
  frames handed out obey the same bounds), \<open>flash_ok\<close> (a successful write is what a later read returns,
  other bytes stay), \<open>pubsub_ok\<close> (the publish/subscribe channel of embassy-sync), \<open>uart_ok\<close> and
  \<open>write_all_ok\<close> (the UART driver hands out and takes bytes in order; \<^verbatim>\<open>write_all\<close> writes until all is written), \<open>hvec_ok\<close> (the bounded vector of heapless), \<open>tls_ok\<close> (a TLS client that reports
  success has called the verifier's two checks on the messages and the transcript of this handshake, and
  both accepted), \<open>net_ok\<close> (a network stack takes one
  socket for name resolution and one more for its DHCP client, a DHCP server one), a hash of 32 bytes.  Each has a
  concrete instance (\<open>loopback_hal\<close>, \<open>demo_flash\<close> and so on) on which the properties are exercised.

  \<^bold>\<open>Termination and bounds.\<close>  The transmit retry loop ends by its own counter after at most 51 attempts
  and is a total function; the loops of the URL decoder, the mDNS label walk and the parsers are total
  functions with a measure or structural recursion, so no fuel appears.  A receive round takes the literal 16 of the
  code.  Loops driven by a peer (\<open>port_loop\<close>, \<open>read_loop\<close>, \<open>led_ticks\<close>) recurse over the list of events the
  peer delivers, for every such list.  The polling loop of the UART may wait forever: it is a partial
  function that is \<open>None\<close> exactly then, and it is proved when it returns.

  \<^bold>\<open>Not modelled.\<close>  The network stacks, which \<^verbatim>\<open>net_task\<close> only runs, the DHCP protocol, radio and peripheral
  drivers are other crates; their constructors are parameters of \<open>main_init\<close> that succeed or not.  The queues of the
  publish/subscribe channel belong to embassy-sync: in \<open>Ports\<close> a port may be handed any published frame, in
  any order and also repeatedly, so that safety holds for whatever the queues do; \<open>Rx_Bus\<close> adds their
  documented behaviour.  The code ignores the result of every write to a link, so the model lists what is
  given to the link and not what arrives.  The two web server tasks are not interleaved within a handler,
  which runs in one piece from its authentication to its reply or its wait for the reset.  Nothing is assumed of the flash after a
  write that the driver reports as failed or that a power failure cuts off, so \<open>fw_reach\<close> leaves both out
  (\<open>torn_wifi_slot_stops_start\<close> shows what the latter can do).  Time is an input where the
  code reads the clock.  Log output, the accessors of the TLS provider and constants such as
  time-outs and poll intervals carry no state.  The Python tools under \<^verbatim>\<open>tools\<close> run on the host.
\<close>

section \<open>From bus to bus\<close>

text \<open>The transmissions of a list of driver frames one after the other.\<close>

fun send_all :: "('t, 'f) twai_hal \<Rightarrow> 't \<Rightarrow> 'f list \<Rightarrow> 't" where
  "send_all H tw [] = tw"
| "send_all H tw (fr # frs) = send_all H (snd (try_transmit H tw fr)) frs"

lemma relay_out:
  assumes "list_all canonical_frame fs" "p_open p" "\<not> p_timestamp p" "map snd evs = map Frame fs"
  shows "\<exists>b' ops. port_loop H iface evs p b = Some (p, b', ops, False) \<and>
     written ops = concat (map (\<lambda>f. frame_ascii f None) fs) \<and> CAN b' = CAN b"
  using assms(1,4)
proof (induction fs arbitrary: evs b)
  case (Cons f fs)
  obtain ms evs' where evs: "evs = (ms, Frame f) # evs'" "map snd evs' = map Frame fs"
    using Cons.prems(2) by (cases evs) auto
  have "canonical_frame f" and rest: "list_all canonical_frame fs" using Cons.prems(1) by simp_all
  then have wf: "wf_frame f" by (simp add: canonical_frame_def)
  obtain b' ops where "port_loop H iface evs' p (b\<lparr>cnt := count_out iface (cnt b)\<rparr>) = Some (p, b', ops, False)"
    "written ops = concat (map (\<lambda>f. frame_ascii f None) fs)" "CAN b' = CAN b"
    using Cons.IH [OF rest evs(2), of "b\<lparr>cnt := count_out iface (cnt b)\<rparr>"] by auto
  then show ?case using assms(2,3) by (simp add: evs(1) port_round_frame [OF wf])
qed simp

lemma relay_in:
  assumes "hal_ok H" "list_all (\<lambda>f. canonical_frame f \<and> id_in_range f) fs"
    "port_wf rp" "p_len rp = 0" "p_open rp" "twai (CAN b) = Some tw"
  shows "\<exists>frs rp' b' ops w. map (from_esp H) frs = map Some fs \<and>
     feed_all H iface (concat (map (\<lambda>f. frame_ascii f None) fs)) rp b = Some (rp', b', ops, w) \<and>
     p_open rp' \<and> twai (CAN b') = Some (send_all H tw frs)"
  using assms(2-)
proof (induction fs arbitrary: rp b tw)
  case Nil
  then show ?case by auto
next
  case (Cons f fs)
  then have f: "canonical_frame f" "id_in_range f" by simp_all
  obtain fr rp1 where fr: "from_esp H fr = Some f" "p_open rp1" "p_len rp1 = 0"
    and feed: "feed_all H iface (frame_ascii f None) rp b =
       (let (ok, tw') = try_transmit H tw fr; c = count_in iface (cnt b) in
        Some (rp1, \<lparr>CAN = (CAN b)\<lparr>twai := Some tw'\<rparr>,
                   cnt = (if ok then c\<lparr>TX_COUNT := TX_COUNT c + 1\<rparr> else c)\<rparr>,
          [WriteAll (if ok then [if f_ext f then asc CHR ''Z'' else asc CHR ''z'', CR] else [BELL])], True))"
    using feed_frame_line [OF assms(1) f Cons.prems(2-5)] by blast
  obtain ok tw1 where tx: "try_transmit H tw fr = (ok, tw1)" by fastforce
  then obtain b1 ops1 where one: "feed_all H iface (frame_ascii f None) rp b = Some (rp1, b1, ops1, True)"
    "twai (CAN b1) = Some tw1"
    using feed by (simp add: Let_def)
  have "port_wf rp1" using feed_all_result [OF Cons.prems(2), of H iface "frame_ascii f None" b] one(1) by auto
  from Cons.IH [OF _ this fr(3,2) one(2)] Cons.prems(1) obtain frs rp2 b2 ops2 w where
    "map (from_esp H) frs = map Some fs"
    "feed_all H iface (concat (map (\<lambda>f. frame_ascii f None) fs)) rp1 b1 = Some (rp2, b2, ops2, w)"
    "p_open rp2" "twai (CAN b2) = Some (send_all H tw1 frs)" by auto
  with fr(1) one(1) tx show ?case
    by (intro exI [of _ "fr # frs"]) (auto simp: feed_all_append)
qed

text \<open>
  C2.  Two bridges joined by a byte link form a relay.  Whatever frames a running controller hands out
  in one receive round, with ids as the CAN id types allow them: they are published in order; an open
  port without timestamps that forwards them, at whatever times, writes a byte stream; and an open
  port of the second bridge that reads this stream hands its own controller, one transmit each and in
  the same order, driver frames that stand for exactly the same CAN frames.
\<close>

theorem two_bridges_relay:
  assumes "hal_ok H" "hal_ok H'" "twai m = Some tw"
    "list_all (\<lambda>fr. can_id_ok (frame_id H fr)) (fst (deliveries 16 H tw))"
    "p_open p" "\<not> p_timestamp p"
    "port_wf rp" "p_len rp = 0" "p_open rp" "twai (CAN b2) = Some tw2"
  shows "\<exists>fs m' c'. can_rx_round H m c = Some (fs, m', c') \<and>
     map (from_esp H) (fst (deliveries 16 H tw)) = map Some fs \<and>
     (\<forall>evs. map snd evs = map Frame fs \<longrightarrow>
       (\<exists>b1' ops frs rp' b2' ops' w. port_loop H iface evs p b1 = Some (p, b1', ops, False) \<and>
          feed_all H' iface' (written ops) rp b2 = Some (rp', b2', ops', w) \<and>
          map (from_esp H') frs = map Some fs \<and> twai (CAN b2') = Some (send_all H' tw2 frs)))"
proof -
  have H: "hal_bounds_ok H" using assms(1) by (simp add: hal_ok_def)
  obtain fs where fs: "map (from_esp H) (fst (deliveries 16 H tw)) = map Some fs"
    "\<exists>m' c'. can_rx_round H m c = Some (fs, m', c')"
    using rx_burst_deliveries [OF H assms(3), of 16 "fst (deliveries 16 H tw)" "snd (deliveries 16 H tw)" c]
    by (auto simp: can_rx_round_def)
  have "canonical_frame f \<and> id_in_range f" if "f \<in> set fs" for f
  proof -
    have "Some f \<in> set (map (from_esp H) (fst (deliveries 16 H tw)))" using that fs(1) by simp
    then obtain fr where "fr \<in> set (fst (deliveries 16 H tw))" "from_esp H fr = Some f" by auto
    with from_esp_canonical [OF H] assms(4) show ?thesis by (auto simp: list_all_iff)
  qed
  then have good: "list_all (\<lambda>f. canonical_frame f \<and> id_in_range f) fs" "list_all canonical_frame fs"
    by (simp_all add: list_all_iff)
  have "\<exists>b1' ops frs rp' b2' ops' w. port_loop H iface evs p b1 = Some (p, b1', ops, False) \<and>
          feed_all H' iface' (written ops) rp b2 = Some (rp', b2', ops', w) \<and>
          map (from_esp H') frs = map Some fs \<and> twai (CAN b2') = Some (send_all H' tw2 frs)"
    if "map snd evs = map Frame fs" for evs
    using relay_out [OF good(2) assms(5,6) that, of H iface b1]
      relay_in [OF assms(2) good(1) assms(7-10), of iface'] by fastforce
  with fs show ?thesis by blast
qed

theorem two_bridges_relay_witness:
  "\<exists>f m' c' b1' ops frs rp' b2' ops' w.
     can_rx_round loopback_hal \<lparr>twai = Some [(Standard 0x123, False, 1, [7])], baud = B500K, open_count = 1\<rparr>
       counters_init = Some ([f], m', c') \<and>
     port_loop loopback_hal Tcp [(42, Frame f)] (port_init\<lparr>p_open := True\<rparr>)
       \<lparr>CAN = CanManager_new, cnt = counters_init\<rparr> = Some (port_init\<lparr>p_open := True\<rparr>, b1', ops, False) \<and>
     feed_all loopback_hal Serial (written ops) (port_init\<lparr>p_open := True\<rparr>)
       \<lparr>CAN = can_open loopback_hal False CanManager_new, cnt = counters_init\<rparr> = Some (rp', b2', ops', w) \<and>
     map (from_esp loopback_hal) frs = [Some f] \<and> twai (CAN b2') = Some (send_all loopback_hal [] frs)"
proof -
  let ?fr = "(Standard 0x123, False, 1, [7]) :: demo_frame"
  let ?m = "\<lparr>twai = Some [?fr], baud = B500K, open_count = 1\<rparr>"
  let ?b = "\<lparr>CAN = can_open loopback_hal False CanManager_new, cnt = counters_init\<rparr>"
  have d: "fst (deliveries 16 loopback_hal [?fr]) = [?fr]" by (simp add: loopback_hal_def numeral_eq_Suc)
  have ids: "list_all (\<lambda>fr. can_id_ok (frame_id loopback_hal fr)) (fst (deliveries 16 loopback_hal [?fr]))"
    unfolding d by (simp add: loopback_hal_def can_id_ok_def)
  have p: "p_open (port_init\<lparr>p_open := True\<rparr>)" "\<not> p_timestamp (port_init\<lparr>p_open := True\<rparr>)"
    "port_wf (port_init\<lparr>p_open := True\<rparr>)" "p_len (port_init\<lparr>p_open := True\<rparr>) = 0"
    by (simp_all add: port_init_def port_wf_def)
  have m: "twai ?m = Some [?fr]" "twai (CAN ?b) = Some []" by (simp_all add: twai_open_loopback)
  from two_bridges_relay [OF loopback_hal_ok loopback_hal_ok m(1) ids p(1-4) p(1) m(2),
      of counters_init Tcp "\<lparr>CAN = CanManager_new, cnt = counters_init\<rparr>" Serial]
  obtain fs m' c' where r: "can_rx_round loopback_hal ?m counters_init = Some (fs, m', c')"
    "map (from_esp loopback_hal) [?fr] = map Some fs"
    and step: "\<And>evs. map snd evs = map Frame fs \<Longrightarrow>
       \<exists>b1' ops frs rp' b2' ops' w. port_loop loopback_hal Tcp evs (port_init\<lparr>p_open := True\<rparr>)
            \<lparr>CAN = CanManager_new, cnt = counters_init\<rparr> = Some (port_init\<lparr>p_open := True\<rparr>, b1', ops, False) \<and>
          feed_all loopback_hal Serial (written ops) (port_init\<lparr>p_open := True\<rparr>) ?b = Some (rp', b2', ops', w) \<and>
          map (from_esp loopback_hal) frs = map Some fs \<and> twai (CAN b2') = Some (send_all loopback_hal [] frs)"
    unfolding d by blast
  from r(2) obtain f where fs: "fs = [f]" by (cases fs) auto
  from step [of "[(42, Frame f)]"] r(1) show ?thesis unfolding fs by fastforce
qed

section \<open>From the bus to the LED\<close>

text \<open>What the tick loop of \<^verbatim>\<open>main\<close> reads, with the mode and WiFi flags of the moment.\<close>

definition led_reading :: "bool \<times> bool \<times> ('t, 'q) rx_sys \<Rightarrow> led_input" where
  "led_reading = (\<lambda>(config_mode, wifi, x).
     \<lparr>in_rx = RX_COUNT (cnt (shared (core x))), in_tx = TX_COUNT (cnt (shared (core x))), in_clients = TCP_CLIENTS (core x),
      in_config_mode = config_mode, in_wifi_connected = wifi\<rparr>)"

text \<open>
  The totals the two colours stand for: the frames the controller delivered, and the transmissions that
  were confirmed to a host.  \<open>total_by\<close> is a total at tick \<open>n\<close>, counted from one, and zero before the first.
\<close>

definition received :: "('t, 'q) rx_sys \<Rightarrow> nat" where
  "received x = length (published (core x))"

definition confirmed :: "('t, 'q) rx_sys \<Rightarrow> nat" where
  "confirmed x = n_ack x UartPort + over_tcp (n_ack x)"

definition total_by :: "(('t, 'q) rx_sys \<Rightarrow> nat) \<Rightarrow> (bool \<times> bool \<times> ('t, 'q) rx_sys) list \<Rightarrow> nat \<Rightarrow> nat" where
  "total_by tot ticks n = (if n = 0 then 0 else tot (snd (snd (ticks ! (n - 1)))))"

definition in_last_second :: "(('t, 'q) rx_sys \<Rightarrow> nat) \<Rightarrow> (bool \<times> bool \<times> ('t, 'q) rx_sys) list \<Rightarrow> nat \<Rightarrow> nat" where
  "in_last_second tot ticks n = total_by tot ticks (n + 1) - total_by tot ticks (n - 9)"

definition shown_level :: "nat \<Rightarrow> nat" where
  "shown_level k = (if k = 0 then 0 else min (4 + k * 60 div 50) 64)"

text \<open>The ticks read one run of the system: each reading is taken some steps after the one before.\<close>

definition ticks_of_run :: "('t, 'f) twai_hal \<Rightarrow> 'q pubsub \<Rightarrow> (bool \<times> bool \<times> ('t, 'q) rx_sys) list \<Rightarrow> bool" where
  "ticks_of_run H B ticks \<longleftrightarrow>
     (\<forall>i < length ticks. rtranclp (bus_step H B) (if i = 0 then rx_init B else snd (snd (ticks ! (i - 1)))) (snd (snd (ticks ! i))))"

lemma bus_run_reach: "rtranclp (bus_step H B) x y \<Longrightarrow> bus_reach H B x \<Longrightarrow> bus_reach H B y"
  by (induction rule: rtranclp_induct) (auto intro: bus_reach.step)

lemma tick_reach:
  assumes "ticks_of_run H B ticks" "i < length ticks"
  shows "bus_reach H B (snd (snd (ticks ! i)))"
  using assms(2)
proof (induction i)
  case 0
  then show ?case using assms(1) bus_run_reach [OF _ bus_reach.start] by (fastforce simp: ticks_of_run_def)
next
  case (Suc i)
  then have "rtranclp (bus_step H B) (snd (snd (ticks ! i))) (snd (snd (ticks ! Suc i)))"
    using assms(1) unfolding ticks_of_run_def by fastforce
  then show ?case using Suc bus_run_reach by fastforce
qed

text \<open>
  A total that only grows and a counter that holds it modulo its width.  Whatever the total, the level
  computed from ten readings of the counter is that of the growth of the total.
\<close>

locale bus_total =
  fixes H :: "('t, 'f) twai_hal" and B :: "'q pubsub"
    and tot :: "('t, 'q) rx_sys \<Rightarrow> nat" and counter :: "('t, 'q) rx_sys \<Rightarrow> u32"
  assumes tot_step: "bus_step H B x y \<Longrightarrow> tot x \<le> tot y"
    and tot_counted: "hal_ok H \<Longrightarrow> pubsub_ok B \<Longrightarrow> bus_reach H B x \<Longrightarrow> counter x = of_nat (tot x)"
begin

lemma tot_run: "rtranclp (bus_step H B) x y \<Longrightarrow> tot x \<le> tot y"
  by (induction rule: rtranclp_induct) (auto dest: tot_step)

lemma total_by_mono:
  assumes "ticks_of_run H B ticks" "m \<le> n" "n \<le> length ticks"
  shows "total_by tot ticks m \<le> total_by tot ticks n"
  using assms(2,3)
proof (induction n rule: dec_induct)
  case (step n)
  have "rtranclp (bus_step H B) (if n = 0 then rx_init B else snd (snd (ticks ! (n - 1)))) (snd (snd (ticks ! n)))"
    using assms(1) step.prems by (simp add: ticks_of_run_def)
  from tot_run [OF this] step show ?case by (auto simp: total_by_def split: if_splits)
qed simp

lemma sample_total:
  assumes "hal_ok H" "pubsub_ok B" "ticks_of_run H B ticks" "m \<le> length ticks"
  shows "sample (map (\<lambda>i. counter (snd (snd i))) ticks) m = of_nat (total_by tot ticks m)"
  using assms(4) tot_counted [OF assms(1,2) tick_reach [OF assms(3), of "m - 1"]]
  by (cases m) (simp_all add: sample_def total_by_def)

lemma level_shown:
  assumes "hal_ok H" "pubsub_ok B" "ticks_of_run H B ticks" "n < length ticks" "in_last_second tot ticks n < 2 ^ 32"
  defines "smp \<equiv> sample (map (\<lambda>i. counter (snd (snd i))) ticks)"
  shows "unat (level_from_count (smp (n + 1) - smp (n - 9))) = shown_level (in_last_second tot ticks n)"
proof -
  let ?k = "in_last_second tot ticks n"
  have "total_by tot ticks (n - 9) \<le> total_by tot ticks (n + 1)"
    using assms(4) by (intro total_by_mono [OF assms(3)]) simp_all
  then have "smp (n + 1) - smp (n - 9) = of_nat ?k"
    using assms(4) sample_total [OF assms(1-3)] by (simp add: smp_def in_last_second_def of_nat_diff)
  moreover have "unat (of_nat ?k :: u32) = ?k" using assms(5) by (simp add: unat_of_nat)
  ultimately show ?thesis
    using unat_level_from_count [of "of_nat ?k"] by (metis unat_eq_zero shown_level_def)
qed

end

lemma started_n_ack: "n_ack (join_bus B t s x) = n_ack x"
  by (simp add: join_bus_def)

lemma tally_le: "n t \<le> tally e u n t"
  by (simp add: tally_def)

lemma received_step: "bus_step H B x y \<Longrightarrow> received x \<le> received y"
  by (induction rule: bus_step.induct) (auto simp: received_def join_bus_def tcp_end_def dest: started_fields)

lemma confirmed_step: "bus_step H B x y \<Longrightarrow> confirmed x \<le> confirmed y"
  by (induction rule: bus_step.induct) (auto simp: confirmed_def started_n_ack intro!: add_mono tally_le)

interpretation rx_total: bus_total H B received "\<lambda>x. RX_COUNT (cnt (shared (core x)))" for H B
proof
  show "received x \<le> received y" if "bus_step H B x y" for x y using that by (rule received_step)
  show "RX_COUNT (cnt (shared (core x))) = of_nat (received x)" if "hal_ok H" "pubsub_ok B" "bus_reach H B x" for x
    using bus_reach_counts [OF that] by (simp add: counts_ok_def received_def)
qed

interpretation tx_total: bus_total H B confirmed "\<lambda>x. TX_COUNT (cnt (shared (core x)))" for H B
proof
  show "confirmed x \<le> confirmed y" if "bus_step H B x y" for x y using that by (rule confirmed_step)
  show "TX_COUNT (cnt (shared (core x))) = of_nat (confirmed x)" if "hal_ok H" "pubsub_ok B" "bus_reach H B x" for x
    using bus_reach_counts [OF that] by (simp add: counts_ok_def confirmed_def)
qed

lemma led_reading_counts:
  "map in_rx (map led_reading ticks) = map (\<lambda>i. RX_COUNT (cnt (shared (core (snd (snd i)))))) ticks"
  "map in_tx (map led_reading ticks) = map (\<lambda>i. TX_COUNT (cnt (shared (core (snd (snd i)))))) ticks"
  by (simp_all add: led_reading_def split_beta)

text \<open>
  C36.  The LED shows the traffic of the bridge and its clients.  At every tick of any run of the ports
  and the bus, green stands for the frames the controller delivered since the reading ten ticks earlier
  (since the start during the first second) and red for the transmissions confirmed to the hosts in
  that time: each is dark exactly if there was none, and otherwise its level is 4 plus 60 for every 50
  frames, at most 64.  Blue shows the state of the network: while a TCP session is in progress it is on
  except in the first of every ten ticks, otherwise it is on only in that tick if WiFi is ready (access
  point or connected), and off if it is not.  The window may hold up to 2^32 - 1 frames, and the counters may wrap.
\<close>

theorem led_shows_bus_traffic:
  assumes "hal_ok H" "pubsub_ok B" "ticks_of_run H B ticks" "n < length ticks"
    "in_last_second received ticks n < 2 ^ 32" "in_last_second confirmed ticks n < 2 ^ 32"
  shows "\<exists>cols w r g b. led_ticks (map led_reading ticks) led_window_init = Some (cols, w) \<and> cols ! n = (r, g, b) \<and>
     unat g = shown_level (in_last_second received ticks n) \<and> unat r = shown_level (in_last_second confirmed ticks n) \<and>
     b = (case ticks ! n of (config_mode, wifi, x) \<Rightarrow>
            if client_tasks (core x) \<noteq> {} then (if n mod 10 = 0 then 0 else 10)
            else if config_mode \<or> wifi then (if n mod 10 = 0 then 10 else 0) else 0)"
proof -
  let ?inps = "map led_reading ticks"
  obtain cols w where cols: "led_ticks ?inps led_window_init = Some (cols, w)"
    "cols ! n = (level_from_count (sample (map in_tx ?inps) (n + 1) - sample (map in_tx ?inps) (n - 9)),
       level_from_count (sample (map in_rx ?inps) (n + 1) - sample (map in_rx ?inps) (n - 9)), status_blue (?inps ! n) (n mod 10))"
    using led_shows_last_second [of n ?inps] assms(4) by auto
  note levels = rx_total.level_shown [OF assms(1-5), folded led_reading_counts]
    tx_total.level_shown [OF assms(1-4,6), folded led_reading_counts]
  obtain config_mode wifi x where tick: "ticks ! n = (config_mode, wifi, x)" by (metis prod.exhaust)
  have "unat (TCP_CLIENTS (core x)) = card (client_tasks (core x))"
    using bus_reach_inv [OF assms(1,2) tick_reach [OF assms(3,4)]] tick by (simp add: bus_inv_def sys_inv_def)
  then have "0 < TCP_CLIENTS (core x) \<longleftrightarrow> client_tasks (core x) \<noteq> {}"
    by (metis card_0_eq finite unat_eq_zero word_gt_0)
  then have "status_blue (?inps ! n) (n mod 10) = (case ticks ! n of (config_mode, wifi, x) \<Rightarrow>
            if client_tasks (core x) \<noteq> {} then (if n mod 10 = 0 then 0 else 10)
            else if config_mode \<or> wifi then (if n mod 10 = 0 then 10 else 0) else 0)"
    using assms(4) tick by (simp add: status_blue_def led_reading_def STATUS_BLUE_def Let_def)
  with cols levels show ?thesis by blast
qed

lemma reach_run: "bus_reach H B x \<Longrightarrow> rtranclp (bus_step H B) (rx_init B) x"
  by (induction rule: bus_reach.induct) (auto intro: rtranclp.rtrancl_into_rtrancl)

theorem led_shows_bus_traffic_witness:
  "\<exists>x cols w r g b. led_ticks [led_reading (False, True, x)] led_window_init = Some (cols, w) \<and> cols ! 0 = (r, g, b) \<and>
     bus_reach busy_hal list_bus x \<and> received x = 1 \<and> confirmed x = 0 \<and> unat g = 5 \<and> r = 0"
proof -
  obtain x f where x: "bus_reach busy_hal list_bus x" "published (core x) = [f]" "n_ack x = (\<lambda>_. 0)" using busy_run by blast
  let ?ticks = "[(False, True, x)]"
  have run: "ticks_of_run busy_hal list_bus ?ticks" "0 < length ?ticks" using reach_run [OF x(1)] by (simp_all add: ticks_of_run_def)
  have k: "in_last_second received ?ticks 0 = 1" "in_last_second confirmed ?ticks 0 = 0" "received x = 1" "confirmed x = 0"
    using x(2,3) by (simp_all add: in_last_second_def total_by_def received_def confirmed_def)
  have "(1 :: nat) < 2 ^ 32" "(0 :: nat) < 2 ^ 32" by simp_all
  from led_shows_bus_traffic [OF busy_hal_ok list_bus_ok run, unfolded k(1,2), OF this]
  obtain cols w r g b where "led_ticks (map led_reading ?ticks) led_window_init = Some (cols, w)"
    "cols ! 0 = (r, g, b)" "unat g = shown_level 1" "unat r = shown_level 0" by blast
  with x k(3,4) show ?thesis
    by (intro exI [of _ x] exI [of _ cols] exI [of _ w] exI [of _ r] exI [of _ g] exI [of _ b])
      (simp add: shown_level_def unat_eq_0)
qed

section \<open>From the bus to the status page\<close>





section \<open>From the settings page to the radio\<close>

lemma wifi_form_result:
  assumes "n \<noteq> []" "length n \<le> 32" "length p \<le> 64"
  shows "\<exists>c r. wifi_good c \<and> wifi_is_valid c \<and> ssid_str c = Some n \<and> password_str c = Some p \<and>
     Config.save_wifi F c (web_flash w) = Some r \<and>
     http_save_wifi F (two_field_form (ascii ''ssid'') n (ascii ''password'') p) w =
       Some (if is_ok r then Reset else Response save_failed, w\<lparr>web_flash := snd r, WIFI_CONFIG := c\<rparr>)"
proof -
  let ?body = "two_field_form (ascii ''ssid'') n (ascii ''password'') p"
  have f: "form_field ?body (ascii ''ssid'') 32 = Some n" "form_field ?body (ascii ''password'') 64 = Some p"
    using two_fields [of "ascii ''ssid''" "ascii ''password''" n p] assms(2,3) by (simp_all del: ascii_simps, simp_all)
  obtain c where c: "set_credentials n p WifiConfig_new = Some c" "ssid_str c = Some n" "password_str c = Some p"
    "wifi_is_valid c" "wifi_good c"
    using set_credentials_result [of WifiConfig_new n p] assms by (auto simp: WifiConfig_new_def)
  obtain r where r: "Config.save_wifi F c (web_flash w) = Some r" using wifi_slot.save_total [OF c(5), of F "web_flash w"] by auto
  have "http_save_wifi F ?body w = Some (if is_ok r then Reset else Response save_failed,
      w\<lparr>web_flash := snd r, WIFI_CONFIG := c\<rparr>)"
    using f c(1) r assms(1) by (simp add: http_save_wifi_def Let_def del: ascii_simps)
  with c r show ?thesis by blast
qed

lemma demo_wifi_saved:
  assumes "wifi_good c" "Config.save_wifi demo_flash c (replicate 1024 0) = Some r"
  shows "is_ok r"
proof -
  have "length (wifi_as_bytes c) = 104" using assms(1) by (simp add: wifi_as_bytes_def wifi_good_def)
  with assms(2) show ?thesis
    by (auto simp: save_wifi_def nvs_partition_def copy_prefix_def demo_flash_def WIFI_CONFIG_OFFSET_def is_ok_def)
qed

text \<open>
  C20.  WiFi credentials typed into the page arrive in the radio.  For any SSID of 1 to 32 bytes and
  any password of at most 64, of whatever characters, the handler of the submitted form either reports
  that saving failed or resets the chip; after the reset the boot code finds exactly these credentials
  in flash and starts in station mode with them, and no other setting has changed.
\<close>

theorem wifi_form_reaches_boot:
  assumes "flash_ok F" "n \<noteq> []" "length n \<le> 32" "length p \<le> 64"
  shows "\<exists>res w'. http_save_wifi F (two_field_form (ascii ''ssid'') n (ascii ''password'') p) w = Some (res, w') \<and>
     (res = Reset \<or> res = Response save_failed) \<and>
     (res = Reset \<longrightarrow> snd (settings F (web_flash w')) = snd (settings F (web_flash w)) \<and>
        (\<exists>s. boot F (web_flash w') = Some s \<and> radio_config s = Some (Station n p)))"
proof -
  obtain c r where c: "wifi_good c" "wifi_is_valid c" "ssid_str c = Some n" "password_str c = Some p"
    and r: "Config.save_wifi F c (web_flash w) = Some r"
    and res: "http_save_wifi F (two_field_form (ascii ''ssid'') n (ascii ''password'') p) w =
       Some (if is_ok r then Reset else Response save_failed, w\<lparr>web_flash := snd r, WIFI_CONFIG := c\<rparr>)"
    using wifi_form_result [OF assms(2-4)] by blast
  have "settings F (snd r) = (Some c, snd (settings F (web_flash w)))" if "is_ok r"
    using save_wifi_settings [OF assms(1) c(1)] r is_okD [OF that] by metis
  with res boot_station [of F "snd r" c "snd (settings F (web_flash w))" n p] c show ?thesis by auto
qed

theorem wifi_form_reaches_boot_witness:
  "\<exists>w' s. http_save_wifi demo_flash (two_field_form (ascii ''ssid'') (ascii ''my net'') (ascii ''password'') (ascii ''a&b=c''))
       \<lparr>WIFI_CONFIG = WifiConfig_new, DEVICE_CONFIG = DeviceConfig_new, AUTOCONNECT_CONFIG = AutoConnectConfig_new,
        AUTH_CONFIG = AuthConfig_new, web_flash = replicate 1024 0\<rparr> = Some (Reset, w') \<and>
     boot demo_flash (web_flash w') = Some s \<and> radio_config s = Some (Station (ascii ''my net'') (ascii ''a&b=c''))"
proof -
  let ?w = "\<lparr>WIFI_CONFIG = WifiConfig_new, DEVICE_CONFIG = DeviceConfig_new, AUTOCONNECT_CONFIG = AutoConnectConfig_new,
      AUTH_CONFIG = AuthConfig_new, web_flash = replicate 1024 0\<rparr> :: bytes web"
  let ?body = "two_field_form (ascii ''ssid'') (ascii ''my net'') (ascii ''password'') (ascii ''a&b=c'')"
  have len: "ascii ''my net'' \<noteq> []" "length (ascii ''my net'') \<le> 32" "length (ascii ''a&b=c'') \<le> 64" by simp_all
  obtain c r where "wifi_good c" "Config.save_wifi demo_flash c (replicate 1024 0) = Some r"
    and res: "http_save_wifi demo_flash ?body ?w =
       Some (if is_ok r then Reset else Response save_failed, ?w\<lparr>web_flash := snd r, WIFI_CONFIG := c\<rparr>)"
    using wifi_form_result [OF len, of demo_flash ?w] by (auto simp del: ascii_simps)
  then have "is_ok r" by (intro demo_wifi_saved)
  with res have reset: "\<exists>w'. http_save_wifi demo_flash ?body ?w = Some (Reset, w')" by auto
  from wifi_form_reaches_boot [OF demo_flash_ok len, of ?w] reset show ?thesis by (auto simp del: ascii_simps)
qed

section \<open>The life of a device\<close>




lemma web_flash_web_of [simp]: "web_flash (web_of s fl) = fl"
  by (simp add: web_of_def)








end
